(* ===== verification/Prelude.thy ===== *)
theory Prelude
  imports Main "HOL-Library.Word" "HOL-Library.Signed_Division" "HOL-Library.Multiset"
begin

text \<open>
  Shared vocabulary of the development.

  \<^item> Go's fixed-width unsigned integers are words (\<open>u8\<close>, \<open>u16\<close>, \<open>u32\<close>, \<open>u64\<close>), so that
    their arithmetic wraps around as it does in Go; a signed 32-bit value is the same
    word read with \<^const>\<open>sint\<close>.
  \<^item> A length, a capacity or an index that the code computes from \<open>len\<close> is a natural number.
  \<^item> A Go operation that may panic returns \<open>'a go\<close>: \<^const>\<open>Inl\<close> a panic, or \<^const>\<open>Inr\<close> the result.
  \<^item> Go's integer division truncates towards zero; on \<^typ>\<open>int\<close> it is \<open>sdiv\<close> / \<open>smod\<close> of
    \<open>HOL-Library.Signed_Division\<close>.

  The collections below gather the facts component proofs share: \<open>go_simps\<close> (evaluation of
  the panic monad) and \<open>word_facts\<close> (sequence-number arithmetic).
\<close>

named_theorems go_simps \<open>evaluation of computations that may panic\<close>
named_theorems word_facts \<open>arithmetic on wrapping sequence numbers\<close>

type_synonym u8 = "8 word"
type_synonym u16 = "16 word"
type_synonym u32 = "32 word"
type_synonym u64 = "64 word"
type_synonym byte = "8 word"
type_synonym bytes = "8 word list"

text \<open>The value of an expression of type \<open>int64\<close>: wrapped around into the range of the type.\<close>

definition i64 :: "int \<Rightarrow> int" where
  "i64 x = signed_take_bit 63 x"

lemma i64_small: "- (2 ^ 63) \<le> x \<Longrightarrow> x < 2 ^ 63 \<Longrightarrow> i64 x = x"
  by (simp add: i64_def signed_take_bit_int_eq_self)

lemma i64_wraps:
  assumes "2 ^ 63 \<le> x" and "x < 2 ^ 64"
  shows "i64 x = x - 2 ^ 64"
proof -
  have "i64 x = i64 (x - 2 ^ 64)"
    using signed_take_bit_take_bit [of 63 64 x] signed_take_bit_take_bit [of 63 64 "x - 2 ^ 64"]
    by (simp add: i64_def take_bit_eq_mod)
  also have "\<dots> = x - 2 ^ 64" by (rule i64_small) (use assms in simp_all)
  finally show ?thesis .
qed


section \<open>Computations that may panic\<close>

text \<open>
  \<open>NoReturn\<close> is not a panic of Go: it marks a loop that did not end within the bound a model gives
  it. Theorems about such loops show a result \<^const>\<open>Inr\<close>, so that they also say the loop ends.
\<close>

datatype go_panic = SliceBounds | IndexRange | DivByZero | NilDeref | NoReturn

type_synonym 'a go = "go_panic + 'a"

definition go_bind :: "'a go \<Rightarrow> ('a \<Rightarrow> 'b go) \<Rightarrow> 'b go" where
  "go_bind m f = (case m of Inl e \<Rightarrow> Inl e | Inr x \<Rightarrow> f x)"

lemma go_bind_Inl [simp, go_simps]: "go_bind (Inl e) f = Inl e"
  by (simp add: go_bind_def)

lemma go_bind_Inr [simp, go_simps]: "go_bind (Inr x) f = f x"
  by (simp add: go_bind_def)

lemma go_bind_eq_Inr [go_simps]: "go_bind m f = Inr y \<longleftrightarrow> (\<exists>x. m = Inr x \<and> f x = Inr y)"
  by (cases m) auto

lemma go_bind_eq_Inl [go_simps]:
  "go_bind m f = Inl e \<longleftrightarrow> m = Inl e \<or> (\<exists>x. m = Inr x \<and> f x = Inl e)"
  by (cases m) auto

text \<open>A Go \<open>for\<close> loop over given values whose body may panic.\<close>

fun go_for :: "('i \<Rightarrow> 's \<Rightarrow> 's go) \<Rightarrow> 'i list \<Rightarrow> 's \<Rightarrow> 's go" where
  "go_for f [] s = Inr s"
| "go_for f (i # is) s = go_bind (f i s) (go_for f is)"

lemma go_for_append: "go_for f (xs @ ys) s = go_bind (go_for f xs s) (go_for f ys)"
proof (induction xs arbitrary: s)
  case (Cons x xs)
  then show ?case by (cases "f x s") auto
qed simp


section \<open>Sequence numbers modulo \<open>2 ^ 32\<close>\<close>

text \<open>
  KCP compares sequence numbers and timestamps by the sign of their wrapped difference.
  On a window of fewer than \<open>2 ^ 31\<close> numbers starting at a base \<open>b\<close> this is the order of the
  distances \<open>unat (x - b)\<close>, which is what the lemmas of this section say.
\<close>

lemma unat_u32_less: "unat (d :: u32) < 2 ^ 32"
  using unsigned_less [of d] by simp

lemma int_unat_u32_less: "int (unat (d :: u32)) < 2 ^ 32"
  using uint_lt2p [of d] by simp

lemma sint_u32_low:
  fixes d :: u32
  assumes "unat d < 2 ^ 31"
  shows "sint d = int (unat d)"
proof -
  have "int (unat d) < int (2 ^ 31)" using assms by (simp only: of_nat_less_iff)
  then have "uint d < 2 ^ 31" by simp
  then have "signed_take_bit 31 (uint d) = uint d"
    by (intro signed_take_bit_int_eq_self) (use uint_ge_0 [of d] in linarith)+
  then show ?thesis by (simp add: sint_uint)
qed

lemma sint_u32_high:
  fixes d :: u32
  assumes "\<not> unat d < 2 ^ 31"
  shows "sint d = int (unat d) - 2 ^ 32"
proof -
  have "int (2 ^ 31) \<le> int (unat d)" using assms by (simp only: of_nat_le_iff not_less)
  then have l: "2 ^ 31 \<le> uint d" by simp
  have u: "uint d < 2 ^ 32" using uint_lt2p [of d] by simp
  have "signed_take_bit 31 (uint d) = signed_take_bit 31 (uint d - 2 ^ 32)"
    by (simp add: signed_take_bit_eq_iff_take_bit_eq take_bit_eq_mod)
  also have "\<dots> = uint d - 2 ^ 32"
    using l u by (intro signed_take_bit_int_eq_self) auto
  finally show ?thesis by (simp add: sint_uint)
qed

lemma sint_pos_iff [word_facts]: "0 < sint (d :: u32) \<longleftrightarrow> 0 < unat d \<and> unat d < 2 ^ 31"
  using sint_u32_low [of d] sint_u32_high [of d] int_unat_u32_less [of d] by linarith

lemma sint_neg_iff [word_facts]: "sint (d :: u32) < 0 \<longleftrightarrow> 2 ^ 31 \<le> unat d"
  using sint_u32_low [of d] sint_u32_high [of d] int_unat_u32_less [of d] by linarith

lemma unat_diff_window:
  fixes a b base :: u32
  shows "unat (a - b) =
    (if unat (b - base) \<le> unat (a - base) then unat (a - base) - unat (b - base)
     else unat (a - base) + 2 ^ 32 - unat (b - base))"
proof -
  have "a - b = (a - base) - (b - base)" by simp
  then show ?thesis by (simp only: unat_sub_if') simp
qed

lemma sint_diff_pos_window [word_facts]:
  fixes a b base :: u32
  assumes "unat (a - base) < 2 ^ 31" and "unat (b - base) < 2 ^ 31"
  shows "0 < sint (a - b) \<longleftrightarrow> unat (b - base) < unat (a - base)"
  using assms unat_diff_window [of a b base] unfolding sint_pos_iff by auto

lemma sint_diff_neg_window [word_facts]:
  fixes a b base :: u32
  assumes "unat (a - base) < 2 ^ 31" and "unat (b - base) < 2 ^ 31"
  shows "sint (a - b) < 0 \<longleftrightarrow> unat (a - base) < unat (b - base)"
  using assms unat_diff_window [of a b base] unat_u32_less [of "a - b"]
  unfolding sint_neg_iff by auto

text \<open>Arithmetic on \<open>int32\<close> values that does not overflow.\<close>

lemma sint_diff_exact:
  "- (2 ^ 31) \<le> sint a - sint b \<Longrightarrow> sint a - sint b < 2 ^ 31 \<Longrightarrow> sint (a - b :: u32) = sint a - sint b"
  by (simp add: sint_word_ariths signed_take_bit_int_eq_self)

lemma sint_add_exact:
  "- (2 ^ 31) \<le> sint a + sint b \<Longrightarrow> sint a + sint b < 2 ^ 31 \<Longrightarrow> sint (a + b :: u32) = sint a + sint b"
  by (simp add: sint_word_ariths signed_take_bit_int_eq_self)

lemma sint_uminus_exact: "- (2 ^ 31) < sint a \<Longrightarrow> sint (- a :: u32) = - sint a"
  using sint_lt [of a] by (simp add: sint_word_ariths signed_take_bit_int_eq_self)

lemma sint_sdrop: "sint (signed_drop_bit n a :: u32) = sint a div 2 ^ n"
  by (simp add: sint_signed_drop_bit_eq drop_bit_eq_div)

lemma uint_eq_sint: "0 \<le> sint a \<Longrightarrow> uint (a :: u32) = sint a"
  using sint_u32_low sint_u32_high sint_neg_iff [of a] by simp

lemma unat_diff_eq_0_iff [simp]: "unat ((a :: u32) - b) = 0 \<longleftrightarrow> a = b"
  by (simp add: unat_eq_zero)

lemma unat_succ_u32: "unat (d :: u32) < 2 ^ 32 - 1 \<Longrightarrow> unat (d + 1) = Suc (unat d)"
  by (simp add: unat_word_ariths)

lemma unat_of_nat_u32: "n < 2 ^ 32 \<Longrightarrow> unat (of_nat n :: u32) = n"
  by (simp add: unat_of_nat take_bit_eq_mod)


section \<open>Lists\<close>

text \<open>
  Go's builtin \<open>copy(dst[off:], src)\<close>: it overwrites at most \<open>len(dst) - off\<close> elements and keeps
  the rest of the destination.
\<close>

definition go_copy :: "'a list \<Rightarrow> nat \<Rightarrow> 'a list \<Rightarrow> 'a list" where
  "go_copy dst off src = take off dst @ take (length dst - off) src @ drop (off + length src) dst"

lemma length_go_copy [simp]: "off \<le> length dst \<Longrightarrow> length (go_copy dst off src) = length dst"
  by (auto simp: go_copy_def min_def)

lemma go_copy_replicate:
  "length src \<le> n \<Longrightarrow> go_copy (replicate n z) 0 src = src @ replicate (n - length src) z"
  by (simp add: go_copy_def)

lemma go_copy_append_replicate:
  "length ys \<le> k \<Longrightarrow>
     go_copy (xs @ replicate k z) (length xs) ys = xs @ ys @ replicate (k - length ys) z"
  by (simp add: go_copy_def)

text \<open>
  A Go iterator \<open>func(yield func(*T) bool)\<close> over the elements of a list: the callback gets the
  element (which it may overwrite through the pointer) and the loop's local state, and
  returns the new element, the new state and whether to continue.
\<close>

type_synonym ('a, 's) yield = "'a \<Rightarrow> 's \<Rightarrow> 'a \<times> 's \<times> bool"

fun list_iter :: "('a, 's) yield \<Rightarrow> 'a list \<Rightarrow> 's \<Rightarrow> 'a list \<times> 's \<times> bool" where
  "list_iter f [] s = ([], s, True)"
| "list_iter f (x # xs) s =
     (let (x', s', c) = f x s
      in if c then (let (ys, s'', c') = list_iter f xs s' in (x' # ys, s'', c'))
         else (x' # xs, s', False))"

lemma length_list_iter [simp]: "length (fst (list_iter f xs s)) = length xs"
  by (induction xs arbitrary: s) (auto simp: case_prod_beta Let_def)

lemma list_iter_append:
  "list_iter f (xs @ ys) s =
     (let (xs', s', c) = list_iter f xs s
      in if c then (let (ys', s'', c') = list_iter f ys s' in (xs' @ ys', s'', c'))
         else (xs' @ ys, s', False))"
  by (induction xs arbitrary: s) (auto split: prod.splits)

end
