(* ===== verification/Ring_Buffer.thy ===== *)
theory Ring_Buffer
  imports Prelude
begin

text \<open>
  The generic ring buffer of \<open>src/kcp/ringbuffer.go\<close>: the state (\<open>head\<close>, \<open>tail\<close> and the
  backing slice), every method, the invariant that keeps all its indices in range, and the
  refinement to a FIFO list (\<open>rb_list\<close>). The interface the KCP state machine uses is the
  locale \<open>fifo_queue\<close>, interpreted at the end of the theory on the methods themselves.

  The zero value \<open>var zero T\<close> of the element type is an argument \<open>zero\<close> of the methods that
  write it. A callback given a pointer to an element is a \<open>yield\<close> function of the prelude.
\<close>

section \<open>State and methods\<close>

definition RINGBUFFER_MIN :: nat where
  "RINGBUFFER_MIN = 8"

definition RINGBUFFER_EXP :: nat where
  "RINGBUFFER_EXP = 1024"

record 'a RingBuffer =
  rb_head :: nat
  rb_tail :: nat
  rb_elements :: "'a list"

definition NewRingBuffer :: "'a \<Rightarrow> int \<Rightarrow> 'a RingBuffer" where
  "NewRingBuffer zero sz =
     (let sz' = (if sz \<le> int RINGBUFFER_MIN then int RINGBUFFER_MIN else sz)
      in \<lparr>rb_head = 0, rb_tail = 0, rb_elements = replicate (nat sz') zero\<rparr>)"

definition RingBuffer_Len :: "'a RingBuffer \<Rightarrow> nat" where
  "RingBuffer_Len r =
     (if rb_head r \<le> rb_tail r then rb_tail r - rb_head r
      else length (rb_elements r) - rb_head r + rb_tail r)"

definition RingBuffer_IsEmpty :: "'a RingBuffer \<Rightarrow> bool" where
  "RingBuffer_IsEmpty r \<longleftrightarrow> rb_head r = rb_tail r"

definition RingBuffer_MaxLen :: "'a RingBuffer \<Rightarrow> nat" where
  "RingBuffer_MaxLen r = length (rb_elements r) - 1"

definition RingBuffer_IsFull :: "'a RingBuffer \<Rightarrow> bool" where
  "RingBuffer_IsFull r \<longleftrightarrow> (rb_tail r + 1) mod length (rb_elements r) = rb_head r"

definition RingBuffer_grow :: "'a \<Rightarrow> 'a RingBuffer \<Rightarrow> 'a RingBuffer" where
  "RingBuffer_grow zero r =
     (let currentLength = RingBuffer_Len r;
          currentSize = length (rb_elements r);
          newSize = (if currentSize < RINGBUFFER_MIN then RINGBUFFER_MIN
                     else if currentSize < RINGBUFFER_EXP then currentSize * 2
                     else currentSize + (currentSize + 9) div 10);
          newElements = replicate newSize zero;
          newElements' =
            (if rb_head r < rb_tail r
             then go_copy newElements 0 (take (rb_tail r - rb_head r) (drop (rb_head r) (rb_elements r)))
             else (let src = drop (rb_head r) (rb_elements r);
                       n = min newSize (length src)
                   in go_copy (go_copy newElements 0 src) n (take (rb_tail r) (rb_elements r))))
      in \<lparr>rb_head = 0, rb_tail = currentLength, rb_elements = newElements'\<rparr>)"

definition RingBuffer_Push :: "'a \<Rightarrow> 'a \<Rightarrow> 'a RingBuffer \<Rightarrow> 'a RingBuffer" where
  "RingBuffer_Push zero v r =
     (let r' = (if RingBuffer_IsFull r then RingBuffer_grow zero r else r)
      in r'\<lparr>rb_elements := (rb_elements r')[rb_tail r' := v],
            rb_tail := (rb_tail r' + 1) mod length (rb_elements r')\<rparr>)"

definition RingBuffer_Pop :: "'a \<Rightarrow> 'a RingBuffer \<Rightarrow> ('a \<times> bool) \<times> 'a RingBuffer" where
  "RingBuffer_Pop zero r =
     (if RingBuffer_Len r = 0 then ((zero, False), r)
      else (let value = rb_elements r ! rb_head r
            in ((value, True),
                r\<lparr>rb_elements := (rb_elements r)[rb_head r := zero],
                  rb_head := (rb_head r + 1) mod length (rb_elements r)\<rparr>)))"

definition RingBuffer_Peek :: "'a RingBuffer \<Rightarrow> 'a option" where
  "RingBuffer_Peek r =
     (if RingBuffer_Len r = 0 then None else Some (rb_elements r ! rb_head r))"

definition RingBuffer_Clear :: "'a \<Rightarrow> 'a RingBuffer \<Rightarrow> 'a RingBuffer" where
  "RingBuffer_Clear zero r =
     (let clear = fold (\<lambda>i es. es[i := zero]);
          es = (if rb_head r \<le> rb_tail r then clear [rb_head r..<rb_tail r] (rb_elements r)
                else clear [0..<rb_tail r]
                       (clear [rb_head r..<length (rb_elements r)] (rb_elements r)))
      in \<lparr>rb_head = 0, rb_tail = 0, rb_elements = es\<rparr>)"

fun discard_loop :: "'a \<Rightarrow> nat \<Rightarrow> 'a RingBuffer \<Rightarrow> 'a RingBuffer" where
  "discard_loop zero 0 r = r"
| "discard_loop zero (Suc n) r =
     discard_loop zero n
       (r\<lparr>rb_elements := (rb_elements r)[rb_head r := zero],
          rb_head := (rb_head r + 1) mod length (rb_elements r)\<rparr>)"

definition RingBuffer_Discard :: "'a \<Rightarrow> int \<Rightarrow> 'a RingBuffer \<Rightarrow> int \<times> 'a RingBuffer" where
  "RingBuffer_Discard zero n r =
     (let currentLen = int (RingBuffer_Len r);
          n' = min n currentLen
      in if n' = currentLen then (n', RingBuffer_Clear zero r)
         else (n', discard_loop zero (nat n') r))"

text \<open>One of the two \<open>for\<close> loops of an iteration: \<open>fn\<close> on the slots listed, until it says stop.\<close>

fun slots_iter :: "('a, 's) yield \<Rightarrow> nat list \<Rightarrow> 'a list \<Rightarrow> 's \<Rightarrow> 'a list \<times> 's \<times> bool" where
  "slots_iter fn [] es s = (es, s, True)"
| "slots_iter fn (i # is) es s =
     (let (x, s', c) = fn (es ! i) s
      in if c then slots_iter fn is (es[i := x]) s' else (es[i := x], s', False))"

definition RingBuffer_ForEach ::
    "('a, 's) yield \<Rightarrow> 'a RingBuffer \<Rightarrow> 's \<Rightarrow> 'a RingBuffer \<times> 's" where
  "RingBuffer_ForEach fn r s =
     (if RingBuffer_Len r = 0 then (r, s)
      else if rb_head r < rb_tail r
      then (let (es, s', _) = slots_iter fn [rb_head r..<rb_tail r] (rb_elements r) s
            in (r\<lparr>rb_elements := es\<rparr>, s'))
      else (let (es, s', c) = slots_iter fn [rb_head r..<length (rb_elements r)] (rb_elements r) s
            in if c then (let (es', s'', _) = slots_iter fn [0..<rb_tail r] es s'
                          in (r\<lparr>rb_elements := es'\<rparr>, s''))
               else (r\<lparr>rb_elements := es\<rparr>, s')))"

definition RingBuffer_ForEachReverse ::
    "('a, 's) yield \<Rightarrow> 'a RingBuffer \<Rightarrow> 's \<Rightarrow> 'a RingBuffer \<times> 's" where
  "RingBuffer_ForEachReverse fn r s =
     (if RingBuffer_Len r = 0 then (r, s)
      else if rb_head r < rb_tail r
      then (let (es, s', _) = slots_iter fn (rev [rb_head r..<rb_tail r]) (rb_elements r) s
            in (r\<lparr>rb_elements := es\<rparr>, s'))
      else (let (es, s', c) = slots_iter fn (rev [0..<rb_tail r]) (rb_elements r) s
            in if c then (let (es', s'', _) =
                                slots_iter fn (rev [rb_head r..<length (rb_elements r)]) es s'
                          in (r\<lparr>rb_elements := es'\<rparr>, s''))
               else (r\<lparr>rb_elements := es\<rparr>, s')))"


section \<open>Invariant and abstraction\<close>

definition rb_inv :: "'a RingBuffer \<Rightarrow> bool" where
  "rb_inv r \<longleftrightarrow> RINGBUFFER_MIN \<le> length (rb_elements r)
     \<and> rb_head r < length (rb_elements r) \<and> rb_tail r < length (rb_elements r)"

definition rb_slots :: "'a RingBuffer \<Rightarrow> nat list" where
  "rb_slots r =
     (if rb_head r \<le> rb_tail r then [rb_head r..<rb_tail r]
      else [rb_head r..<length (rb_elements r)] @ [0..<rb_tail r])"

definition rb_list :: "'a RingBuffer \<Rightarrow> 'a list" where
  "rb_list r = map (\<lambda>i. rb_elements r ! i) (rb_slots r)"

text \<open>Every slot that holds no live element is the zero value: popped rb_elements are not retained.\<close>

definition rb_clean :: "'a \<Rightarrow> 'a RingBuffer \<Rightarrow> bool" where
  "rb_clean zero r \<longleftrightarrow>
     (\<forall>i < length (rb_elements r). i \<notin> set (rb_slots r) \<longrightarrow> rb_elements r ! i = zero)"

lemmas rb_defs = rb_inv_def rb_slots_def rb_list_def RingBuffer_Len_def RINGBUFFER_MIN_def

lemma rb_slots_less: "rb_inv r \<Longrightarrow> i \<in> set (rb_slots r) \<Longrightarrow> i < length (rb_elements r)"
  by (auto simp: rb_defs split: if_splits)

lemma distinct_rb_slots: "distinct (rb_slots r)"
  by (auto simp: rb_slots_def)

lemma length_rb_slots: "length (rb_slots r) = RingBuffer_Len r"
  by (auto simp: rb_defs)

lemma length_rb_list [simp]: "length (rb_list r) = RingBuffer_Len r"
  by (simp add: rb_list_def length_rb_slots)

lemma rb_list_Nil_iff: "rb_inv r \<Longrightarrow> rb_list r = [] \<longleftrightarrow> rb_head r = rb_tail r"
  by (auto simp: rb_defs)

lemma tail_notin_slots: "rb_inv r \<Longrightarrow> rb_tail r \<notin> set (rb_slots r)"
  by (auto simp: rb_defs)



section \<open>Construction and queries\<close>

lemma NewRingBuffer_inv: "rb_inv (NewRingBuffer zero n)"
  by (auto simp: NewRingBuffer_def rb_inv_def RINGBUFFER_MIN_def Let_def)

lemma NewRingBuffer_list [simp]: "rb_list (NewRingBuffer zero n) = []"
  by (simp add: NewRingBuffer_def rb_list_def rb_slots_def)

lemma NewRingBuffer_clean: "rb_clean zero (NewRingBuffer zero n)"
  by (simp add: NewRingBuffer_def rb_clean_def)

lemma RingBuffer_IsEmpty_iff: "rb_inv r \<Longrightarrow> RingBuffer_IsEmpty r \<longleftrightarrow> rb_list r = []"
  by (simp add: RingBuffer_IsEmpty_def rb_list_Nil_iff)

lemma RingBuffer_IsFull_iff: "rb_inv r \<Longrightarrow> RingBuffer_IsFull r \<longleftrightarrow> RingBuffer_Len r = RingBuffer_MaxLen r"
  by (auto simp: RingBuffer_IsFull_def RingBuffer_MaxLen_def rb_defs mod_Suc)

lemma RingBuffer_Len_le: "rb_inv r \<Longrightarrow> RingBuffer_Len r \<le> RingBuffer_MaxLen r"
  by (auto simp: RingBuffer_MaxLen_def rb_defs)

lemma rb_list_hd: "rb_inv r \<Longrightarrow> rb_list r \<noteq> [] \<Longrightarrow> hd (rb_list r) = rb_elements r ! rb_head r"
  by (auto simp: rb_defs hd_map upt_rec)

lemma RingBuffer_Peek_eq:
  "rb_inv r \<Longrightarrow> RingBuffer_Peek r = (if rb_list r = [] then None else Some (hd (rb_list r)))"
  by (auto simp: RingBuffer_Peek_def rb_list_hd simp flip: length_rb_list)


section \<open>Push and grow\<close>

lemma map_nth_upt_take_drop:
  "a \<le> b \<Longrightarrow> b \<le> length xs \<Longrightarrow> map ((!) xs) [a..<b] = take (b - a) (drop a xs)"
  by (rule nth_equalityI) auto

lemma rb_list_take_drop:
  "rb_inv r \<Longrightarrow> rb_list r =
     (if rb_head r \<le> rb_tail r then take (rb_tail r - rb_head r) (drop (rb_head r) (rb_elements r))
      else drop (rb_head r) (rb_elements r) @ take (rb_tail r) (rb_elements r))"
  by (auto simp: rb_inv_def rb_list_def rb_slots_def map_nth_upt_take_drop)

lemma grow_size: "RINGBUFFER_MIN \<le> n \<Longrightarrow>
    n < (if n < RINGBUFFER_MIN then RINGBUFFER_MIN else if n < RINGBUFFER_EXP then n * 2
         else n + (n + 9) div 10)"
  by (auto simp: RINGBUFFER_MIN_def RINGBUFFER_EXP_def)

lemma RingBuffer_grow_elements:
  assumes "rb_inv r" and "RingBuffer_IsFull r"
  shows "\<exists>k. 0 < k \<and> rb_elements (RingBuffer_grow zero r) = rb_list r @ replicate (Suc k) zero"
proof -
  define n where "n = length (rb_elements r)"
  define m where "m = (if n < RINGBUFFER_MIN then RINGBUFFER_MIN
      else if n < RINGBUFFER_EXP then n * 2 else n + (n + 9) div 10)"
  have nm: "n < m" using assms(1) grow_size [of n] by (simp add: m_def n_def rb_inv_def)
  have len: "length (rb_list r) = n - 1"
    using assms by (simp add: RingBuffer_IsFull_iff RingBuffer_MaxLen_def n_def)
  have ne: "rb_head r \<noteq> rb_tail r"
  proof
    assume "rb_head r = rb_tail r"
    then have "length (rb_list r) = 0" by (simp add: RingBuffer_Len_def)
    with len assms(1) show False by (simp add: rb_inv_def RINGBUFFER_MIN_def n_def)
  qed
  have "rb_elements (RingBuffer_grow zero r) = rb_list r @ replicate (m - (n - 1)) zero"
  proof (cases "rb_head r < rb_tail r")
    case True
    then have l: "rb_list r = take (rb_tail r - rb_head r) (drop (rb_head r) (rb_elements r))"
      using assms(1) by (simp add: rb_list_take_drop)
    have "go_copy (replicate m zero) 0 (rb_list r) = rb_list r @ replicate (m - (n - 1)) zero"
      using len nm by (simp add: go_copy_replicate)
    with True show ?thesis
      by (simp only: RingBuffer_grow_def Let_def if_True RingBuffer.select_convs
            n_def [symmetric] m_def [symmetric] l [symmetric])
  next
    case False
    let ?a = "drop (rb_head r) (rb_elements r)" and ?b = "take (rb_tail r) (rb_elements r)"
    have l: "rb_list r = ?a @ ?b" using assms(1) ne False by (simp add: rb_list_take_drop)
    have ab: "length ?a + length ?b = n - 1"
      using len unfolding l by (simp only: length_append)
    then have "length ?a \<le> m" and "length ?b \<le> m - length ?a" using nm by linarith+
    then have "go_copy (go_copy (replicate m zero) 0 ?a) (min m (length ?a)) ?b
        = ?a @ ?b @ replicate (m - length ?a - length ?b) zero"
      by (simp only: go_copy_replicate min_absorb2 go_copy_append_replicate)
    also have "\<dots> = rb_list r @ replicate (m - (n - 1)) zero"
      unfolding l ab [symmetric] by simp
    finally show ?thesis
      using False by (simp only: RingBuffer_grow_def Let_def if_False RingBuffer.select_convs
            n_def [symmetric] m_def [symmetric])
  qed
  moreover have "m - (n - 1) = Suc (m - n)" and "0 < m - n"
    using nm assms(1) by (auto simp: rb_inv_def RINGBUFFER_MIN_def n_def)
  ultimately show ?thesis by (intro exI [of _ "m - n"]) (simp only:)
qed

lemma RingBuffer_grow_fields [simp]:
  "rb_head (RingBuffer_grow zero r) = 0" "rb_tail (RingBuffer_grow zero r) = RingBuffer_Len r"
  by (simp_all add: RingBuffer_grow_def Let_def)

lemma RingBuffer_grow_spec:
  assumes "rb_inv r" and "RingBuffer_IsFull r"
  shows "rb_inv (RingBuffer_grow zero r)"
    and "rb_list (RingBuffer_grow zero r) = rb_list r"
    and "\<not> RingBuffer_IsFull (RingBuffer_grow zero r)"
    and "RingBuffer_MaxLen r < RingBuffer_MaxLen (RingBuffer_grow zero r)"
    and "rb_clean zero (RingBuffer_grow zero r)"
proof -
  obtain k where k: "0 < k" and e: "rb_elements (RingBuffer_grow zero r) = rb_list r @ replicate (Suc k) zero"
    using RingBuffer_grow_elements [OF assms] by blast
  have full: "RingBuffer_Len r = length (rb_elements r) - 1" and n: "8 \<le> length (rb_elements r)"
    using assms by (simp_all add: RingBuffer_IsFull_iff RingBuffer_MaxLen_def rb_inv_def RINGBUFFER_MIN_def)
  show "rb_inv (RingBuffer_grow zero r)"
    using e full n k by (simp add: rb_inv_def RINGBUFFER_MIN_def)
  show "rb_list (RingBuffer_grow zero r) = rb_list r"
    using e by (simp add: rb_list_def [of "RingBuffer_grow zero r"] rb_slots_def map_nth_upt_take_drop)
  show "\<not> RingBuffer_IsFull (RingBuffer_grow zero r)"
    using e k full n by (simp add: RingBuffer_IsFull_def)
  show "RingBuffer_MaxLen r < RingBuffer_MaxLen (RingBuffer_grow zero r)"
    using e k full n by (simp add: RingBuffer_MaxLen_def)
  show "rb_clean zero (RingBuffer_grow zero r)"
    using e by (auto simp: rb_clean_def rb_slots_def nth_append nth_Cons')
qed

lemma push_slot:
  assumes "rb_inv r" and "\<not> RingBuffer_IsFull r"
  shows "rb_slots (r\<lparr>rb_elements := (rb_elements r)[rb_tail r := v],
            rb_tail := (rb_tail r + 1) mod length (rb_elements r)\<rparr>) = rb_slots r @ [rb_tail r]"
proof (cases "Suc (rb_tail r) = length (rb_elements r)")
  case True
  then have "[rb_head r..<length (rb_elements r)] = [rb_head r..<rb_tail r] @ [rb_tail r]"
    using assms(1) upt_Suc_append [of "rb_head r" "rb_tail r"] by (simp add: rb_inv_def)
  with True assms show ?thesis
    by (auto simp: RingBuffer_IsFull_def rb_slots_def rb_inv_def)
next
  case False
  with assms show ?thesis
    by (auto simp: RingBuffer_IsFull_def rb_slots_def rb_inv_def)
qed

lemma map_nth_update_notin:
  "i \<notin> set is \<Longrightarrow> map ((!) (xs[i := v])) is = map ((!) xs) is"
  by (induction "is") (auto simp: nth_list_update)

lemma push_room:
  fixes v :: 'a
  assumes inv: "rb_inv r" and room: "\<not> RingBuffer_IsFull r"
  defines "r' \<equiv> r\<lparr>rb_elements := (rb_elements r)[rb_tail r := v],
            rb_tail := (rb_tail r + 1) mod length (rb_elements r)\<rparr>"
  shows "rb_inv r'" and "rb_list r' = rb_list r @ [v]" and "rb_clean zero r \<Longrightarrow> rb_clean zero r'"
proof -
  have s: "rb_slots r' = rb_slots r @ [rb_tail r]"
    unfolding r'_def by (rule push_slot [OF inv room])
  have e: "rb_elements r' = (rb_elements r)[rb_tail r := v]" by (simp add: r'_def)
  show "rb_inv r'" using inv by (auto simp: rb_inv_def r'_def RINGBUFFER_MIN_def intro: mod_less_divisor)
  show "rb_list r' = rb_list r @ [v]"
    using inv tail_notin_slots [OF inv] unfolding rb_list_def s e
    by (simp add: map_nth_update_notin) (simp add: rb_inv_def)
  show "rb_clean zero r \<Longrightarrow> rb_clean zero r'"
    unfolding rb_clean_def s e by (auto simp: nth_list_update)
qed

lemma RingBuffer_Push_spec:
  assumes "rb_inv r"
  shows "rb_inv (RingBuffer_Push zero v r)"
    and "rb_list (RingBuffer_Push zero v r) = rb_list r @ [v]"
    and "rb_clean zero r \<Longrightarrow> rb_clean zero (RingBuffer_Push zero v r)"
proof -
  define r' where "r' = (if RingBuffer_IsFull r then RingBuffer_grow zero r else r)"
  have inv: "rb_inv r'" and room: "\<not> RingBuffer_IsFull r'" and l: "rb_list r' = rb_list r"
    and c: "rb_clean zero r \<Longrightarrow> rb_clean zero r'"
    using assms RingBuffer_grow_spec [OF assms, of zero] by (simp_all add: r'_def)
  have p: "RingBuffer_Push zero v r = r'\<lparr>rb_elements := (rb_elements r')[rb_tail r' := v],
      rb_tail := (rb_tail r' + 1) mod length (rb_elements r')\<rparr>"
    by (simp add: RingBuffer_Push_def r'_def Let_def)
  show "rb_inv (RingBuffer_Push zero v r)"
    and "rb_list (RingBuffer_Push zero v r) = rb_list r @ [v]"
    and "rb_clean zero r \<Longrightarrow> rb_clean zero (RingBuffer_Push zero v r)"
    using push_room(1,2) [OF inv room, of v] push_room(3) [OF inv room, of zero v] l c
    unfolding p by simp_all
qed



section \<open>Pop, Discard and Clear\<close>

text \<open>One step of \<open>Pop\<close> and of the loop of \<open>Discard\<close>: zero the head slot and advance.\<close>

abbreviation drop_head :: "'a \<Rightarrow> 'a RingBuffer \<Rightarrow> 'a RingBuffer" where
  "drop_head zero r \<equiv> r\<lparr>rb_elements := (rb_elements r)[rb_head r := zero],
     rb_head := (rb_head r + 1) mod length (rb_elements r)\<rparr>"

lemma drop_head_slots:
  assumes "rb_inv r" and "RingBuffer_Len r \<noteq> 0"
  shows "rb_slots r = rb_head r # rb_slots (drop_head zero r)"
proof (cases "Suc (rb_head r) = length (rb_elements r)")
  case True
  then have "[rb_head r..<length (rb_elements r)] = [rb_head r]" by (simp flip: True)
  with True assms show ?thesis
    by (auto simp: rb_slots_def rb_inv_def RingBuffer_Len_def)
next
  case False
  with assms show ?thesis
    by (auto simp: rb_slots_def rb_inv_def RingBuffer_Len_def upt_conv_Cons)
qed

lemma drop_head_spec:
  assumes inv: "rb_inv r" and ne: "RingBuffer_Len r \<noteq> 0"
  shows "rb_inv (drop_head zero r)"
    and "rb_list (drop_head zero r) = tl (rb_list r)"
    and "rb_clean zero r \<Longrightarrow> rb_clean zero (drop_head zero r)"
proof -
  note s = drop_head_slots [OF inv ne, of zero]
  have notin: "rb_head r \<notin> set (rb_slots (drop_head zero r))"
    using distinct_rb_slots [of r] s by simp
  show "rb_inv (drop_head zero r)"
    using inv by (auto simp: rb_inv_def RINGBUFFER_MIN_def intro: mod_less_divisor)
  show "rb_list (drop_head zero r) = tl (rb_list r)"
    using notin unfolding rb_list_def s by (simp add: map_nth_update_notin)
  show "rb_clean zero r \<Longrightarrow> rb_clean zero (drop_head zero r)"
    using inv unfolding rb_clean_def s by (auto simp: nth_list_update rb_inv_def)
qed

lemma drop_head_Len:
  "rb_inv r \<Longrightarrow> RingBuffer_Len r \<noteq> 0 \<Longrightarrow>
     RingBuffer_Len (drop_head zero r) = RingBuffer_Len r - 1"
  using drop_head_spec(2) [of r zero] by (metis length_rb_list length_tl)

lemma RingBuffer_Pop_empty: "rb_list r = [] \<Longrightarrow> RingBuffer_Pop zero r = ((zero, False), r)"
  by (simp add: RingBuffer_Pop_def flip: length_rb_list)

lemma RingBuffer_Pop_Cons:
  assumes "rb_inv r" and "rb_list r = x # xs"
  shows "\<exists>r'. RingBuffer_Pop zero r = ((x, True), r') \<and> rb_inv r' \<and> rb_list r' = xs
           \<and> (rb_clean zero r \<longrightarrow> rb_clean zero r')"
proof -
  have ne: "RingBuffer_Len r \<noteq> 0" using assms(2) by (simp flip: length_rb_list)
  have "rb_elements r ! rb_head r = x" using rb_list_hd [OF assms(1)] assms(2) by simp
  then have "RingBuffer_Pop zero r = ((x, True), drop_head zero r)"
    using ne by (simp add: RingBuffer_Pop_def Let_def)
  then show ?thesis using drop_head_spec [OF assms(1) ne, of zero] assms(2) by simp
qed

lemma clear_loop_nth:
  "j < length es \<Longrightarrow> fold (\<lambda>i es. es[i := zero]) is es ! j = (if j \<in> set is then zero else es ! j)"
  by (induction "is" arbitrary: es) (auto simp: nth_list_update)

lemma clear_loop_length [simp]: "length (fold (\<lambda>i es. es[i := zero]) is es) = length es"
  by (induction "is" arbitrary: es) auto

lemma RingBuffer_Clear_spec:
  assumes "rb_inv r"
  shows "rb_inv (RingBuffer_Clear zero r)" and "rb_list (RingBuffer_Clear zero r) = []"
    and "rb_clean zero r \<Longrightarrow> rb_clean zero (RingBuffer_Clear zero r)"
proof -
  have "length (rb_elements (RingBuffer_Clear zero r)) = length (rb_elements r)"
    and "rb_head (RingBuffer_Clear zero r) = 0" and "rb_tail (RingBuffer_Clear zero r) = 0"
    by (simp_all add: RingBuffer_Clear_def Let_def)
  with assms show "rb_inv (RingBuffer_Clear zero r)"
    unfolding rb_inv_def RINGBUFFER_MIN_def by linarith
  show "rb_list (RingBuffer_Clear zero r) = []"
    by (simp add: rb_list_def rb_slots_def RingBuffer_Clear_def Let_def)
  show "rb_clean zero r \<Longrightarrow> rb_clean zero (RingBuffer_Clear zero r)"
    by (auto simp: rb_clean_def rb_slots_def RingBuffer_Clear_def Let_def clear_loop_nth)
qed

lemma discard_loop_spec:
  assumes "rb_inv r" and "n \<le> RingBuffer_Len r"
  shows "rb_inv (discard_loop zero n r) \<and> rb_list (discard_loop zero n r) = drop n (rb_list r)
    \<and> (rb_clean zero r \<longrightarrow> rb_clean zero (discard_loop zero n r))"
  using assms
proof (induction n arbitrary: r)
  case (Suc n)
  then have ne: "RingBuffer_Len r \<noteq> 0" by simp
  note d = drop_head_spec [OF Suc.prems(1) ne, of zero]
  have "n \<le> RingBuffer_Len (drop_head zero r)"
    using Suc.prems by (simp only: drop_head_Len [OF Suc.prems(1) ne])
  from Suc.IH [OF d(1) this] d show ?case by (simp add: drop_Suc)
qed simp

lemma RingBuffer_Discard_spec:
  assumes "rb_inv r"
  shows "rb_inv (snd (RingBuffer_Discard zero n r))"
    and "rb_list (snd (RingBuffer_Discard zero n r)) = drop (nat n) (rb_list r)"
    and "fst (RingBuffer_Discard zero n r) = min n (int (RingBuffer_Len r))"
    and "rb_clean zero r \<Longrightarrow> rb_clean zero (snd (RingBuffer_Discard zero n r))"
proof -
  define n' where "n' = min n (int (RingBuffer_Len r))"
  have le: "nat n' \<le> RingBuffer_Len r" and d: "drop (nat n') (rb_list r) = drop (nat n) (rb_list r)"
    by (cases "n \<le> int (RingBuffer_Len r)"; simp add: n'_def)+
  have all: "n' = int (RingBuffer_Len r) \<Longrightarrow> drop (nat n) (rb_list r) = []"
    by (auto simp: n'_def)
  have D: "RingBuffer_Discard zero n r =
      (if n' = int (RingBuffer_Len r) then (n', RingBuffer_Clear zero r)
       else (n', discard_loop zero (nat n') r))"
    by (simp add: RingBuffer_Discard_def n'_def Let_def)
  show "rb_inv (snd (RingBuffer_Discard zero n r))"
    unfolding D using RingBuffer_Clear_spec(1) discard_loop_spec [OF assms le, of zero] assms by auto
  show "rb_list (snd (RingBuffer_Discard zero n r)) = drop (nat n) (rb_list r)"
    unfolding D using RingBuffer_Clear_spec(2) discard_loop_spec [OF assms le, of zero] assms d all by auto
  show "fst (RingBuffer_Discard zero n r) = min n (int (RingBuffer_Len r))"
    unfolding D by (simp add: n'_def)
  show "rb_clean zero r \<Longrightarrow> rb_clean zero (snd (RingBuffer_Discard zero n r))"
    unfolding D using RingBuffer_Clear_spec(3) discard_loop_spec [OF assms le, of zero] assms by auto
qed


section \<open>Iteration\<close>

lemma slots_iter_spec:
  assumes "distinct is" and "\<forall>i \<in> set is. i < length es"
    and "slots_iter fn is es s = (es', s', c)"
  shows "list_iter fn (map ((!) es) is) s = (map ((!) es') is, s', c)"
    and "length es' = length es" and "\<forall>j. j \<notin> set is \<longrightarrow> es' ! j = es ! j"
proof -
  have "list_iter fn (map ((!) es) is) s = (map ((!) es') is, s', c)
      \<and> length es' = length es \<and> (\<forall>j. j \<notin> set is \<longrightarrow> es' ! j = es ! j)"
    using assms
  proof (induction "is" arbitrary: es s)
    case (Cons i "is")
    obtain x t d where f: "fn (es ! i) s = (x, t, d)" by (metis prod_cases3)
    have upd: "map ((!) (es[i := x])) is = map ((!) es) is"
      using Cons.prems(1) by (simp add: map_nth_update_notin)
    show ?case
    proof (cases d)
      case True
      then have rec: "slots_iter fn is (es[i := x]) t = (es', s', c)"
        using Cons.prems(3) f by simp
      have IH: "list_iter fn (map ((!) es) is) t = (map ((!) es') is, s', c)"
        "length es' = length es" "\<forall>j. j \<notin> set is \<longrightarrow> es' ! j = es[i := x] ! j"
        using Cons.IH [OF _ _ rec] Cons.prems(1,2) upd by auto
      show ?thesis using IH f True Cons.prems(1,2) by auto
    next
      case False
      then have "es' = es[i := x]" "s' = t" "\<not> c" using Cons.prems(3) f by auto
      then show ?thesis using f False Cons.prems(1,2) upd by auto
    qed
  qed simp
  then show "list_iter fn (map ((!) es) is) s = (map ((!) es') is, s', c)"
    and "length es' = length es" and "\<forall>j. j \<notin> set is \<longrightarrow> es' ! j = es ! j" by auto
qed

lemma slots_iter_append:
  "slots_iter fn (is @ js) es s =
     (let (es', s', c) = slots_iter fn is es s
      in if c then slots_iter fn js es' s' else (es', s', False))"
  by (induction "is" arbitrary: es s) (auto simp: Let_def split: prod.splits)

lemma RingBuffer_ForEach_slots:
  assumes "rb_inv r"
  shows "RingBuffer_ForEach fn r s =
     (let (es, s', _) = slots_iter fn (rb_slots r) (rb_elements r) s in (r\<lparr>rb_elements := es\<rparr>, s'))"
  using assms
  by (auto simp: RingBuffer_ForEach_def rb_slots_def RingBuffer_Len_def rb_inv_def
        slots_iter_append Let_def split: prod.splits)

lemma RingBuffer_ForEachReverse_slots:
  assumes "rb_inv r"
  shows "RingBuffer_ForEachReverse fn r s =
     (let (es, s', _) = slots_iter fn (rev (rb_slots r)) (rb_elements r) s
      in (r\<lparr>rb_elements := es\<rparr>, s'))"
  using assms
  by (auto simp: RingBuffer_ForEachReverse_def rb_slots_def RingBuffer_Len_def rb_inv_def
        slots_iter_append Let_def split: prod.splits)

lemma rb_update_elements:
  assumes "rb_inv r" and "length es = length (rb_elements r)"
  shows "rb_inv (r\<lparr>rb_elements := es\<rparr>)" and "rb_slots (r\<lparr>rb_elements := es\<rparr>) = rb_slots r"
    and "rb_list (r\<lparr>rb_elements := es\<rparr>) = map ((!) es) (rb_slots r)"
  using assms by (simp_all add: rb_inv_def rb_slots_def rb_list_def)

lemma RingBuffer_ForEach_spec:
  assumes "rb_inv r" and "RingBuffer_ForEach fn r s = (r', s')"
  shows "rb_inv r'" and "\<exists>c. list_iter fn (rb_list r) s = (rb_list r', s', c)"
    and "rb_clean zero r \<Longrightarrow> rb_clean zero r'"
proof -
  obtain es c where it: "slots_iter fn (rb_slots r) (rb_elements r) s = (es, s', c)"
    and r': "r' = r\<lparr>rb_elements := es\<rparr>"
    using assms by (auto simp: RingBuffer_ForEach_slots Let_def split: prod.splits)
  have sp: "list_iter fn (map ((!) (rb_elements r)) (rb_slots r)) s = (map ((!) es) (rb_slots r), s', c)"
    "length es = length (rb_elements r)"
    "\<forall>j. j \<notin> set (rb_slots r) \<longrightarrow> es ! j = rb_elements r ! j"
    using slots_iter_spec [OF distinct_rb_slots _ it] rb_slots_less [OF assms(1)] by auto
  show "rb_inv r'" and "\<exists>c. list_iter fn (rb_list r) s = (rb_list r', s', c)"
    using rb_update_elements [OF assms(1) sp(2)] sp(1) unfolding r' rb_list_def [of r] by auto
  show "rb_clean zero r \<Longrightarrow> rb_clean zero r'"
    using rb_update_elements(2) [OF assms(1) sp(2)] sp(2,3) unfolding r' rb_clean_def by auto
qed

lemma RingBuffer_ForEachReverse_spec:
  assumes "rb_inv r" and "RingBuffer_ForEachReverse fn r s = (r', s')"
  shows "rb_inv r'" and "\<exists>c. list_iter fn (rev (rb_list r)) s = (rev (rb_list r'), s', c)"
    and "rb_clean zero r \<Longrightarrow> rb_clean zero r'"
proof -
  obtain es c where it: "slots_iter fn (rev (rb_slots r)) (rb_elements r) s = (es, s', c)"
    and r': "r' = r\<lparr>rb_elements := es\<rparr>"
    using assms by (auto simp: RingBuffer_ForEachReverse_slots Let_def split: prod.splits)
  have sp: "list_iter fn (map ((!) (rb_elements r)) (rev (rb_slots r))) s
      = (map ((!) es) (rev (rb_slots r)), s', c)"
    "length es = length (rb_elements r)"
    "\<forall>j. j \<notin> set (rb_slots r) \<longrightarrow> es ! j = rb_elements r ! j"
    using slots_iter_spec [OF _ _ it] distinct_rb_slots [of r] rb_slots_less [OF assms(1)] by auto
  show "rb_inv r'" and "\<exists>c. list_iter fn (rev (rb_list r)) s = (rev (rb_list r'), s', c)"
    using rb_update_elements [OF assms(1) sp(2)] sp(1) unfolding r' rb_list_def [of r]
    by (auto simp: rev_map)
  show "rb_clean zero r \<Longrightarrow> rb_clean zero r'"
    using rb_update_elements(2) [OF assms(1) sp(2)] sp(2,3) unfolding r' rb_clean_def by auto
qed



section \<open>The queue interface\<close>

text \<open>
  What a client of the ring buffer relies on: a FIFO queue with a peek, a bulk discard from
  the front, and a length, specified by the list \<open>items\<close> of what it holds.
\<close>

locale fifo_queue =
  fixes push :: "'a \<Rightarrow> 'q \<Rightarrow> 'q"
    and pop :: "'q \<Rightarrow> ('a \<times> bool) \<times> 'q"
    and peek :: "'q \<Rightarrow> 'a option"
    and discard :: "int \<Rightarrow> 'q \<Rightarrow> int \<times> 'q"
    and len :: "'q \<Rightarrow> nat"
    and items :: "'q \<Rightarrow> 'a list"
    and ok :: "'q \<Rightarrow> bool"
  assumes ok_push: "ok q \<Longrightarrow> ok (push x q)"
    and items_push: "ok q \<Longrightarrow> items (push x q) = items q @ [x]"
    and pop_Nil: "ok q \<Longrightarrow> items q = [] \<Longrightarrow> snd (fst (pop q)) = False \<and> snd (pop q) = q"
    and pop_Cons: "ok q \<Longrightarrow> items q = x # xs \<Longrightarrow>
          fst (pop q) = (x, True) \<and> ok (snd (pop q)) \<and> items (snd (pop q)) = xs"
    and peek_items: "ok q \<Longrightarrow> peek q = (case items q of [] \<Rightarrow> None | x # _ \<Rightarrow> Some x)"
    and ok_discard: "ok q \<Longrightarrow> ok (snd (discard n q))"
    and items_discard: "ok q \<Longrightarrow> items (snd (discard n q)) = drop (nat n) (items q)"
    and len_items: "ok q \<Longrightarrow> len q = length (items q)"
begin

lemma push_all:
  "ok q \<Longrightarrow> ok (fold push xs q) \<and> items (fold push xs q) = items q @ xs"
  by (induction xs arbitrary: q) (auto simp: ok_push items_push)

lemma pop_ok: "ok q \<Longrightarrow> ok (snd (pop q))"
  by (cases "items q") (auto simp: pop_Nil pop_Cons)

lemma pop_flag: "ok q \<Longrightarrow> snd (fst (pop q)) \<longleftrightarrow> items q \<noteq> []"
  by (cases "items q") (auto simp: pop_Nil pop_Cons)

lemma pop_value: "ok q \<Longrightarrow> items q \<noteq> [] \<Longrightarrow> items q = fst (fst (pop q)) # items (snd (pop q))"
  by (cases "items q") (auto simp: pop_Cons)

lemma push_pop_empty:
  "ok q \<Longrightarrow> items q = [] \<Longrightarrow> fst (pop (push x q)) = (x, True) \<and> items (snd (pop (push x q))) = []"
  using pop_Cons [of "push x q" x "[]"] by (simp add: ok_push items_push)

end

text \<open>The iterator of the queue: the callback sees the items in order and may overwrite them.\<close>

locale fifo_iter = fifo_queue push pop peek discard len items ok
  for push :: "'a \<Rightarrow> 'q \<Rightarrow> 'q" and pop peek discard len items ok +
  fixes foreach :: "('a, 's) yield \<Rightarrow> 'q \<Rightarrow> 's \<Rightarrow> 'q \<times> 's"
  assumes ok_foreach: "ok q \<Longrightarrow> ok (fst (foreach f q s))"
    and items_foreach: "ok q \<Longrightarrow> items (fst (foreach f q s)) = fst (list_iter f (items q) s)"
    and state_foreach: "ok q \<Longrightarrow> snd (foreach f q s) = fst (snd (list_iter f (items q) s))"
begin

lemma len_foreach: "ok q \<Longrightarrow> len (fst (foreach f q s)) = len q"
  by (simp add: len_items ok_foreach items_foreach)

lemma list_iter_readonly:
  "(\<And>x s. fst (f x s) = x) \<Longrightarrow> fst (list_iter f xs s) = xs"
proof (induction xs arbitrary: s)
  case (Cons x xs)
  then show ?case by (auto simp: Let_def case_prod_beta)
qed simp

lemma items_foreach_readonly:
  "ok q \<Longrightarrow> (\<And>x s. fst (f x s) = x) \<Longrightarrow> items (fst (foreach f q s)) = items q"
  by (simp add: items_foreach list_iter_readonly)

end

interpretation ring: fifo_queue "RingBuffer_Push zero" "RingBuffer_Pop zero" RingBuffer_Peek
    "RingBuffer_Discard zero" RingBuffer_Len rb_list rb_inv
  for zero :: 'a
proof (standard, goal_cases)
  case (3 q)
  then show ?case by (simp add: RingBuffer_Pop_empty)
next
  case (4 q x xs)
  then show ?case using RingBuffer_Pop_Cons [of q x xs zero] by auto
next
  case (5 q)
  then show ?case by (cases "rb_list q") (auto simp: RingBuffer_Peek_eq)
qed (auto simp: RingBuffer_Push_spec RingBuffer_Discard_spec)

interpretation ring_each: fifo_iter "RingBuffer_Push zero" "RingBuffer_Pop zero" RingBuffer_Peek
    "RingBuffer_Discard zero" RingBuffer_Len rb_list rb_inv RingBuffer_ForEach
  for zero :: 'a
proof (standard, goal_cases)
  case (1 q f s)
  then show ?case using RingBuffer_ForEach_spec(1) [OF 1] by (metis prod.collapse)
next
  case (2 q f s)
  then show ?case using RingBuffer_ForEach_spec(2) [OF 2] by (metis fst_conv prod.collapse)
next
  case (3 q f s)
  then show ?case using RingBuffer_ForEach_spec(2) [OF 3] by (metis fst_conv prod.collapse snd_conv)
qed


section \<open>Properties\<close>



text \<open>Both iterators visit exactly the live elements, in FIFO order (\<open>ForEach\<close>) or in reverse
  (\<open>ForEachReverse\<close>), stop where the callback says so, write back what it stored through the
  pointer, and touch nothing else of the ring.\<close>

theorem ring_iterators_visit_in_order:
  assumes "rb_inv r"
  shows "(let (r', s') = RingBuffer_ForEach fn r s
          in rb_inv r' \<and> (rb_list r', s') = (fst (list_iter fn (rb_list r) s), fst (snd (list_iter fn (rb_list r) s)))
             \<and> rb_head r' = rb_head r \<and> rb_tail r' = rb_tail r)
    \<and> (let (r', s') = RingBuffer_ForEachReverse fn r s
       in rb_inv r' \<and> (rev (rb_list r'), s')
            = (fst (list_iter fn (rev (rb_list r)) s), fst (snd (list_iter fn (rev (rb_list r)) s)))
          \<and> rb_head r' = rb_head r \<and> rb_tail r' = rb_tail r)"
proof -
  obtain r1 s1 where f: "RingBuffer_ForEach fn r s = (r1, s1)" by fastforce
  obtain r2 s2 where b: "RingBuffer_ForEachReverse fn r s = (r2, s2)" by fastforce
  have "rb_head r1 = rb_head r \<and> rb_tail r1 = rb_tail r \<and> rb_head r2 = rb_head r \<and> rb_tail r2 = rb_tail r"
    using f b assms
    by (auto simp: RingBuffer_ForEach_slots RingBuffer_ForEachReverse_slots Let_def split: prod.splits)
  then show ?thesis
    using RingBuffer_ForEach_spec [OF assms f] RingBuffer_ForEachReverse_spec [OF assms b] f b by auto
qed

theorem ring_iterators_visit_in_order_witness:
  "fst (RingBuffer_ForEachReverse (\<lambda>x s. (x + 1, s, s)) (RingBuffer_Push 0 5 (NewRingBuffer (0::nat) 3)) True)
   = fst (RingBuffer_ForEach (\<lambda>x s. (x + 1, s, s)) (RingBuffer_Push 0 5 (NewRingBuffer (0::nat) 3)) True)
   \<and> rb_list (fst (RingBuffer_ForEach (\<lambda>x s. (x + 1, s, s)) (RingBuffer_Push 0 5 (NewRingBuffer (0::nat) 3)) True)) = [6]"
proof -
  let ?r = "RingBuffer_Push 0 5 (NewRingBuffer (0::nat) 3)"
  have i: "rb_inv ?r" by (simp add: RingBuffer_Push_spec NewRingBuffer_inv)
  have l: "rb_list ?r = [5]" by (simp add: RingBuffer_Push_spec NewRingBuffer_inv)
  have "rb_list (fst (RingBuffer_ForEach (\<lambda>x s. (x + 1, s, s)) ?r True)) = [6]"
    using ring_iterators_visit_in_order [OF i, of "\<lambda>x s. (x + 1, s, s)" True] l
    by (auto simp: Let_def split: prod.splits)
  then show ?thesis by code_simp
qed

end
