(* ===== verification/Go_Heap.thy ===== *)
theory Go_Heap
  imports Prelude
begin

text \<open>
  The binary heap of Go's standard library (\<open>container/heap\<close>: \<open>Init\<close>, \<open>Push\<close>, \<open>Pop\<close> and their loops
  \<open>up\<close> and \<open>down\<close>), on a list with a strict comparison \<open>lt\<close>, as the receive buffer of KCP uses
  it. The heap order is stated with \<open>lt\<close> only; that the loops restore it is proved under the
  assumption that \<open>lt\<close> agrees with a numeric key on the elements of the heap, which is all a
  wrapped comparison of sequence numbers can promise.
\<close>

section \<open>The loops of container/heap\<close>

definition swap :: "nat \<Rightarrow> nat \<Rightarrow> 'a list \<Rightarrow> 'a list" where
  "swap i j xs = xs[i := xs ! j, j := xs ! i]"

lemma length_swap [simp]: "length (swap i j xs) = length xs"
  by (simp add: swap_def)

text \<open>The index arithmetic \<open>(j - 1) / 2\<close> is Go's truncated division: for \<open>j = 0\<close> it gives \<open>0\<close>.\<close>

function heap_up :: "('a \<Rightarrow> 'a \<Rightarrow> bool) \<Rightarrow> nat \<Rightarrow> 'a list \<Rightarrow> 'a list" where
  "heap_up lt j xs =
     (let i = (j - 1) div 2
      in if i = j \<or> \<not> lt (xs ! j) (xs ! i) then xs else heap_up lt i (swap i j xs))"
  by pat_completeness auto
termination
  by (relation "measure (\<lambda>(lt, j, xs). j)") auto

function heap_down :: "('a \<Rightarrow> 'a \<Rightarrow> bool) \<Rightarrow> nat \<Rightarrow> nat \<Rightarrow> 'a list \<Rightarrow> 'a list" where
  "heap_down lt i n xs =
     (let j1 = 2 * i + 1
      in if j1 \<ge> n then xs
         else (let j2 = j1 + 1;
                   j = (if j2 < n \<and> lt (xs ! j2) (xs ! j1) then j2 else j1)
               in if \<not> lt (xs ! j) (xs ! i) then xs else heap_down lt j n (swap i j xs)))"
  by pat_completeness auto
termination
  by (relation "measure (\<lambda>(lt, i, n, xs). n - i)") auto

declare heap_up.simps [simp del] heap_down.simps [simp del]

lemma length_heap_up [simp]: "length (heap_up lt j xs) = length xs"
  by (induction lt j xs rule: heap_up.induct) (simp add: heap_up.simps Let_def)

lemma length_heap_down [simp]: "length (heap_down lt i n xs) = length xs"
  by (induction lt i n xs rule: heap_down.induct) (simp add: heap_down.simps Let_def)

lemma mset_swap: "i < length xs \<Longrightarrow> j < length xs \<Longrightarrow> mset (swap i j xs) = mset xs"
  by (simp add: swap_def mset_swap)

lemma mset_heap_up: "j < length xs \<Longrightarrow> mset (heap_up lt j xs) = mset xs"
proof (induction lt j xs rule: heap_up.induct)
  case (1 lt j xs)
  then show ?case by (subst heap_up.simps) (auto simp: Let_def Go_Heap.mset_swap)
qed

lemma mset_heap_down: "i < n \<Longrightarrow> n \<le> length xs \<Longrightarrow> mset (heap_down lt i n xs) = mset xs"
proof (induction lt i n xs rule: heap_down.induct)
  case (1 lt i n xs)
  then show ?case by (subst heap_down.simps) (auto simp: Let_def Go_Heap.mset_swap)
qed

lemma heap_down_beyond: "n \<le> k \<Longrightarrow> i < n \<Longrightarrow> heap_down lt i n xs ! k = xs ! k"
proof (induction lt i n xs rule: heap_down.induct)
  case (1 lt i n xs)
  then show ?case by (subst heap_down.simps) (auto simp: Let_def swap_def)
qed


section \<open>Heap order\<close>

text \<open>No element is less than its parent, among the first \<open>n\<close> elements.\<close>

definition heap_order :: "('a \<Rightarrow> 'a \<Rightarrow> bool) \<Rightarrow> nat \<Rightarrow> 'a list \<Rightarrow> bool" where
  "heap_order lt n xs \<longleftrightarrow> (\<forall>k < n. 0 < k \<longrightarrow> \<not> lt (xs ! k) (xs ! ((k - 1) div 2)))"

text \<open>The order with one element \<open>j\<close> that may be too small for its parent (during \<open>up\<close>).\<close>

definition up_inv :: "('a \<Rightarrow> nat) \<Rightarrow> nat \<Rightarrow> nat \<Rightarrow> 'a list \<Rightarrow> bool" where
  "up_inv key n j xs \<longleftrightarrow>
     (\<forall>k < n. 0 < k \<longrightarrow> k \<noteq> j \<longrightarrow> key (xs ! ((k - 1) div 2)) \<le> key (xs ! k))
   \<and> (\<forall>k < n. 0 < k \<longrightarrow> 0 < j \<longrightarrow> (k - 1) div 2 = j \<longrightarrow> key (xs ! ((j - 1) div 2)) \<le> key (xs ! k))"

text \<open>The order with one element \<open>i\<close> that may be too large for its children (during \<open>down\<close>).\<close>

definition down_inv :: "('a \<Rightarrow> nat) \<Rightarrow> nat \<Rightarrow> nat \<Rightarrow> 'a list \<Rightarrow> bool" where
  "down_inv key n i xs \<longleftrightarrow>
     (\<forall>k < n. 0 < k \<longrightarrow> (k - 1) div 2 \<noteq> i \<longrightarrow> key (xs ! ((k - 1) div 2)) \<le> key (xs ! k))
   \<and> (\<forall>k < n. 0 < k \<longrightarrow> 0 < i \<longrightarrow> (k - 1) div 2 = i \<longrightarrow> key (xs ! ((i - 1) div 2)) \<le> key (xs ! k))"

definition key_order :: "('a \<Rightarrow> nat) \<Rightarrow> nat \<Rightarrow> 'a list \<Rightarrow> bool" where
  "key_order key n xs \<longleftrightarrow> (\<forall>k < n. 0 < k \<longrightarrow> key (xs ! ((k - 1) div 2)) \<le> key (xs ! k))"

lemma swap_nth:
  "i < length xs \<Longrightarrow> j < length xs \<Longrightarrow>
     swap i j xs ! k = (if k = i then xs ! j else if k = j then xs ! i else xs ! k)"
  by (auto simp: swap_def nth_list_update)

lemma set_swap [simp]: "i < length xs \<Longrightarrow> j < length xs \<Longrightarrow> set (swap i j xs) = set xs"
  by (metis Go_Heap.mset_swap set_mset_mset)

text \<open>Where \<open>lt\<close> is the order of a key, the loops restore the order of the keys.\<close>

locale keyed_less =
  fixes lt :: "'a \<Rightarrow> 'a \<Rightarrow> bool" and key :: "'a \<Rightarrow> nat" and S :: "'a set"
  assumes less_key: "x \<in> S \<Longrightarrow> y \<in> S \<Longrightarrow> lt x y \<longleftrightarrow> key x < key y"
begin

lemma heap_order_key:
  assumes "set xs \<subseteq> S" and "n \<le> length xs"
  shows "heap_order lt n xs \<longleftrightarrow> key_order key n xs"
proof -
  have "lt (xs ! k) (xs ! ((k - 1) div 2)) \<longleftrightarrow> key (xs ! k) < key (xs ! ((k - 1) div 2))"
    if "k < n" for k
    using assms that by (intro less_key) (auto intro!: subsetD [OF assms(1)] nth_mem)
  then show ?thesis by (auto simp: heap_order_def key_order_def not_less)
qed

lemma up_step:
  assumes "up_inv key n j xs" and "n = length xs" and "j < n" and "0 < j"
    and "key (xs ! j) < key (xs ! ((j - 1) div 2))"
  shows "up_inv key n ((j - 1) div 2) (swap ((j - 1) div 2) j xs)"
proof -
  define i where "i = (j - 1) div 2"
  have ij: "i < j" "i < length xs" "j < length xs" using assms by (auto simp: i_def)
  have sw: "swap i j xs ! k = (if k = i then xs ! j else if k = j then xs ! i else xs ! k)" for k
    using swap_nth [OF ij(2,3)] .
  have A: "key (xs ! ((k - 1) div 2)) \<le> key (xs ! k)" if "k < n" "0 < k" "k \<noteq> j" for k
    using assms(1) that by (simp add: up_inv_def)
  have B: "key (xs ! i) \<le> key (xs ! k)" if "k < n" "0 < k" "(k - 1) div 2 = j" for k
    using assms(1,4) that by (simp add: up_inv_def i_def)
  have lt: "key (xs ! j) < key (xs ! i)" using assms(5) by (simp add: i_def)
  show ?thesis
    unfolding up_inv_def i_def [symmetric] sw
  proof (intro conjI allI impI)
    fix k assume k: "k < n" "0 < k" "k \<noteq> i"
    have "k = j \<Longrightarrow> (k - 1) div 2 = i" by (simp add: i_def)
    then show "key (if (k - 1) div 2 = i then xs ! j else if (k - 1) div 2 = j then xs ! i else xs ! ((k - 1) div 2))
        \<le> key (if k = i then xs ! j else if k = j then xs ! i else xs ! k)"
      using A [of k] B [of k] lt k by (cases "k = j") (auto intro: order.strict_implies_order)
  next
    fix k assume k: "k < n" "0 < k" "0 < i" "(k - 1) div 2 = i"
    have par: "(i - 1) div 2 < i" using k(3) by auto
    have "key (xs ! ((i - 1) div 2)) \<le> key (xs ! i)" using A [of i] k(3) ij assms(2) by auto
    moreover have "k \<noteq> j \<Longrightarrow> key (xs ! i) \<le> key (xs ! k)" using A [of k] k by auto
    ultimately show "key (if (i - 1) div 2 = i then xs ! j else if (i - 1) div 2 = j then xs ! i else xs ! ((i - 1) div 2))
        \<le> key (if k = i then xs ! j else if k = j then xs ! i else xs ! k)"
      using par ij k by auto
  qed
qed

lemma heap_up_order:
  "set xs \<subseteq> S \<Longrightarrow> n = length xs \<Longrightarrow> j < n \<Longrightarrow> up_inv key n j xs \<Longrightarrow>
     key_order key n (heap_up lt j xs)"
proof (induction j arbitrary: xs rule: less_induct)
  case (less j)
  define i where "i = (j - 1) div 2"
  have S: "xs ! j \<in> S" "xs ! i \<in> S"
    using less.prems by (auto simp: i_def intro!: subsetD [OF less.prems(1)] nth_mem)
  show ?case
  proof (cases "i = j \<or> \<not> lt (xs ! j) (xs ! i)")
    case True
    then have "heap_up lt j xs = xs" by (subst heap_up.simps) (simp add: i_def Let_def)
    moreover have "j \<noteq> 0 \<Longrightarrow> key (xs ! i) \<le> key (xs ! j)"
      using True less_key S by (auto simp: i_def not_less)
    ultimately show ?thesis
      using less.prems(4) by (auto simp: key_order_def up_inv_def i_def)
  next
    case False
    then have eq: "heap_up lt j xs = heap_up lt i (swap i j xs)"
      by (subst heap_up.simps) (simp add: i_def Let_def)
    have pos: "0 < j" and ij: "i < j" using False by (auto simp: i_def)
    have "up_inv key n i (swap i j xs)"
      unfolding i_def
      by (rule up_step) (use less.prems False S pos less_key in \<open>auto simp: i_def\<close>)
    moreover have "set (swap i j xs) \<subseteq> S" using less.prems ij by simp
    ultimately show ?thesis
      using less.IH [OF ij, of "swap i j xs"] less.prems ij eq by simp
  qed
qed

lemma down_step:
  assumes "down_inv key n i xs" and "n \<le> length xs" and "j < n" and "(j - 1) div 2 = i" and "0 < j"
    and "key (xs ! j) < key (xs ! i)"
    and "\<And>k. k < n \<Longrightarrow> 0 < k \<Longrightarrow> (k - 1) div 2 = i \<Longrightarrow> key (xs ! j) \<le> key (xs ! k)"
  shows "down_inv key n j (swap i j xs)"
proof -
  have ij: "i < j" "i < length xs" "j < length xs" using assms by auto
  have sw: "swap i j xs ! k = (if k = i then xs ! j else if k = j then xs ! i else xs ! k)" for k
    using swap_nth [OF ij(2,3)] .
  have A: "key (xs ! ((k - 1) div 2)) \<le> key (xs ! k)" if "k < n" "0 < k" "(k - 1) div 2 \<noteq> i" for k
    using assms(1) that by (simp add: down_inv_def)
  have B: "key (xs ! ((i - 1) div 2)) \<le> key (xs ! j)" if "0 < i"
    using assms(1,3,4,5) that by (simp add: down_inv_def)
  show ?thesis
    unfolding down_inv_def sw
  proof (intro conjI allI impI)
    fix k assume k: "k < n" "0 < k" "(k - 1) div 2 \<noteq> j"
    have p: "k = i \<Longrightarrow> (k - 1) div 2 < i" using k by auto
    show "key (if (k - 1) div 2 = i then xs ! j else if (k - 1) div 2 = j then xs ! i else xs ! ((k - 1) div 2))
        \<le> key (if k = i then xs ! j else if k = j then xs ! i else xs ! k)"
      using A [of k] B assms(7) [of k] assms(4,6) k p by (cases "k = i"; cases "k = j") auto
  next
    fix k assume k: "k < n" "0 < k" "0 < j" "(k - 1) div 2 = j"
    then have "k \<noteq> i" "k \<noteq> j" "j \<noteq> i" using ij by auto
    then show "key (if (j - 1) div 2 = i then xs ! j else if (j - 1) div 2 = j then xs ! i else xs ! ((j - 1) div 2))
        \<le> key (if k = i then xs ! j else if k = j then xs ! i else xs ! k)"
      using A [of k] k assms(4) by auto
  qed
qed

lemma heap_down_order:
  "set xs \<subseteq> S \<Longrightarrow> n \<le> length xs \<Longrightarrow> i < n \<Longrightarrow> down_inv key n i xs \<Longrightarrow>
     key_order key n (heap_down lt i n xs)"
proof (induction "n - i" arbitrary: i xs rule: less_induct)
  case less
  define j1 where "j1 = 2 * i + 1"
  define j where "j = (if j1 + 1 < n \<and> lt (xs ! (j1 + 1)) (xs ! j1) then j1 + 1 else j1)"
  have S: "xs ! k \<in> S" if "k < n" for k
    using less.prems that by (auto intro!: subsetD [OF less.prems(1)] nth_mem)
  have child: "(k - 1) div 2 = i \<longleftrightarrow> k = j1 \<or> k = j1 + 1" if "0 < k" for k
    using that by (auto simp: j1_def)
  have unf: "heap_down lt i n xs =
      (if j1 \<ge> n then xs else if \<not> lt (xs ! j) (xs ! i) then xs else heap_down lt j n (swap i j xs))"
    by (subst heap_down.simps) (simp only: Let_def j1_def j_def)
  show ?case
  proof (cases "n \<le> j1")
    case True
    then have "heap_down lt i n xs = xs" by (simp add: unf)
    then show ?thesis
      using less.prems(4) True child by (auto simp: key_order_def down_inv_def)
  next
    case False
    then have jn: "j < n" and jc: "(j - 1) div 2 = i" "0 < j" "i < j" by (auto simp: j_def j1_def)
    have min: "key (xs ! j) \<le> key (xs ! k)" if "k < n" "0 < k" "(k - 1) div 2 = i" for k
      using that child [of k] False less_key [OF S S, of "j1 + 1" j1]
      by (auto simp: j_def split: if_splits)
    show ?thesis
    proof (cases "lt (xs ! j) (xs ! i)")
      case True
      then have eq: "heap_down lt i n xs = heap_down lt j n (swap i j xs)"
        using False by (simp add: unf)
      have "down_inv key n j (swap i j xs)"
        using True less.prems jn jc min less_key [OF S S, of j i] by (intro down_step) auto
      moreover have "set (swap i j xs) \<subseteq> S" using less.prems jn jc by simp
      moreover have "n - j < n - i" using jc jn by simp
      ultimately show ?thesis
        using less.hyps [of j "swap i j xs"] less.prems jn eq by simp
    next
      case False2: False
      then have "heap_down lt i n xs = xs"
        using False by (simp add: unf)
      moreover have "key (xs ! i) \<le> key (xs ! j)"
        using False2 less_key [OF S S, of j i] jn less.prems(3) by auto
      ultimately show ?thesis
        using less.prems(4) min unfolding key_order_def down_inv_def by (metis le_trans)
    qed
  qed
qed

lemma key_order_root_min:
  "key_order key n xs \<Longrightarrow> k < n \<Longrightarrow> key (xs ! 0) \<le> key (xs ! k)"
proof (induction k rule: less_induct)
  case (less k)
  show ?case
  proof (cases "k = 0")
    case False
    then have "(k - 1) div 2 < k" by auto
    moreover have "key (xs ! ((k - 1) div 2)) \<le> key (xs ! k)"
      using less.prems False by (simp add: key_order_def)
    ultimately show ?thesis using less.IH [of "(k - 1) div 2"] less.prems by auto
  qed simp
qed

end

end
