(* ===== verification/Kcp_Codec.thy ===== *)
theory Kcp_Codec
  imports Prelude
begin

unbundle bit_operations_syntax

text \<open>
  The wire format of KCP, from \<open>src/kcp/ikcp.go\<close>: the constants, the little-endian field
  codecs, the segment and its 24-byte header, and the wrapped comparison of sequence numbers.

  An encoder writes at the start of a slice and returns the rest of it: the slice is given by
  its length, and the encoder returns the bytes it stores and the length of what is left, or
  panics when the slice is too short. A decoder returns the value and the rest of the input.
\<close>

section \<open>Constants\<close>

definition IKCP_RTO_NDL :: u32 where "IKCP_RTO_NDL = 30"
definition IKCP_RTO_MIN :: u32 where "IKCP_RTO_MIN = 100"
definition IKCP_RTO_DEF :: u32 where "IKCP_RTO_DEF = 200"
definition IKCP_RTO_MAX :: u32 where "IKCP_RTO_MAX = 60000"
definition IKCP_CMD_PUSH :: u8 where "IKCP_CMD_PUSH = 81"
definition IKCP_CMD_ACK :: u8 where "IKCP_CMD_ACK = 82"
definition IKCP_CMD_WASK :: u8 where "IKCP_CMD_WASK = 83"
definition IKCP_CMD_WINS :: u8 where "IKCP_CMD_WINS = 84"
definition IKCP_ASK_SEND :: u32 where "IKCP_ASK_SEND = 1"
definition IKCP_ASK_TELL :: u32 where "IKCP_ASK_TELL = 2"
definition IKCP_WND_SND :: u32 where "IKCP_WND_SND = 32"
definition IKCP_WND_RCV :: u32 where "IKCP_WND_RCV = 32"
definition IKCP_MTU_DEF :: u32 where "IKCP_MTU_DEF = 1400"
definition IKCP_INTERVAL :: u32 where "IKCP_INTERVAL = 100"
definition IKCP_OVERHEAD :: nat where "IKCP_OVERHEAD = 24"
definition IKCP_DEADLINK :: u32 where "IKCP_DEADLINK = 20"
definition IKCP_THRESH_INIT :: u32 where "IKCP_THRESH_INIT = 2"
definition IKCP_THRESH_MIN :: u32 where "IKCP_THRESH_MIN = 2"
definition IKCP_PROBE_INIT :: u32 where "IKCP_PROBE_INIT = 500"
definition IKCP_PROBE_LIMIT :: u32 where "IKCP_PROBE_LIMIT = 120000"

lemmas ikcp_consts =
  IKCP_RTO_NDL_def IKCP_RTO_MIN_def IKCP_RTO_DEF_def IKCP_RTO_MAX_def IKCP_CMD_PUSH_def
  IKCP_CMD_ACK_def IKCP_CMD_WASK_def IKCP_CMD_WINS_def IKCP_ASK_SEND_def IKCP_ASK_TELL_def
  IKCP_WND_SND_def IKCP_WND_RCV_def IKCP_MTU_DEF_def IKCP_INTERVAL_def IKCP_OVERHEAD_def
  IKCP_DEADLINK_def IKCP_THRESH_INIT_def IKCP_THRESH_MIN_def IKCP_PROBE_INIT_def
  IKCP_PROBE_LIMIT_def

datatype PacketType = IKCP_PACKET_REGULAR | IKCP_PACKET_FEC

datatype FlushType = IKCP_FLUSH_ACKONLY | IKCP_FLUSH_FULL


section \<open>Field codecs\<close>

definition le16 :: "u16 \<Rightarrow> bytes" where
  "le16 w = [ucast w, ucast (drop_bit 8 w)]"

definition le32 :: "u32 \<Rightarrow> bytes" where
  "le32 l = [ucast l, ucast (drop_bit 8 l), ucast (drop_bit 16 l), ucast (drop_bit 24 l)]"

definition ikcp_encode8u :: "nat \<Rightarrow> u8 \<Rightarrow> (bytes \<times> nat) go" where
  "ikcp_encode8u p c = (if p < 1 then Inl IndexRange else Inr ([c], p - 1))"

definition ikcp_decode8u :: "bytes \<Rightarrow> (u8 \<times> bytes) go" where
  "ikcp_decode8u p = (case p of b # r \<Rightarrow> Inr (b, r) | _ \<Rightarrow> Inl IndexRange)"

definition ikcp_encode16u :: "nat \<Rightarrow> u16 \<Rightarrow> (bytes \<times> nat) go" where
  "ikcp_encode16u p w = (if p < 2 then Inl IndexRange else Inr (le16 w, p - 2))"

definition ikcp_decode16u :: "bytes \<Rightarrow> (u16 \<times> bytes) go" where
  "ikcp_decode16u p =
     (case p of b0 # b1 # r \<Rightarrow> Inr (ucast b0 OR push_bit 8 (ucast b1), r) | _ \<Rightarrow> Inl IndexRange)"

definition ikcp_encode32u :: "nat \<Rightarrow> u32 \<Rightarrow> (bytes \<times> nat) go" where
  "ikcp_encode32u p l = (if p < 4 then Inl IndexRange else Inr (le32 l, p - 4))"

definition ikcp_decode32u :: "bytes \<Rightarrow> (u32 \<times> bytes) go" where
  "ikcp_decode32u p =
     (case p of
        b0 # b1 # b2 # b3 # r \<Rightarrow>
          Inr (ucast b0 OR push_bit 8 (ucast b1) OR push_bit 16 (ucast b2) OR push_bit 24 (ucast b3), r)
      | _ \<Rightarrow> Inl IndexRange)"

definition imin :: "u32 \<Rightarrow> u32 \<Rightarrow> u32" where
  "imin a b = (if a \<le> b then a else b)"

definition imax :: "u32 \<Rightarrow> u32 \<Rightarrow> u32" where
  "imax a b = (if a \<ge> b then a else b)"

definition ibound :: "u32 \<Rightarrow> u32 \<Rightarrow> u32 \<Rightarrow> u32" where
  "ibound lower middle upper = imin (imax lower middle) upper"

definition itimediff :: "u32 \<Rightarrow> u32 \<Rightarrow> int" where
  "itimediff later earlier = sint (later - earlier)"


section \<open>Segments\<close>

record segment =
  seg_conv :: u32
  seg_cmd :: u8
  seg_frg :: u8
  seg_wnd :: u16
  seg_ts :: u32
  seg_sn :: u32
  seg_una :: u32
  seg_rto :: u32
  seg_xmit :: u32
  seg_resendts :: u32
  seg_fastack :: u32
  seg_acked :: u32
  seg_data :: bytes

definition zero_segment :: segment where
  "zero_segment = \<lparr>seg_conv = 0, seg_cmd = 0, seg_frg = 0, seg_wnd = 0, seg_ts = 0, seg_sn = 0,
     seg_una = 0, seg_rto = 0, seg_xmit = 0, seg_resendts = 0, seg_fastack = 0, seg_acked = 0,
     seg_data = []\<rparr>"

definition segment_encode :: "segment \<Rightarrow> nat \<Rightarrow> (bytes \<times> nat) go" where
  "segment_encode seg ptr =
     go_bind (ikcp_encode32u ptr (seg_conv seg)) (\<lambda>(b1, ptr).
     go_bind (ikcp_encode8u ptr (seg_cmd seg)) (\<lambda>(b2, ptr).
     go_bind (ikcp_encode8u ptr (seg_frg seg)) (\<lambda>(b3, ptr).
     go_bind (ikcp_encode16u ptr (seg_wnd seg)) (\<lambda>(b4, ptr).
     go_bind (ikcp_encode32u ptr (seg_ts seg)) (\<lambda>(b5, ptr).
     go_bind (ikcp_encode32u ptr (seg_sn seg)) (\<lambda>(b6, ptr).
     go_bind (ikcp_encode32u ptr (seg_una seg)) (\<lambda>(b7, ptr).
     go_bind (ikcp_encode32u ptr (of_nat (length (seg_data seg)))) (\<lambda>(b8, ptr).
     Inr (b1 @ b2 @ b3 @ b4 @ b5 @ b6 @ b7 @ b8, ptr)))))))))"

record seg_header =
  h_cmd :: u8
  h_frg :: u8
  h_wnd :: u16
  h_ts :: u32
  h_sn :: u32
  h_una :: u32
  h_length :: u32

text \<open>The header fields after \<open>conv\<close>, as \<open>Input\<close> decodes them.\<close>

definition decode_header :: "bytes \<Rightarrow> (seg_header \<times> bytes) go" where
  "decode_header d =
     go_bind (ikcp_decode8u d) (\<lambda>(cmd, d).
     go_bind (ikcp_decode8u d) (\<lambda>(frg, d).
     go_bind (ikcp_decode16u d) (\<lambda>(wnd, d).
     go_bind (ikcp_decode32u d) (\<lambda>(ts, d).
     go_bind (ikcp_decode32u d) (\<lambda>(sn, d).
     go_bind (ikcp_decode32u d) (\<lambda>(una, d).
     go_bind (ikcp_decode32u d) (\<lambda>(len, d).
     Inr (\<lparr>h_cmd = cmd, h_frg = frg, h_wnd = wnd, h_ts = ts, h_sn = sn, h_una = una,
           h_length = len\<rparr>, d))))))))"


section \<open>Round trips\<close>

lemma length_le32 [simp]: "length (le32 l) = 4"
  by (simp add: le32_def)

lemma length_le16 [simp]: "length (le16 l) = 2"
  by (simp add: le16_def)

lemma decode16_le16 [simp]: "ikcp_decode16u (le16 w @ r) = Inr (w, r)"
proof -
  have "ucast (ucast w :: u8) OR push_bit 8 (ucast (ucast (drop_bit 8 w) :: u8)) = (w :: u16)"
    by (rule bit_word_eqI) (auto simp: bit_simps)
  then show ?thesis by (simp add: ikcp_decode16u_def le16_def)
qed

lemma decode32_le32 [simp]: "ikcp_decode32u (le32 w @ r) = Inr (w, r)"
proof -
  have "ucast (ucast w :: u8) OR push_bit 8 (ucast (ucast (drop_bit 8 w) :: u8))
     OR push_bit 16 (ucast (ucast (drop_bit 16 w) :: u8))
     OR push_bit 24 (ucast (ucast (drop_bit 24 w) :: u8)) = (w :: u32)" (is "?l = _")
  proof (rule bit_word_eqI)
    fix n assume "n < LENGTH(32)"
    then consider "n < 8" | "8 \<le> n \<and> n < 16" | "16 \<le> n \<and> n < 24" | "24 \<le> n \<and> n < 32"
      by fastforce
    then show "bit ?l n \<longleftrightarrow> bit w n" by cases (auto simp: bit_simps)
  qed
  then show ?thesis by (simp add: ikcp_decode32u_def le32_def)
qed


lemma decode8_Cons [simp]: "ikcp_decode8u (c # r) = Inr (c, r)"
  by (simp add: ikcp_decode8u_def)

definition header_bytes :: "segment \<Rightarrow> bytes" where
  "header_bytes seg = le32 (seg_conv seg) @ seg_cmd seg # seg_frg seg # le16 (seg_wnd seg) @
     le32 (seg_ts seg) @ le32 (seg_sn seg) @ le32 (seg_una seg) @
     le32 (of_nat (length (seg_data seg)))"

definition header_of :: "segment \<Rightarrow> seg_header" where
  "header_of seg = \<lparr>h_cmd = seg_cmd seg, h_frg = seg_frg seg, h_wnd = seg_wnd seg,
     h_ts = seg_ts seg, h_sn = seg_sn seg, h_una = seg_una seg,
     h_length = of_nat (length (seg_data seg))\<rparr>"

lemma length_header_bytes [simp]: "length (header_bytes seg) = IKCP_OVERHEAD"
  by (simp add: header_bytes_def IKCP_OVERHEAD_def)

lemma segment_encode_eq:
  "segment_encode seg n =
     (if n < IKCP_OVERHEAD then Inl IndexRange else Inr (header_bytes seg, n - IKCP_OVERHEAD))"
  by (simp add: segment_encode_def ikcp_encode8u_def ikcp_encode16u_def ikcp_encode32u_def
        header_bytes_def IKCP_OVERHEAD_def) arith

lemma decode_header_bytes:
  "go_bind (ikcp_decode32u (header_bytes seg @ r)) (\<lambda>(conv, d).
     go_bind (decode_header d) (\<lambda>(h, d). Inr (conv, h, d)))
   = Inr (seg_conv seg, header_of seg, r)"
  by (simp add: header_bytes_def decode_header_def header_of_def)

lemma ikcp_decode32u_ok: "4 \<le> length d \<Longrightarrow> \<exists>v. ikcp_decode32u d = Inr (v, drop 4 d)"
  by (cases d rule: list.exhaust [case_product list.exhaust])
     (auto simp: ikcp_decode32u_def numeral_eq_Suc Suc_le_length_iff)

lemma ikcp_decode16u_ok: "2 \<le> length d \<Longrightarrow> \<exists>v. ikcp_decode16u d = Inr (v, drop 2 d)"
  by (auto simp: ikcp_decode16u_def numeral_eq_Suc Suc_le_length_iff)

lemma ikcp_decode8u_ok: "1 \<le> length d \<Longrightarrow> \<exists>v. ikcp_decode8u d = Inr (v, drop 1 d)"
  by (auto simp: ikcp_decode8u_def Suc_le_length_iff)

lemma decode_header_ok:
  assumes "20 \<le> length d"
  shows "\<exists>h. decode_header d = Inr (h, drop 20 d)"
proof -
  obtain cmd where 1: "ikcp_decode8u d = Inr (cmd, drop 1 d)"
    using ikcp_decode8u_ok [of d] assms by auto
  have "1 \<le> length (drop 1 d)" using assms by (simp only: length_drop)
  from ikcp_decode8u_ok [OF this] obtain frg where 2: "ikcp_decode8u (drop 1 d) = Inr (frg, drop 2 d)"
    by (auto simp: numeral_2_eq_2)
  have "2 \<le> length (drop 2 d)" using assms by (simp only: length_drop)
  from ikcp_decode16u_ok [OF this] obtain wnd where 3: "ikcp_decode16u (drop 2 d) = Inr (wnd, drop 4 d)"
    by auto
  have 4: "\<exists>v. ikcp_decode32u (drop k d) = Inr (v, drop (k + 4) d)" if "k + 4 \<le> 20" for k
    using ikcp_decode32u_ok [of "drop k d"] assms that by (auto simp: add.commute)
  obtain ts sn una len where "ikcp_decode32u (drop 4 d) = Inr (ts, drop 8 d)"
    "ikcp_decode32u (drop 8 d) = Inr (sn, drop 12 d)"
    "ikcp_decode32u (drop 12 d) = Inr (una, drop 16 d)"
    "ikcp_decode32u (drop 16 d) = Inr (len, drop 20 d)"
    using 4 [of 4] 4 [of 8] 4 [of 12] 4 [of 16] by auto
  with 1 2 3 show ?thesis by (auto simp: decode_header_def)
qed



section \<open>Bounds\<close>

lemma imin_le [simp]: "imin a b \<le> a" "imin a b \<le> b"
  by (auto simp: imin_def)

lemma imax_ge [simp]: "a \<le> imax a b" "b \<le> imax a b"
  by (auto simp: imax_def)

lemma ibound_le [simp]: "ibound lo m hi \<le> hi"
  by (simp add: ibound_def)

lemma ibound_ge: "lo \<le> hi \<Longrightarrow> lo \<le> ibound lo m hi"
  by (auto simp: ibound_def imin_def imax_def)


section \<open>Property\<close>

text \<open>C21: the header codec round-trips. Encoding a segment into a slice with room for the 24-byte
  header never panics, stores exactly 24 bytes, and decoding those bytes, whatever follows
  them, gives back \<open>conv\<close>, \<open>cmd\<close>, \<open>frg\<close>, \<open>wnd\<close>, \<open>ts\<close>, \<open>sn\<close>, \<open>una\<close> and the data length; a shorter slice
  panics.\<close>

theorem segment_codec_roundtrip:
  "(n < IKCP_OVERHEAD \<longrightarrow> segment_encode seg n = Inl IndexRange)
   \<and> (IKCP_OVERHEAD \<le> n \<longrightarrow>
       (\<exists>b. segment_encode seg n = Inr (b, n - IKCP_OVERHEAD) \<and> length b = IKCP_OVERHEAD
          \<and> go_bind (ikcp_decode32u (b @ r)) (\<lambda>(conv, d).
               go_bind (decode_header d) (\<lambda>(h, d). Inr (conv, h, d)))
             = Inr (seg_conv seg, header_of seg, r)))"
  by (auto simp: segment_encode_eq decode_header_bytes)

theorem segment_codec_roundtrip_witness:
  "segment_encode (zero_segment\<lparr>seg_sn := 7\<rparr>) 20 = Inl IndexRange
   \<and> (\<exists>b. segment_encode (zero_segment\<lparr>seg_sn := 7\<rparr>) 30 = Inr (b, 6) \<and> length b = 24)"
  using segment_codec_roundtrip [of 20 "zero_segment\<lparr>seg_sn := 7\<rparr>" "[]"]
    segment_codec_roundtrip [of 30 "zero_segment\<lparr>seg_sn := 7\<rparr>" "[]"]
  by (auto simp: IKCP_OVERHEAD_def)

end
