(* ===== verification/Seg_Heap.thy ===== *)
theory Seg_Heap
  imports Go_Heap Kcp_Codec
begin

text \<open>
  The receive buffer \<open>segmentHeap\<close> of \<open>src/kcp/ikcp.go\<close>: a binary heap of segments ordered by the
  wrapped comparison of sequence numbers, with the set \<open>marks\<close> of the numbers it holds. The
  interface KCP relies on is the locale \<open>reorder_buffer\<close>: a buffer of segments with distinct
  numbers inside a window of \<open>2 ^ 31\<close> above a base, whose pop removes the number closest to the base.
\<close>

section \<open>State and methods\<close>

record segmentHeap =
  segments :: "segment list"
  marks :: "u32 set"

definition segmentHeap_Len :: "segmentHeap \<Rightarrow> nat" where
  "segmentHeap_Len h = length (segments h)"

definition seg_less :: "segment \<Rightarrow> segment \<Rightarrow> bool" where
  "seg_less a b \<longleftrightarrow> itimediff (seg_sn b) (seg_sn a) > 0"

definition segmentHeap_Less :: "segmentHeap \<Rightarrow> nat \<Rightarrow> nat \<Rightarrow> bool" where
  "segmentHeap_Less h i j \<longleftrightarrow> seg_less (segments h ! i) (segments h ! j)"

definition segmentHeap_Swap :: "nat \<Rightarrow> nat \<Rightarrow> segmentHeap \<Rightarrow> segmentHeap" where
  "segmentHeap_Swap i j h = h\<lparr>segments := swap i j (segments h)\<rparr>"

definition segmentHeap_Push :: "segment \<Rightarrow> segmentHeap \<Rightarrow> segmentHeap" where
  "segmentHeap_Push x h =
     h\<lparr>segments := segments h @ [x], marks := insert (seg_sn x) (marks h)\<rparr>"

definition segmentHeap_Pop :: "segmentHeap \<Rightarrow> (segment \<times> segmentHeap) go" where
  "segmentHeap_Pop h =
     (let n = length (segments h)
      in if n = 0 then Inl IndexRange
         else (let x = segments h ! (n - 1)
               in Inr (x, h\<lparr>segments := take (n - 1) (segments h),
                            marks := marks h - {seg_sn x}\<rparr>)))"

definition segmentHeap_Has :: "u32 \<Rightarrow> segmentHeap \<Rightarrow> bool" where
  "segmentHeap_Has sn h \<longleftrightarrow> sn \<in> marks h"

definition newSegmentHeap :: segmentHeap where
  "newSegmentHeap = \<lparr>segments = [], marks = {}\<rparr>"

text \<open>\<open>heap.Push(h, x)\<close> and \<open>heap.Pop(h)\<close> of \<open>container/heap\<close> at this heap.\<close>

definition heap_Push :: "segment \<Rightarrow> segmentHeap \<Rightarrow> segmentHeap" where
  "heap_Push x h =
     (let h' = segmentHeap_Push x h
      in h'\<lparr>segments := heap_up seg_less (segmentHeap_Len h' - 1) (segments h')\<rparr>)"

definition heap_Pop :: "segmentHeap \<Rightarrow> (segment \<times> segmentHeap) go" where
  "heap_Pop h =
     (if segmentHeap_Len h = 0 then Inl IndexRange
      else (let n = segmentHeap_Len h - 1;
                h' = segmentHeap_Swap 0 n h
            in segmentHeap_Pop (h'\<lparr>segments := heap_down seg_less 0 n (segments h')\<rparr>)))"


section \<open>The interface of the receive buffer\<close>

locale reorder_buffer =
  fixes bpush :: "segment \<Rightarrow> 'h \<Rightarrow> 'h"
    and bpop :: "'h \<Rightarrow> (segment \<times> 'h) go"
    and blen :: "'h \<Rightarrow> nat"
    and bhas :: "u32 \<Rightarrow> 'h \<Rightarrow> bool"
    and held :: "'h \<Rightarrow> segment multiset"
    and okb :: "u32 \<Rightarrow> 'h \<Rightarrow> bool"
  assumes okb_window: "okb base h \<Longrightarrow> x \<in># held h \<Longrightarrow> unat (seg_sn x - base) < 2 ^ 31"
    and okb_distinct: "okb base h \<Longrightarrow> x \<in># held h \<Longrightarrow> y \<in># held h - {#x#} \<Longrightarrow> seg_sn x \<noteq> seg_sn y"
    and okb_push: "okb base h \<Longrightarrow> unat (seg_sn x - base) < 2 ^ 31 \<Longrightarrow>
          (\<forall>y \<in># held h. seg_sn y \<noteq> seg_sn x) \<Longrightarrow> okb base (bpush x h)"
    and held_push: "held (bpush x h) = add_mset x (held h)"
    and pop_min: "okb base h \<Longrightarrow> held h \<noteq> {#} \<Longrightarrow>
          \<exists>x h'. bpop h = Inr (x, h') \<and> okb base h' \<and> held h = add_mset x (held h')
            \<and> (\<forall>y \<in># held h. unat (seg_sn x - base) \<le> unat (seg_sn y - base))"
    and has_iff: "okb base h \<Longrightarrow> bhas sn h \<longleftrightarrow> (\<exists>x \<in># held h. seg_sn x = sn)"
    and len_size: "blen h = size (held h)"
    and okb_next: "okb base h \<Longrightarrow> (\<forall>x \<in># held h. seg_sn x \<noteq> base) \<Longrightarrow> okb (base + 1) h"
begin

text \<open>Taking the next segment in order and putting it back keeps what is held.\<close>

lemma pop_push_back:
  assumes "okb base h" and "bpop h = Inr (x, h')"
    and "held h \<noteq> {#}"
  shows "okb base (bpush x h')" and "held (bpush x h') = held h"
proof -
  obtain x' h'' where "bpop h = Inr (x', h'')" "okb base h''" and e: "held h = add_mset x' (held h'')"
    using pop_min [OF assms(1,3)] by blast
  then have x: "x' = x" "h'' = h'" and ok: "okb base h'" using assms(2) by auto
  have "\<forall>y \<in># held h'. seg_sn y \<noteq> seg_sn x"
    using okb_distinct [OF assms(1), of x] e x by fastforce
  moreover have "unat (seg_sn x - base) < 2 ^ 31"
    using okb_window [OF assms(1), of x] e x by simp
  ultimately show "okb base (bpush x h')" using ok okb_push by blast
  show "held (bpush x h') = held h" using e x by (simp add: held_push)
qed

text \<open>When the smallest number is the base itself, popping it moves the window by one.\<close>

lemma pop_base:
  assumes "okb base h" and "bpop h = Inr (x, h')" and "held h \<noteq> {#}" and "seg_sn x = base"
  shows "okb (base + 1) h'"
proof -
  obtain x' h'' where "bpop h = Inr (x', h'')" "okb base h''" and e: "held h = add_mset x' (held h'')"
    using pop_min [OF assms(1,3)] by blast
  then have x: "x' = x" "h'' = h'" and ok: "okb base h'" using assms(2) by auto
  have "\<forall>y \<in># held h'. seg_sn y \<noteq> base"
    using okb_distinct [OF assms(1), of x] e x assms(4) by fastforce
  then show ?thesis using ok okb_next by blast
qed

end



section \<open>The segment heap implements the interface\<close>

interpretation seg_key: keyed_less seg_less "\<lambda>s. unat (seg_sn s - base)"
    "{s. unat (seg_sn s - base) < 2 ^ 31}"
  for base :: u32
  by standard (simp add: seg_less_def itimediff_def sint_diff_pos_window)

definition seg_heap_ok :: "u32 \<Rightarrow> segmentHeap \<Rightarrow> bool" where
  "seg_heap_ok base h \<longleftrightarrow>
     heap_order seg_less (length (segments h)) (segments h)
   \<and> distinct (map seg_sn (segments h)) \<and> marks h = seg_sn ` set (segments h)
   \<and> (\<forall>s \<in> set (segments h). unat (seg_sn s - base) < 2 ^ 31)"

lemma seg_heap_ok_key:
  assumes "\<forall>s \<in> set xs. unat (seg_sn s - base) < 2 ^ 31"
  shows "heap_order seg_less (length xs) xs
    \<longleftrightarrow> key_order (\<lambda>s. unat (seg_sn s - base)) (length xs) xs"
  using assms by (intro seg_key.heap_order_key) auto

lemma seg_heap_ok_eq:
  "seg_heap_ok base h \<longleftrightarrow>
     key_order (\<lambda>s. unat (seg_sn s - base)) (length (segments h)) (segments h)
   \<and> distinct (map seg_sn (segments h)) \<and> marks h = seg_sn ` set (segments h)
   \<and> (\<forall>s \<in> set (segments h). unat (seg_sn s - base) < 2 ^ 31)"
  using seg_heap_ok_key [of "segments h" base] by (auto simp: seg_heap_ok_def)

lemma newSegmentHeap_ok: "seg_heap_ok base newSegmentHeap"
  by (simp add: seg_heap_ok_def newSegmentHeap_def heap_order_def)

lemma distinct_map_mset: "mset xs = mset ys \<Longrightarrow> distinct (map f xs) \<longleftrightarrow> distinct (map f ys)"
  by (metis mset_eq_imp_distinct_iff mset_map)

lemma key_order_snoc:
  "key_order key (length xs) xs \<Longrightarrow> up_inv key (Suc (length xs)) (length xs) (xs @ [x])"
  by (auto simp: key_order_def up_inv_def nth_append)

lemma mset_heap_Push [simp]: "mset (segments (heap_Push x h)) = add_mset x (mset (segments h))"
  by (simp add: heap_Push_def segmentHeap_Push_def segmentHeap_Len_def Let_def mset_heap_up)

lemma heap_Push_ok:
  assumes ok: "seg_heap_ok base h" and w: "unat (seg_sn x - base) < 2 ^ 31"
    and new: "seg_sn x \<notin> seg_sn ` set (segments h)"
  shows "seg_heap_ok base (heap_Push x h)"
proof -
  let ?key = "\<lambda>s. unat (seg_sn s - base)" and ?xs = "segments h @ [x]"
  have segs: "segments (heap_Push x h) = heap_up seg_less (length (segments h)) ?xs"
    and mks: "marks (heap_Push x h) = insert (seg_sn x) (marks h)"
    by (simp_all add: heap_Push_def segmentHeap_Push_def segmentHeap_Len_def Let_def)
  have "set ?xs \<subseteq> {s. unat (seg_sn s - base) < 2 ^ 31}" and "up_inv ?key (length ?xs) (length (segments h)) ?xs"
    using ok w key_order_snoc [of ?key "segments h" x] by (auto simp: seg_heap_ok_eq)
  then have "key_order ?key (length ?xs) (heap_up seg_less (length (segments h)) ?xs)"
    by (intro seg_key.heap_up_order) auto
  moreover have m: "mset (segments (heap_Push x h)) = mset ?xs" by simp
  moreover have "set (segments (heap_Push x h)) = set ?xs" using m by (metis set_mset_mset)
  moreover have "distinct (map seg_sn ?xs)" using ok new by (auto simp: seg_heap_ok_eq)
  ultimately show ?thesis
    using ok w distinct_map_mset [OF m] unfolding seg_heap_ok_eq mks by (auto simp: segs)
qed

text \<open>The list that \<open>heap.Pop\<close> hands to \<open>segmentHeap.Pop\<close>: the minimum is its last element.\<close>

definition pop_arranged :: "segment list \<Rightarrow> segment list" where
  "pop_arranged xs = heap_down seg_less 0 (length xs - 1) (swap 0 (length xs - 1) xs)"

lemma swap_eq_Nil: "swap i j xs = [] \<longleftrightarrow> xs = []"
  by (metis length_0_conv length_swap)

lemma heap_Pop_eq:
  "heap_Pop h = (if segments h = [] then Inl IndexRange
     else (let ys = pop_arranged (segments h); n = length (segments h) - 1; x = ys ! n
           in Inr (x, h\<lparr>segments := take n ys, marks := marks h - {seg_sn x}\<rparr>)))"
  by (auto simp: heap_Pop_def pop_arranged_def segmentHeap_Pop_def segmentHeap_Swap_def
        segmentHeap_Len_def Let_def swap_eq_Nil)

lemma mset_pop_arranged: "xs \<noteq> [] \<Longrightarrow> mset (pop_arranged xs) = mset xs"
proof -
  assume ne: "xs \<noteq> []"
  have "mset (swap 0 (length xs - 1) xs) = mset xs" using ne by (intro Go_Heap.mset_swap) auto
  moreover have "length xs - 1 = 0 \<Longrightarrow> pop_arranged xs = swap 0 (length xs - 1) xs"
    by (simp add: pop_arranged_def heap_down.simps [of _ 0 0])
  ultimately show ?thesis
    using ne mset_heap_down [of 0 "length xs - 1" "swap 0 (length xs - 1) xs" seg_less]
    by (cases "length xs - 1 = 0") (auto simp: pop_arranged_def)
qed

lemma pop_arranged_last: "xs \<noteq> [] \<Longrightarrow> pop_arranged xs ! (length xs - 1) = xs ! 0"
proof -
  assume ne: "xs \<noteq> []"
  have sw: "swap 0 (length xs - 1) xs ! (length xs - 1) = xs ! 0" using ne by (simp add: swap_nth)
  show ?thesis
  proof (cases "length xs - 1 = 0")
    case True
    then show ?thesis using sw by (simp add: pop_arranged_def heap_down.simps [of _ 0 0])
  next
    case False
    then show ?thesis using sw by (simp add: pop_arranged_def heap_down_beyond)
  qed
qed

lemma pop_arranged_order:
  assumes ne: "xs \<noteq> []" and w: "\<forall>s \<in> set xs. unat (seg_sn s - base) < 2 ^ 31"
    and ord: "key_order (\<lambda>s. unat (seg_sn s - base)) (length xs) xs"
  shows "key_order (\<lambda>s. unat (seg_sn s - base)) (length xs - 1) (pop_arranged xs)"
proof (cases "length xs - 1 = 0")
  case True
  then show ?thesis by (simp add: key_order_def)
next
  case False
  have "set (swap 0 (length xs - 1) xs) \<subseteq> {s. unat (seg_sn s - base) < 2 ^ 31}" using w ne by auto
  moreover have "down_inv (\<lambda>s. unat (seg_sn s - base)) (length xs - 1) 0 (swap 0 (length xs - 1) xs)"
    using ne ord False by (auto simp: down_inv_def key_order_def swap_nth)
  ultimately show ?thesis
    using False unfolding pop_arranged_def by (intro seg_key.heap_down_order) auto
qed

lemma heap_Pop_ok:
  assumes ok: "seg_heap_ok base h" and ne: "segments h \<noteq> []"
  shows "\<exists>x h'. heap_Pop h = Inr (x, h') \<and> seg_heap_ok base h'
      \<and> mset (segments h) = add_mset x (mset (segments h'))
      \<and> (\<forall>y \<in> set (segments h). unat (seg_sn x - base) \<le> unat (seg_sn y - base))"
proof -
  let ?key = "\<lambda>s. unat (seg_sn s - base)" and ?xs = "segments h"
  let ?n = "length ?xs - 1" and ?ys = "pop_arranged ?xs"
  let ?x = "?ys ! ?n"
  let ?h' = "h\<lparr>segments := take ?n ?ys, marks := marks h - {seg_sn ?x}\<rparr>"
  have K: "key_order ?key (length ?xs) ?xs" and D: "distinct (map seg_sn ?xs)"
    and M: "marks h = seg_sn ` set ?xs" and W: "\<forall>s \<in> set ?xs. unat (seg_sn s - base) < 2 ^ 31"
    using ok by (auto simp: seg_heap_ok_eq)
  have m: "mset ?ys = mset ?xs" by (rule mset_pop_arranged [OF ne])
  have len: "length ?ys = Suc ?n" using ne by (simp add: pop_arranged_def)
  have split: "?ys = take ?n ?ys @ [?x]"
    using len by (metis lessI take_Suc_conv_app_nth take_all_iff order_refl)
  have ms: "mset ?xs = add_mset ?x (mset (take ?n ?ys))"
    by (subst m [symmetric], subst split) simp
  have x0: "?x = ?xs ! 0" by (rule pop_arranged_last [OF ne])
  have min: "\<forall>y \<in> set ?xs. ?key ?x \<le> ?key y"
    unfolding x0 using seg_key.key_order_root_min [OF K] ne by (auto simp: in_set_conv_nth)
  have o: "key_order ?key ?n (take ?n ?ys)"
    using pop_arranged_order [OF ne W K] by (auto simp: key_order_def)
  have D': "distinct (map seg_sn (take ?n ?ys @ [?x]))"
    using D distinct_map_mset [of ?ys ?xs seg_sn] m split by simp
  have set_eq: "set ?xs = insert ?x (set (take ?n ?ys))"
    using ms by (metis set_mset_add_mset_insert set_mset_mset)
  have "seg_heap_ok base ?h'"
    unfolding seg_heap_ok_eq using o D' W M set_eq len by auto
  moreover have "heap_Pop h = Inr (?x, ?h')" using ne by (simp add: heap_Pop_eq Let_def)
  ultimately show ?thesis using ms min by auto
qed

interpretation rbuf: reorder_buffer heap_Push heap_Pop segmentHeap_Len segmentHeap_Has
    "\<lambda>h. mset (segments h)" seg_heap_ok
proof (standard, goal_cases)
  case (1 base h x)
  then show ?case by (simp add: seg_heap_ok_def)
next
  case (2 base h x y)
  then have d: "distinct (map seg_sn (segments h))" by (simp add: seg_heap_ok_def)
  then have "distinct (segments h)" and inj: "inj_on seg_sn (set (segments h))"
    by (simp_all add: distinct_map)
  then have "y \<in> set (segments h)" "y \<noteq> x"
    using 2 by (auto simp flip: mset_remove1)
  with 2 inj show ?case by (auto dest: inj_onD)
next
  case (3 base h x)
  then show ?case by (intro heap_Push_ok) auto
next
  case (5 base h)
  then show ?case using heap_Pop_ok [of base h] by auto
next
  case (6 base h sn)
  then show ?case by (auto simp: segmentHeap_Has_def seg_heap_ok_def)
next
  case (8 base h)
  have "unat (seg_sn s - (base + 1)) < 2 ^ 31" if "s \<in> set (segments h)" for s
  proof -
    have "seg_sn s \<noteq> base" and "unat (seg_sn s - base) < 2 ^ 31" using 8 that by (auto simp: seg_heap_ok_def)
    then have "unat (seg_sn s - base - 1) < 2 ^ 31" by (simp add: unat_minus_one)
    then show ?thesis by (simp add: diff_diff_eq)
  qed
  with 8 show ?case by (simp add: seg_heap_ok_def)
qed (simp_all add: segmentHeap_Len_def)

end
