(* ===== verification/Snmp.thy ===== *)
theory Snmp
  imports Prelude
begin

text \<open>
  The statistics collector of \<open>src/kcp/snmp.go\<close>: the thirty 64-bit counters of \<open>Snmp\<close>, the
  column names of \<open>Header\<close>, the decimal rendering of \<open>ToSlice\<close>, \<open>Copy\<close> and \<open>Reset\<close>. The atomic
  loads and stores of the code are plain reads and updates here; \<open>AddUint64\<close> wraps at 64 bits.
\<close>

record Snmp =
  BytesSent :: u64
  BytesReceived :: u64
  MaxConn :: u64
  ActiveOpens :: u64
  PassiveOpens :: u64
  CurrEstab :: u64
  InErrs :: u64
  InCsumErrors :: u64
  KCPInErrors :: u64
  InPkts :: u64
  OutPkts :: u64
  InSegs :: u64
  OutSegs :: u64
  InBytes :: u64
  OutBytes :: u64
  RetransSegs :: u64
  FastRetransSegs :: u64
  EarlyRetransSegs :: u64
  LostSegs :: u64
  RepeatSegs :: u64
  FECFullShardSet :: u64
  FECRecovered :: u64
  FECErrs :: u64
  FECParityShards :: u64
  FECShardSet :: u64
  FECShardMin :: u64
  RingBufferSndQueue :: u64
  RingBufferRcvQueue :: u64
  RingBufferSndBuffer :: u64
  OOBPackets :: u64

definition newSnmp :: Snmp where
  "newSnmp = \<lparr>BytesSent = 0,
     BytesReceived = 0,
     MaxConn = 0,
     ActiveOpens = 0,
     PassiveOpens = 0,
     CurrEstab = 0,
     InErrs = 0,
     InCsumErrors = 0,
     KCPInErrors = 0,
     InPkts = 0,
     OutPkts = 0,
     InSegs = 0,
     OutSegs = 0,
     InBytes = 0,
     OutBytes = 0,
     RetransSegs = 0,
     FastRetransSegs = 0,
     EarlyRetransSegs = 0,
     LostSegs = 0,
     RepeatSegs = 0,
     FECFullShardSet = 0,
     FECRecovered = 0,
     FECErrs = 0,
     FECParityShards = 0,
     FECShardSet = 0,
     FECShardMin = 0,
     RingBufferSndQueue = 0,
     RingBufferRcvQueue = 0,
     RingBufferSndBuffer = 0,
     OOBPackets = 0\<rparr>"

definition Snmp_Header :: "string list" where
  "Snmp_Header =
    [''BytesSent'',
     ''BytesReceived'',
     ''MaxConn'',
     ''ActiveOpens'',
     ''PassiveOpens'',
     ''CurrEstab'',
     ''InErrs'',
     ''InCsumErrors'',
     ''KCPInErrors'',
     ''InPkts'',
     ''OutPkts'',
     ''InSegs'',
     ''OutSegs'',
     ''InBytes'',
     ''OutBytes'',
     ''RetransSegs'',
     ''FastRetransSegs'',
     ''EarlyRetransSegs'',
     ''LostSegs'',
     ''RepeatSegs'',
     ''FECFullShards'',
     ''FECParityShards'',
     ''FECErrs'',
     ''FECRecovered'',
     ''FECShardSet'',
     ''FECShardMin'',
     ''RingBufferSndQueue'',
     ''RingBufferRcvQueue'',
     ''RingBufferSndBuffer'',
     ''OOBPackets'']"

text \<open>\<open>strconv.FormatUint\<close> in base 10: the digits of the value, most significant first.\<close>

fun digit_char :: "nat \<Rightarrow> char" where
  "digit_char d = char_of (48 + d)"

fun format_nat :: "nat \<Rightarrow> string" where
  "format_nat n = (if n < 10 then [digit_char n] else format_nat (n div 10) @ [digit_char (n mod 10)])"

declare format_nat.simps [simp del]

definition FormatUint :: "u64 \<Rightarrow> string" where
  "FormatUint w = format_nat (unat w)"

definition Snmp_Copy :: "Snmp \<Rightarrow> Snmp" where
  "Snmp_Copy s = newSnmp\<lparr>BytesSent := BytesSent s,
     BytesReceived := BytesReceived s,
     MaxConn := MaxConn s,
     ActiveOpens := ActiveOpens s,
     PassiveOpens := PassiveOpens s,
     CurrEstab := CurrEstab s,
     InErrs := InErrs s,
     InCsumErrors := InCsumErrors s,
     KCPInErrors := KCPInErrors s,
     InPkts := InPkts s,
     OutPkts := OutPkts s,
     InSegs := InSegs s,
     OutSegs := OutSegs s,
     InBytes := InBytes s,
     OutBytes := OutBytes s,
     RetransSegs := RetransSegs s,
     FastRetransSegs := FastRetransSegs s,
     EarlyRetransSegs := EarlyRetransSegs s,
     LostSegs := LostSegs s,
     RepeatSegs := RepeatSegs s,
     FECFullShardSet := FECFullShardSet s,
     FECParityShards := FECParityShards s,
     FECErrs := FECErrs s,
     FECRecovered := FECRecovered s,
     FECShardSet := FECShardSet s,
     FECShardMin := FECShardMin s,
     RingBufferSndQueue := RingBufferSndQueue s,
     RingBufferRcvQueue := RingBufferRcvQueue s,
     RingBufferSndBuffer := RingBufferSndBuffer s,
     OOBPackets := OOBPackets s\<rparr>"

definition Snmp_ToSlice :: "Snmp \<Rightarrow> string list" where
  "Snmp_ToSlice s = (let snmp = Snmp_Copy s in
    [FormatUint (BytesSent snmp),
     FormatUint (BytesReceived snmp),
     FormatUint (MaxConn snmp),
     FormatUint (ActiveOpens snmp),
     FormatUint (PassiveOpens snmp),
     FormatUint (CurrEstab snmp),
     FormatUint (InErrs snmp),
     FormatUint (InCsumErrors snmp),
     FormatUint (KCPInErrors snmp),
     FormatUint (InPkts snmp),
     FormatUint (OutPkts snmp),
     FormatUint (InSegs snmp),
     FormatUint (OutSegs snmp),
     FormatUint (InBytes snmp),
     FormatUint (OutBytes snmp),
     FormatUint (RetransSegs snmp),
     FormatUint (FastRetransSegs snmp),
     FormatUint (EarlyRetransSegs snmp),
     FormatUint (LostSegs snmp),
     FormatUint (RepeatSegs snmp),
     FormatUint (FECFullShardSet snmp),
     FormatUint (FECParityShards snmp),
     FormatUint (FECErrs snmp),
     FormatUint (FECRecovered snmp),
     FormatUint (FECShardSet snmp),
     FormatUint (FECShardMin snmp),
     FormatUint (RingBufferSndQueue snmp),
     FormatUint (RingBufferRcvQueue snmp),
     FormatUint (RingBufferSndBuffer snmp),
     FormatUint (OOBPackets snmp)])"

definition Snmp_Reset :: "Snmp \<Rightarrow> Snmp" where
  "Snmp_Reset s = s\<lparr>BytesSent := 0,
     BytesReceived := 0,
     MaxConn := 0,
     ActiveOpens := 0,
     PassiveOpens := 0,
     CurrEstab := 0,
     InErrs := 0,
     InCsumErrors := 0,
     KCPInErrors := 0,
     InPkts := 0,
     OutPkts := 0,
     InSegs := 0,
     OutSegs := 0,
     InBytes := 0,
     OutBytes := 0,
     RetransSegs := 0,
     FastRetransSegs := 0,
     EarlyRetransSegs := 0,
     LostSegs := 0,
     RepeatSegs := 0,
     FECFullShardSet := 0,
     FECParityShards := 0,
     FECErrs := 0,
     FECRecovered := 0,
     FECShardSet := 0,
     FECShardMin := 0,
     RingBufferSndQueue := 0,
     RingBufferRcvQueue := 0,
     RingBufferSndBuffer := 0,
     OOBPackets := 0\<rparr>"


section \<open>Lemmas\<close>

text \<open>Reading the decimal digits back.\<close>

fun read_nat :: "string \<Rightarrow> nat" where
  "read_nat s = foldl (\<lambda>n c. 10 * n + (of_char c - 48)) 0 s"

lemma read_format_nat: "read_nat (format_nat n) = n"
proof (induction n rule: format_nat.induct)
  case (1 n)
  have d: "of_char (digit_char k) - 48 = k" if "k < 10" for k :: nat
    using that by simp
  show ?case
    using 1 d [of "n mod 10"] d [of n] by (subst format_nat.simps) (auto simp del: digit_char.simps)
qed

lemma FormatUint_inj: "FormatUint a = FormatUint b \<longleftrightarrow> a = b"
  by (metis FormatUint_def read_format_nat unsigned_word_eqI)

lemma Snmp_Copy_id [simp]: "Snmp_Copy s = s"
  by (simp add: Snmp_Copy_def newSnmp_def)

lemma Snmp_Reset_new: "Snmp_Reset s = newSnmp"
  by (simp add: Snmp_Reset_def newSnmp_def)


section \<open>Property\<close>

text \<open>The report shows the counters. \<open>ToSlice\<close> has one column per name of \<open>Header\<close>, two snapshots
  give the same report only if all thirty counters agree, and after \<open>Reset\<close> every column is 0.\<close>

theorem snmp_report_faithful:
  "length (Snmp_ToSlice s) = length Snmp_Header \<and> (Snmp_ToSlice s = Snmp_ToSlice t \<longleftrightarrow> s = t)
   \<and> Snmp_ToSlice (Snmp_Reset s) = replicate (length Snmp_Header) ''0''"
proof (intro conjI)
  show "length (Snmp_ToSlice s) = length Snmp_Header"
    by (simp add: Snmp_ToSlice_def Snmp_Header_def Let_def)
  show "Snmp_ToSlice s = Snmp_ToSlice t \<longleftrightarrow> s = t"
    by (cases s; cases t) (simp add: Snmp_ToSlice_def Let_def FormatUint_inj conj_commute, blast)
  have "FormatUint 0 = ''0''" by (simp add: FormatUint_def format_nat.simps char_of_eq_iff)
  then show "Snmp_ToSlice (Snmp_Reset s) = replicate (length Snmp_Header) ''0''"
    by (simp add: Snmp_Reset_new Snmp_ToSlice_def newSnmp_def Snmp_Header_def Let_def numeral_eq_Suc)
qed

end
