(* ===== verification/Kcp_Core.thy ===== *)
theory Kcp_Core
  imports Ring_Buffer Seg_Heap Snmp
begin

text \<open>
  The KCP control block of \<open>src/kcp/ikcp.go\<close>: the \<open>KCP\<close> struct, its construction and
  configuration, the upper-level interface \<open>Send\<close>, \<open>PeekSize\<close> and \<open>Recv\<close>, and the routines
  \<open>update_ack\<close>, \<open>shrink_buf\<close>, \<open>parse_ack\<close>, \<open>parse_fastack\<close>, \<open>parse_una\<close>, \<open>ack_push\<close> and
  \<open>parse_data\<close> that \<open>Input\<close> is made of.

  The struct's fields keep their names with the prefix \<open>k_\<close>. Fields of type \<open>int32\<close> are 32-bit
  words read with \<^const>\<open>sint\<close>. The work buffer is represented by its length, \<open>output\<close> by the
  packets it was given (\<open>k_out\<close>, oldest first), and \<open>currentMs()\<close> by a stream of clock readings
  (\<open>k_clock\<close>) with the number of readings taken (\<open>k_reads\<close>). \<open>DefaultSnmp\<close> is the field \<open>k_snmp\<close>.
  Slices taken from the buffer pool have capacity \<open>mtuLimit\<close>; re-slicing beyond it panics.
  \<open>debugLog\<close> is the empty function of the default build.
\<close>

type_synonym i32 = "32 word"

record ackItem =
  ack_sn :: u32
  ack_ts :: u32

record KCP =
  k_conv :: u32
  k_mtu :: u32
  k_mss :: u32
  k_state :: u32
  k_snd_una :: u32
  k_snd_nxt :: u32
  k_rcv_nxt :: u32
  k_ssthresh :: u32
  k_rx_rttvar :: i32
  k_rx_srtt :: i32
  k_rx_rto :: u32
  k_rx_minrto :: u32
  k_snd_wnd :: u32
  k_rcv_wnd :: u32
  k_rmt_wnd :: u32
  k_cwnd :: u32
  k_probe :: u32
  k_interval :: u32
  k_ts_flush :: u32
  k_nodelay :: u32
  k_updated :: u32
  k_ts_probe :: u32
  k_probe_wait :: u32
  k_dead_link :: u32
  k_incr :: u32
  k_fastresend :: i32
  k_nocwnd :: i32
  k_stream :: i32
  k_logmask :: i32
  k_log :: "nat option"
  k_snd_queue :: "segment RingBuffer"
  k_rcv_queue :: "segment RingBuffer"
  k_snd_buf :: "segment RingBuffer"
  k_rcv_buf :: segmentHeap
  k_acklist :: "ackItem list"
  k_buffer :: nat
  k_out :: "bytes list"
  k_clock :: "nat \<Rightarrow> u32"
  k_reads :: nat
  k_snmp :: Snmp

definition mtuLimit :: nat where
  "mtuLimit = 1500"


section \<open>Construction and configuration\<close>

definition NewKCP :: "u32 \<Rightarrow> (nat \<Rightarrow> u32) \<Rightarrow> Snmp \<Rightarrow> KCP" where
  "NewKCP conv clock snmp =
    \<lparr>k_conv = conv, k_mtu = IKCP_MTU_DEF, k_mss = IKCP_MTU_DEF - of_nat IKCP_OVERHEAD, k_state = 0,
     k_snd_una = 0, k_snd_nxt = 0, k_rcv_nxt = 0, k_ssthresh = IKCP_THRESH_INIT,
     k_rx_rttvar = 0, k_rx_srtt = 0, k_rx_rto = IKCP_RTO_DEF, k_rx_minrto = IKCP_RTO_MIN,
     k_snd_wnd = IKCP_WND_SND, k_rcv_wnd = IKCP_WND_RCV, k_rmt_wnd = IKCP_WND_RCV,
     k_cwnd = 0, k_probe = 0, k_interval = IKCP_INTERVAL, k_ts_flush = IKCP_INTERVAL,
     k_nodelay = 0, k_updated = 0, k_ts_probe = 0, k_probe_wait = 0,
     k_dead_link = IKCP_DEADLINK, k_incr = 0, k_fastresend = 0, k_nocwnd = 0, k_stream = 0,
     k_logmask = 0, k_log = None,
     k_snd_queue = NewRingBuffer zero_segment (uint IKCP_WND_SND * 2),
     k_rcv_queue = NewRingBuffer zero_segment (uint IKCP_WND_RCV * 2),
     k_snd_buf = NewRingBuffer zero_segment (uint IKCP_WND_SND * 2),
     k_rcv_buf = newSegmentHeap, k_acklist = [],
     k_buffer = unat ((IKCP_MTU_DEF + of_nat IKCP_OVERHEAD) * 3),
     k_out = [], k_clock = clock, k_reads = 0, k_snmp = snmp\<rparr>"

definition SetMtu :: "int \<Rightarrow> KCP \<Rightarrow> int \<times> KCP" where
  "SetMtu mtu k =
    (if mtu < 50 \<or> mtu < int IKCP_OVERHEAD then (-1, k)
     else let m = word_of_int mtu
          in (0, k\<lparr>k_mtu := m, k_mss := m - of_nat IKCP_OVERHEAD,
                   k_buffer := nat ((mtu + int IKCP_OVERHEAD) * 3)\<rparr>))"

definition NoDelay :: "int \<Rightarrow> int \<Rightarrow> int \<Rightarrow> int \<Rightarrow> KCP \<Rightarrow> int \<times> KCP" where
  "NoDelay nodelay interval resend nc k =
    (let k1 = (if nodelay \<ge> 0
               then k\<lparr>k_nodelay := word_of_int nodelay,
                      k_rx_minrto := (if nodelay \<noteq> 0 then IKCP_RTO_NDL else IKCP_RTO_MIN)\<rparr>
               else k);
         k2 = (if interval \<ge> 0
               then k1\<lparr>k_interval := word_of_int (if interval > 5000 then 5000
                          else if interval < 10 then 10 else interval)\<rparr>
               else k1);
         k3 = (if resend \<ge> 0 then k2\<lparr>k_fastresend := word_of_int resend\<rparr> else k2);
         k4 = (if nc \<ge> 0 then k3\<lparr>k_nocwnd := word_of_int nc\<rparr> else k3)
     in (0, k4))"

definition WndSize :: "int \<Rightarrow> int \<Rightarrow> KCP \<Rightarrow> int \<times> KCP" where
  "WndSize sndwnd rcvwnd k =
    (let k1 = (if sndwnd > 0 then k\<lparr>k_snd_wnd := word_of_int sndwnd\<rparr> else k);
         k2 = (if rcvwnd > 0 then k1\<lparr>k_rcv_wnd := word_of_int rcvwnd\<rparr> else k1)
     in (0, k2))"

definition WaitSnd :: "KCP \<Rightarrow> nat" where
  "WaitSnd k = RingBuffer_Len (k_snd_buf k) + RingBuffer_Len (k_snd_queue k)"

text \<open>The logger callback is only stored; \<open>None\<close> is \<open>nil\<close>.\<close>

definition SetLogger :: "i32 \<Rightarrow> nat option \<Rightarrow> KCP \<Rightarrow> KCP" where
  "SetLogger lmask logger k =
    (case logger of None \<Rightarrow> k\<lparr>k_logmask := 0\<rparr>
     | Some l \<Rightarrow> k\<lparr>k_logmask := lmask, k_log := Some l\<rparr>)"

definition currentMs :: "KCP \<Rightarrow> u32 \<times> KCP" where
  "currentMs k = (k_clock k (k_reads k), k\<lparr>k_reads := Suc (k_reads k)\<rparr>)"


section \<open>The upper-level interface\<close>

definition newSegment :: "nat \<Rightarrow> bytes \<Rightarrow> segment go" where
  "newSegment sz content =
    (if sz \<le> mtuLimit then Inr (zero_segment\<lparr>seg_data := take sz content\<rparr>) else Inl SliceBounds)"

definition recycleSegment :: "segment \<Rightarrow> segment" where
  "recycleSegment seg = seg\<lparr>seg_data := []\<rparr>"

definition peek_fn :: "(segment, nat) yield" where
  "peek_fn seg n = (seg, n + length (seg_data seg), seg_frg seg \<noteq> 0)"

definition PeekSize :: "KCP \<Rightarrow> int" where
  "PeekSize k =
    (case RingBuffer_Peek (k_rcv_queue k) of
       None \<Rightarrow> -1
     | Some seg \<Rightarrow>
         if seg_frg seg = 0 then int (length (seg_data seg))
         else if RingBuffer_Len (k_rcv_queue k) < unat (seg_frg seg + 1) then -1
         else int (snd (RingBuffer_ForEach peek_fn (k_rcv_queue k) 0)))"

text \<open>The fragment loop of \<open>Recv\<close>: \<open>room\<close> is what is left of the caller's buffer and \<open>acc\<close> what
  has been copied into it. Every round takes a segment from the queue, so the queue's length
  (\<open>fuel\<close>) bounds the rounds.\<close>

fun recv_loop :: "nat \<Rightarrow> nat \<Rightarrow> bytes \<Rightarrow> segment RingBuffer \<Rightarrow> (bytes \<times> segment RingBuffer) go" where
  "recv_loop 0 room acc q = Inr (acc, q)"
| "recv_loop (Suc fuel) room acc q =
    (case RingBuffer_Pop zero_segment q of
       ((seg, ok), q') \<Rightarrow>
         if \<not> ok then Inr (acc, q')
         else if room < length (seg_data seg) then Inl SliceBounds
         else let acc' = acc @ seg_data seg
              in if seg_frg seg = 0 then Inr (acc', q')
                 else recv_loop fuel (room - length (seg_data seg)) acc' q')"

text \<open>The loop shared by \<open>Recv\<close> and \<open>parse_data\<close> that moves segments in order from \<open>rcv_buf\<close> to
  \<open>rcv_queue\<close> while the window has room.\<close>

function move_ready :: "KCP \<Rightarrow> KCP go" where
  "move_ready k =
    (if segmentHeap_Len (k_rcv_buf k) = 0 then Inr k
     else case heap_Pop (k_rcv_buf k) of
            Inl p \<Rightarrow> Inl p
          | Inr (seg, h) \<Rightarrow>
              if seg_sn seg = k_rcv_nxt k \<and> RingBuffer_Len (k_rcv_queue k) < unat (k_rcv_wnd k)
              then move_ready (k\<lparr>k_rcv_buf := h,
                      k_rcv_queue := RingBuffer_Push zero_segment seg (k_rcv_queue k),
                      k_rcv_nxt := k_rcv_nxt k + 1\<rparr>)
              else Inr (k\<lparr>k_rcv_buf := heap_Push seg h\<rparr>))"
  by pat_completeness auto
termination
proof (relation "measure (\<lambda>k. segmentHeap_Len (k_rcv_buf k))", goal_cases)
  case (2 k b seg h)
  then show ?case
    by (auto simp: heap_Pop_eq segmentHeap_Len_def pop_arranged_def Let_def split: if_splits)
qed simp

declare move_ready.simps [simp del]

definition Recv :: "nat \<Rightarrow> KCP \<Rightarrow> (int \<times> bytes \<times> KCP) go" where
  "Recv room k =
    (let peeksize = PeekSize k in
     if peeksize < 0 then Inr (-1, [], k)
     else if peeksize > int room then Inr (-2, [], k)
     else let fast_recover = (RingBuffer_Len (k_rcv_queue k) \<ge> unat (k_rcv_wnd k)) in
       go_bind (recv_loop (RingBuffer_Len (k_rcv_queue k)) room [] (k_rcv_queue k)) (\<lambda>(acc, q).
       go_bind (move_ready (k\<lparr>k_rcv_queue := q\<rparr>)) (\<lambda>k'.
         let k'' = (if RingBuffer_Len (k_rcv_queue k') < unat (k_rcv_wnd k') \<and> fast_recover
                    then k'\<lparr>k_probe := k_probe k' OR IKCP_ASK_TELL\<rparr> else k')
         in Inr (int (length acc), acc, k''))))"

text \<open>Streaming mode of \<open>Send\<close>: the callback that extends the last queued segment.\<close>

definition extend_fn :: "nat \<Rightarrow> (segment, bytes go) yield" where
  "extend_fn mss seg b =
    (case b of
       Inl p \<Rightarrow> (seg, Inl p, False)
     | Inr buffer \<Rightarrow>
         if length (seg_data seg) < mss
         then let capacity = mss - length (seg_data seg);
                  extend = min (length buffer) capacity
              in if length (seg_data seg) + extend > mtuLimit then (seg, Inl SliceBounds, False)
                 else (seg\<lparr>seg_data := seg_data seg @ take extend buffer\<rparr>, Inr (drop extend buffer), False)
         else (seg, Inr buffer, False))"

text \<open>The fragment loop of \<open>Send\<close>; \<open>n\<close> is \<open>count - i\<close>, the rounds left.\<close>

fun send_loop :: "nat \<Rightarrow> nat \<Rightarrow> bool \<Rightarrow> bytes \<Rightarrow> segment RingBuffer \<Rightarrow> segment RingBuffer go" where
  "send_loop 0 mss message buffer q = Inr q"
| "send_loop (Suc n) mss message buffer q =
    (let sz = min (length buffer) mss in
     go_bind (newSegment sz buffer) (\<lambda>seg.
       let seg' = seg\<lparr>seg_frg := (if message then of_nat n else 0)\<rparr>
       in send_loop n mss message (drop sz buffer) (RingBuffer_Push zero_segment seg' q)))"

definition Send :: "bytes \<Rightarrow> KCP \<Rightarrow> (int \<times> KCP) go" where
  "Send buffer k =
    (if length buffer = 0 then Inr (-1, k)
     else
       let mss = unat (k_mss k);
           (q, rest) =
             (if k_stream k \<noteq> 0 \<and> RingBuffer_Len (k_snd_queue k) > 0
              then RingBuffer_ForEachReverse (extend_fn mss) (k_snd_queue k) (Inr buffer)
              else (k_snd_queue k, Inr buffer))
       in go_bind rest (\<lambda>buffer'.
         if k_stream k \<noteq> 0 \<and> length buffer' = 0 then Inr (0, k\<lparr>k_snd_queue := q\<rparr>)
         else if length buffer' > mss \<and> mss = 0 then Inl DivByZero
         else
           let cnt = (if length buffer' \<le> mss then 1 else (length buffer' + mss - 1) div mss)
           in if cnt > 255 then Inr (-2, k\<lparr>k_snd_queue := q\<rparr>)
              else let cnt' = (if cnt = 0 then 1 else cnt)
                   in go_bind (send_loop cnt' mss (k_stream k = 0) buffer' q) (\<lambda>q'.
                        Inr (0, k\<lparr>k_snd_queue := q'\<rparr>))))"


section \<open>Acknowledgement bookkeeping\<close>

definition update_ack :: "i32 \<Rightarrow> KCP \<Rightarrow> KCP" where
  "update_ack rtt k =
    (let (srtt, rttvar) =
       (if k_rx_srtt k = 0 then (rtt, signed_drop_bit 1 rtt)
        else let delta = rtt - k_rx_srtt k;
                 srtt = k_rx_srtt k + signed_drop_bit 3 delta;
                 delta' = (if sint delta < 0 then - delta else delta);
                 rttvar = k_rx_rttvar k
             in (srtt, if sint rtt < sint (srtt - rttvar)
                       then rttvar + signed_drop_bit 5 (delta' - rttvar)
                       else rttvar + signed_drop_bit 2 (delta' - rttvar)));
         rto = srtt + imax (k_interval k) (push_bit 2 rttvar)
     in k\<lparr>k_rx_srtt := srtt, k_rx_rttvar := rttvar,
          k_rx_rto := ibound (k_rx_minrto k) rto IKCP_RTO_MAX\<rparr>)"

definition shrink_buf :: "KCP \<Rightarrow> KCP" where
  "shrink_buf k =
    (case RingBuffer_Peek (k_snd_buf k) of
       Some seg \<Rightarrow> k\<lparr>k_snd_una := seg_sn seg\<rparr>
     | None \<Rightarrow> k\<lparr>k_snd_una := k_snd_nxt k\<rparr>)"

definition ack_fn :: "u32 \<Rightarrow> (segment, unit) yield" where
  "ack_fn sn seg u =
    (if sn = seg_sn seg then (recycleSegment (seg\<lparr>seg_acked := 1\<rparr>), (), False)
     else if itimediff sn (seg_sn seg) < 0 then (seg, (), False)
     else (seg, (), True))"

definition parse_ack :: "u32 \<Rightarrow> KCP \<Rightarrow> KCP" where
  "parse_ack sn k =
    (if itimediff sn (k_snd_una k) < 0 \<or> itimediff sn (k_snd_nxt k) \<ge> 0 then k
     else k\<lparr>k_snd_buf := fst (RingBuffer_ForEach (ack_fn sn) (k_snd_buf k) ())\<rparr>)"

definition fastack_fn :: "u32 \<Rightarrow> u32 \<Rightarrow> i32 \<Rightarrow> (segment, int) yield" where
  "fastack_fn sn ts fastresend seg should =
    (if itimediff sn (seg_sn seg) < 0 then (seg, should, False)
     else if sn \<noteq> seg_sn seg \<and> itimediff (seg_ts seg) ts \<le> 0 then
       (if seg_fastack seg \<noteq> 0xFFFFFFFF
        then let f = seg_fastack seg + 1
             in (seg\<lparr>seg_fastack := f\<rparr>, if f \<ge> fastresend then 1 else should, True)
        else (seg, should, True))
     else (seg, should, True))"

definition parse_fastack :: "u32 \<Rightarrow> u32 \<Rightarrow> KCP \<Rightarrow> int \<times> KCP" where
  "parse_fastack sn ts k =
    (if itimediff sn (k_snd_una k) < 0 \<or> itimediff sn (k_snd_nxt k) \<ge> 0 then (0, k)
     else case RingBuffer_ForEach (fastack_fn sn ts (k_fastresend k)) (k_snd_buf k) 0 of
            (b, should) \<Rightarrow> (should, k\<lparr>k_snd_buf := b\<rparr>))"

definition una_fn :: "u32 \<Rightarrow> (segment, int) yield" where
  "una_fn una seg cnt =
    (if itimediff una (seg_sn seg) > 0 then (recycleSegment seg, cnt + 1, True)
     else (seg, cnt, False))"

definition parse_una :: "u32 \<Rightarrow> KCP \<Rightarrow> int \<times> KCP" where
  "parse_una una k =
    (case RingBuffer_ForEach (una_fn una) (k_snd_buf k) 0 of
       (b, cnt) \<Rightarrow> (cnt, k\<lparr>k_snd_buf := snd (RingBuffer_Discard zero_segment cnt b)\<rparr>))"

definition ack_push :: "u32 \<Rightarrow> u32 \<Rightarrow> KCP \<Rightarrow> KCP" where
  "ack_push sn ts k = k\<lparr>k_acklist := k_acklist k @ [\<lparr>ack_sn = sn, ack_ts = ts\<rparr>]\<rparr>"

definition parse_data :: "segment \<Rightarrow> KCP \<Rightarrow> (bool \<times> KCP) go" where
  "parse_data newseg k =
    (let sn = seg_sn newseg in
     if itimediff sn (k_rcv_nxt k + k_rcv_wnd k) \<ge> 0 \<or> itimediff sn (k_rcv_nxt k) < 0
     then Inr (True, k)
     else if \<not> segmentHeap_Has sn (k_rcv_buf k)
     then (if length (seg_data newseg) > mtuLimit then Inl SliceBounds
           else go_bind (move_ready (k\<lparr>k_rcv_buf := heap_Push newseg (k_rcv_buf k)\<rparr>)) (\<lambda>k'.
                  Inr (False, k')))
     else go_bind (move_ready k) (\<lambda>k'. Inr (True, k')))"

end
