(* ===== verification/Kcp_Send.thy ===== *)
theory Kcp_Send
  imports Kcp_Core
begin

text \<open>
  The sending half of the upper-level interface: how \<open>KCP.Send\<close> cuts a buffer into the
  fragments it queues, in message mode and in streaming mode.
\<close>

section \<open>Fragmentation: \<open>Send\<close>\<close>

text \<open>The reference: cut a buffer into pieces of at most \<open>m\<close> bytes, and number the pieces
  down to 0 in message mode.\<close>

function chunks :: "nat \<Rightarrow> bytes \<Rightarrow> bytes list" where
  "chunks m b = (if m = 0 \<or> length b \<le> m then [b] else take m b # chunks m (drop m b))"
  by pat_completeness auto
termination by (relation "measure (\<lambda>(m, b). length b)") auto

declare chunks.simps [simp del]

lemma chunks_small: "m = 0 \<or> length b \<le> m \<Longrightarrow> chunks m b = [b]"
  by (subst chunks.simps) auto

lemma chunks_big: "0 < m \<Longrightarrow> m < length b \<Longrightarrow> chunks m b = take m b # chunks m (drop m b)"
  by (subst chunks.simps) auto

lemma chunks_induct [case_names small big]:
  assumes "\<And>m (b :: bytes). m = 0 \<or> length b \<le> m \<Longrightarrow> P m b"
    and "\<And>m b. 0 < m \<Longrightarrow> m < length b \<Longrightarrow> P m (drop m b) \<Longrightarrow> P m b"
  shows "P m b"
  by (induction m b rule: chunks.induct) (metis assms linorder_not_less neq0_conv)

fun frag_segs :: "bool \<Rightarrow> bytes list \<Rightarrow> segment list" where
  "frag_segs message [] = []"
| "frag_segs message (c # cs) =
     zero_segment\<lparr>seg_data := c, seg_frg := (if message then of_nat (length cs) else 0)\<rparr>
       # frag_segs message cs"

lemma chunks_ne [simp]: "chunks m b \<noteq> []"
  by (subst chunks.simps) simp

lemma concat_chunks [simp]: "concat (chunks m b) = b"
  by (induction m b rule: chunks_induct) (simp_all add: chunks_small chunks_big)

lemma chunks_le: "0 < m \<Longrightarrow> c \<in> set (chunks m b) \<Longrightarrow> length c \<le> m"
  by (induction m b rule: chunks_induct) (auto simp: chunks_small chunks_big)

lemma chunks_nonempty: "b \<noteq> [] \<Longrightarrow> c \<in> set (chunks m b) \<Longrightarrow> c \<noteq> []"
  by (induction m b rule: chunks_induct) (auto simp: chunks_small chunks_big)

lemma div_chunk: "0 < m \<Longrightarrow> m < n \<Longrightarrow> (n + m - 1) div m = Suc ((n - m + m - 1) div m)" for m n :: nat
proof -
  assume "0 < m" and "m < n"
  then have "n + m - 1 = (n - m + m - 1) + m" by simp
  then show ?thesis using \<open>0 < m\<close> by (metis div_add_self2 Suc_eq_plus1 less_not_refl3)
qed

lemma length_chunks: "0 < m \<Longrightarrow> b \<noteq> [] \<Longrightarrow> length (chunks m b) = (length b + m - 1) div m"
proof (induction m b rule: chunks_induct)
  case (small m b)
  then have "1 \<le> length b" "length b \<le> m" by (auto simp: Suc_le_eq)
  then have "(length b + m - 1) div m = 1"
    by (intro div_nat_eqI) auto
  with small show ?case by (simp add: chunks_small)
next
  case (big m b)
  then have "length (chunks m (drop m b)) = (length b - m + m - 1) div m" by simp
  with big div_chunk [of m "length b"] show ?case by (simp only: chunks_big length_Cons)
qed

lemma length_frag_segs [simp]: "length (frag_segs m cs) = length cs"
  by (induction cs) auto

lemma map_data_frag_segs [simp]: "map seg_data (frag_segs m cs) = cs"
  by (induction cs) (auto simp: zero_segment_def)

lemma frag_segs_frg: "i < length cs \<Longrightarrow>
    seg_frg (frag_segs m cs ! i) = (if m then of_nat (length cs - 1 - i) else 0)"
  by (induction cs arbitrary: i) (auto simp: nth_Cons split: nat.split)

lemma send_loop_chunks:
  assumes "0 < mss" and "mss \<le> mtuLimit" and "rb_inv q"
  shows "\<exists>q'. send_loop (length (chunks mss b)) mss message b q = Inr q' \<and> rb_inv q'
    \<and> rb_list q' = rb_list q @ frag_segs message (chunks mss b)"
  using assms
proof (induction mss b arbitrary: q rule: chunks_induct)
  case (small mss b)
  then show ?case by (simp add: chunks_small newSegment_def RingBuffer_Push_spec min_def)
next
  case (big mss b)
  let ?s = "zero_segment\<lparr>seg_data := take mss b,
      seg_frg := (if message then of_nat (length (chunks mss (drop mss b))) else 0)\<rparr>"
  let ?q = "RingBuffer_Push zero_segment ?s q"
  have "rb_inv ?q" and l: "rb_list ?q = rb_list q @ [?s]"
    using big.prems by (simp_all add: RingBuffer_Push_spec)
  then obtain q' where "send_loop (length (chunks mss (drop mss b))) mss message (drop mss b) ?q = Inr q'"
    and "rb_inv q'" and "rb_list q' = rb_list ?q @ frag_segs message (chunks mss (drop mss b))"
    using big.IH [of ?q] big.prems by auto
  then show ?case
    using big.hyps big.prems l by (simp add: chunks_big newSegment_def min_def Let_def)
qed

lemma Send_message:
  assumes "k_stream k = 0" and "b \<noteq> []" and "0 < unat (k_mss k)" and "unat (k_mss k) \<le> mtuLimit"
    and "rb_inv (k_snd_queue k)"
  shows "length (chunks (unat (k_mss k)) b) > 255 \<Longrightarrow> Send b k = Inr (-2, k)"
    and "length (chunks (unat (k_mss k)) b) \<le> 255 \<Longrightarrow>
      \<exists>q. Send b k = Inr (0, k\<lparr>k_snd_queue := q\<rparr>) \<and> rb_inv q
        \<and> rb_list q = rb_list (k_snd_queue k) @ frag_segs True (chunks (unat (k_mss k)) b)"
proof -
  let ?m = "unat (k_mss k)"
  have cnt: "(if length b \<le> ?m then 1 else (length b + ?m - 1) div ?m) = length (chunks ?m b)"
    using assms(2,3) length_chunks [of ?m b] by (auto simp: chunks_small)
  have S: "Send b k = (if length (chunks ?m b) > 255 then Inr (-2, k)
      else go_bind (send_loop (length (chunks ?m b)) ?m True b (k_snd_queue k)) (\<lambda>q'.
             Inr (0, k\<lparr>k_snd_queue := q'\<rparr>)))"
    using assms unfolding Send_def by (simp add: Let_def cnt)
  show "length (chunks ?m b) > 255 \<Longrightarrow> Send b k = Inr (-2, k)" using S by simp
  show "length (chunks ?m b) \<le> 255 \<Longrightarrow>
      \<exists>q. Send b k = Inr (0, k\<lparr>k_snd_queue := q\<rparr>) \<and> rb_inv q
        \<and> rb_list q = rb_list (k_snd_queue k) @ frag_segs True (chunks ?m b)"
    using S send_loop_chunks [OF assms(3-5), of b True] by auto
qed


section \<open>Streaming mode\<close>

text \<open>How many bytes the last queued segment still takes, and the queue once it has taken them.\<close>

definition tail_room :: "nat \<Rightarrow> segment list \<Rightarrow> nat" where
  "tail_room m xs = (if xs = [] then 0 else m - length (seg_data (last xs)))"

definition extend_tail :: "bytes \<Rightarrow> segment list \<Rightarrow> segment list" where
  "extend_tail b xs =
    (if xs = [] then [] else butlast xs @ [(last xs)\<lparr>seg_data := seg_data (last xs) @ b\<rparr>])"

lemma data_extend_tail:
  "xs \<noteq> [] \<Longrightarrow> concat (map seg_data (extend_tail b xs)) = concat (map seg_data xs) @ b"
  by (cases xs rule: rev_cases) (auto simp: extend_tail_def)

lemma extend_tail_le:
  "\<forall>s \<in> set xs. length (seg_data s) \<le> m \<Longrightarrow> length b \<le> tail_room m xs \<Longrightarrow>
     \<forall>s \<in> set (extend_tail b xs). length (seg_data s) \<le> m"
  by (cases xs rule: rev_cases) (auto simp: extend_tail_def tail_room_def)

lemma extend_last:
  assumes "rb_inv q" and "rb_list q \<noteq> []" and "m \<le> mtuLimit"
  shows "\<exists>q'. RingBuffer_ForEachReverse (extend_fn m) q (Inr b)
        = (q', Inr (drop (min (length b) (tail_room m (rb_list q))) b))
      \<and> rb_inv q' \<and> rb_list q' = extend_tail (take (min (length b) (tail_room m (rb_list q))) b) (rb_list q)"
proof -
  obtain q' r where f: "RingBuffer_ForEachReverse (extend_fn m) q (Inr b) = (q', r)" by force
  obtain xs x where l: "rb_list q = xs @ [x]" using assms(2) by (metis rev_exhaust)
  let ?e = "min (length b) (m - length (seg_data x))"
  have e: "length (seg_data x) + ?e \<le> mtuLimit \<or> \<not> length (seg_data x) < m"
    using assms(3) by (auto simp: min_def)
  have x: "extend_fn m x (Inr b) =
      (x\<lparr>seg_data := seg_data x @ take ?e b\<rparr>, Inr (drop ?e b), False)"
    using e by (auto simp: extend_fn_def Let_def)
  obtain c where "list_iter (extend_fn m) (rev (rb_list q)) (Inr b) = (rev (rb_list q'), r, c)"
    and "rb_inv q'"
    using RingBuffer_ForEachReverse_spec [OF assms(1) f] by blast
  then have "rev (rb_list q') = x\<lparr>seg_data := seg_data x @ take ?e b\<rparr> # rev xs"
    and "r = Inr (drop ?e b)" and "rb_inv q'"
    by (simp_all add: l x)
  then have "rb_list q' = xs @ [x\<lparr>seg_data := seg_data x @ take ?e b\<rparr>]"
    and "r = Inr (drop ?e b)" and "rb_inv q'"
    by (simp_all only: rev_swap rev.simps rev_rev_ident)
  moreover have "tail_room m (rb_list q) = m - length (seg_data x)"
    by (simp add: tail_room_def l)
  moreover have "extend_tail (take ?e b) (rb_list q) = xs @ [x\<lparr>seg_data := seg_data x @ take ?e b\<rparr>]"
    by (simp add: extend_tail_def l)
  ultimately show ?thesis using f by (intro exI [of _ q']) simp
qed

lemma Send_stream:
  assumes str: "k_stream k \<noteq> 0" and "b \<noteq> []" and mss: "0 < unat (k_mss k)" "unat (k_mss k) \<le> mtuLimit"
    and inv: "rb_inv (k_snd_queue k)"
    and e: "e = min (length b) (tail_room (unat (k_mss k)) (rb_list (k_snd_queue k)))"
  shows "\<exists>q. rb_inv q
    \<and> (if drop e b = []
       then Send b k = Inr (0, k\<lparr>k_snd_queue := q\<rparr>)
          \<and> rb_list q = extend_tail (take e b) (rb_list (k_snd_queue k))
       else if length (chunks (unat (k_mss k)) (drop e b)) > 255
       then Send b k = Inr (-2, k\<lparr>k_snd_queue := q\<rparr>)
          \<and> rb_list q = extend_tail (take e b) (rb_list (k_snd_queue k))
       else Send b k = Inr (0, k\<lparr>k_snd_queue := q\<rparr>)
          \<and> rb_list q = extend_tail (take e b) (rb_list (k_snd_queue k))
                        @ frag_segs False (chunks (unat (k_mss k)) (drop e b)))"
proof -
  let ?m = "unat (k_mss k)" and ?q = "k_snd_queue k" and ?r = "drop e b"
  let ?start = "if k_stream k \<noteq> 0 \<and> RingBuffer_Len ?q > 0
      then RingBuffer_ForEachReverse (extend_fn ?m) ?q (Inr b) else (?q, Inr b)"
  obtain q where st: "?start = (q, Inr ?r)" and q: "rb_inv q"
    and l: "rb_list q = extend_tail (take e b) (rb_list ?q)"
  proof (cases "rb_list ?q = []")
    case True
    then have "RingBuffer_Len ?q = 0" by (metis length_rb_list list.size(3))
    with True show ?thesis using that [of ?q] inv e by (simp add: tail_room_def extend_tail_def)
  next
    case False
    then have "RingBuffer_Len ?q > 0" by (metis length_greater_0_conv length_rb_list)
    with extend_last [OF inv False mss(2), of b] show ?thesis using that str e by auto
  qed
  have cnt: "(if length ?r \<le> ?m then 1 else (length ?r + ?m - 1) div ?m) = length (chunks ?m ?r)"
    if "?r \<noteq> []"
    using that mss(1) length_chunks [of ?m ?r] by (auto simp: chunks_small)
  have S: "Send b k = (if ?r = [] then Inr (0, k\<lparr>k_snd_queue := q\<rparr>)
      else if length (chunks ?m ?r) > 255 then Inr (-2, k\<lparr>k_snd_queue := q\<rparr>)
      else go_bind (send_loop (length (chunks ?m ?r)) ?m False ?r q) (\<lambda>q'.
             Inr (0, k\<lparr>k_snd_queue := q'\<rparr>)))"
    unfolding Send_def st Let_def using assms(1,2) mss(1) cnt
    by (simp del: drop_eq_Nil)
  obtain q' where "send_loop (length (chunks ?m ?r)) ?m False ?r q = Inr q'" "rb_inv q'"
    "rb_list q' = rb_list q @ frag_segs False (chunks ?m ?r)"
    using send_loop_chunks [OF mss q, of ?r False] by auto
  with S q l show ?thesis
    by (intro exI [of _ "if ?r = [] \<or> length (chunks ?m ?r) > 255 then q else q'"])
      (simp del: drop_eq_Nil)
qed


section \<open>Properties\<close>

lemma length_chunks_le_iff:
  "0 < m \<Longrightarrow> b \<noteq> [] \<Longrightarrow> length (chunks m b) \<le> n \<longleftrightarrow> length b \<le> n * m"
proof -
  assume m: "0 < m" and b: "b \<noteq> []"
  have "length (chunks m b) \<le> n \<longleftrightarrow> \<not> Suc n \<le> (length b + m - 1) div m"
    using length_chunks [OF m b] by auto
  also have "\<dots> \<longleftrightarrow> \<not> Suc n * m \<le> length b + m - 1"
    using m by (simp only: less_eq_div_iff_mult_less_eq)
  also have "\<dots> \<longleftrightarrow> length b \<le> n * m" using m by auto
  finally show ?thesis .
qed

lemma concat_frag_segs [simp]: "concat (map seg_data (frag_segs m cs)) = concat cs"
  by simp

lemma frag_segs_le: "s \<in> set (frag_segs m (chunks n b)) \<Longrightarrow> 0 < n \<Longrightarrow> length (seg_data s) \<le> n"
  using chunks_le [of n _ b] map_data_frag_segs [of m "chunks n b"] by (metis image_eqI image_set)

lemma unat_frag_segs_frg:
  "i < length cs \<Longrightarrow> length cs \<le> 256 \<Longrightarrow> unat (seg_frg (frag_segs True cs ! i)) = length cs - 1 - i"
  by (simp add: frag_segs_frg unat_of_nat del: of_nat_diff)


lemma NewKCP_send_ready:
  "unat (k_mss (NewKCP conv clock snmp)) = 1376" "rb_inv (k_snd_queue (NewKCP conv clock snmp))"
  "rb_list (k_snd_queue (NewKCP conv clock snmp)) = []" "k_stream (NewKCP conv clock snmp) = 0"
  by (simp_all add: NewKCP_def ikcp_consts NewRingBuffer_inv)


text \<open>Streaming mode. A successful \<open>Send\<close> appends exactly the buffer to the byte stream held
  in \<open>snd_queue\<close>, with no segment beyond \<open>mss\<close>; but the \<open>-2\<close> error is not atomic: the part of the
  buffer that fitted into the last queued segment has already been queued when it is returned.\<close>

theorem send_stream_appends:
  assumes "k_stream k \<noteq> 0" and "b \<noteq> []" and "0 < unat (k_mss k)" and "unat (k_mss k) \<le> mtuLimit"
    and "rb_inv (k_snd_queue k)" and "\<forall>s \<in> set (rb_list (k_snd_queue k)). length (seg_data s) \<le> unat (k_mss k)"
  shows "\<exists>r q. Send b k = Inr (r, k\<lparr>k_snd_queue := q\<rparr>) \<and> rb_inv q
    \<and> (\<forall>s \<in> set (rb_list q). length (seg_data s) \<le> unat (k_mss k))
    \<and> r = (if length b > tail_room (unat (k_mss k)) (rb_list (k_snd_queue k)) + 255 * unat (k_mss k)
           then -2 else 0)
    \<and> concat (map seg_data (rb_list q)) = concat (map seg_data (rb_list (k_snd_queue k)))
        @ (if r = 0 then b else take (tail_room (unat (k_mss k)) (rb_list (k_snd_queue k))) b)"
proof -
  let ?m = "unat (k_mss k)" and ?xs = "rb_list (k_snd_queue k)"
  define e where "e = min (length b) (tail_room ?m ?xs)"
  obtain q where q: "rb_inv q"
    "if drop e b = [] then Send b k = Inr (0, k\<lparr>k_snd_queue := q\<rparr>) \<and> rb_list q = extend_tail (take e b) ?xs
     else if length (chunks ?m (drop e b)) > 255
     then Send b k = Inr (-2, k\<lparr>k_snd_queue := q\<rparr>) \<and> rb_list q = extend_tail (take e b) ?xs
     else Send b k = Inr (0, k\<lparr>k_snd_queue := q\<rparr>)
        \<and> rb_list q = extend_tail (take e b) ?xs @ frag_segs False (chunks ?m (drop e b))"
    using Send_stream [OF assms(1-5) e_def] by blast
  have le: "\<forall>s \<in> set (extend_tail (take e b) ?xs). length (seg_data s) \<le> ?m"
    using assms(6) by (intro extend_tail_le) (auto simp: e_def)
  have dat: "concat (map seg_data (extend_tail (take e b) ?xs)) = concat (map seg_data ?xs) @ take e b"
    using data_extend_tail [of ?xs]
    by (cases "?xs = []") (simp_all add: e_def tail_room_def extend_tail_def [of _ "[]"])
  have big: "length (chunks ?m (drop e b)) > 255 \<longleftrightarrow> length b > tail_room ?m ?xs + 255 * ?m"
    if "drop e b \<noteq> []"
    using that assms(3) length_chunks_le_iff [of ?m "drop e b" 255] by (auto simp: e_def min_def not_le)
  have te: "take e b = take (tail_room ?m ?xs) b" by (simp add: e_def min_def)
  show ?thesis
  proof (cases "drop e b = []")
    case True
    then have "length b \<le> tail_room ?m ?xs" and "take e b = b" by (auto simp: e_def min_def split: if_splits)
    then show ?thesis using q True le dat by (intro exI [of _ 0] exI [of _ q]) simp
  next
    case ne: False
    show ?thesis
    proof (cases "length (chunks ?m (drop e b)) > 255")
      case True
      then show ?thesis using q ne le dat big [OF ne] te by (intro exI [of _ "-2"] exI [of _ q]) simp
    next
      case False
      then show ?thesis
        using q ne le dat big [OF ne] frag_segs_le [of _ False ?m "drop e b"] assms(3)
        by (intro exI [of _ 0] exI [of _ q]) auto
    qed
  qed
qed

theorem send_stream_appends_witness:
  "\<exists>q. Send [1, 2] ((NewKCP 7 (\<lambda>_. 0) newSnmp)\<lparr>k_stream := 1\<rparr>)
      = Inr (0, (NewKCP 7 (\<lambda>_. 0) newSnmp)\<lparr>k_stream := 1, k_snd_queue := q\<rparr>)
    \<and> concat (map seg_data (rb_list q)) = [1, 2]"
  using send_stream_appends [of "(NewKCP 7 (\<lambda>_. 0) newSnmp)\<lparr>k_stream := 1\<rparr>" "[1, 2]"]
    NewKCP_send_ready [of 7 "\<lambda>_. 0" newSnmp]
  by (auto simp: mtuLimit_def)

text \<open>The buffer pool bounds the segment size. \<open>SetMtu\<close> accepts any \<open>mtu\<close> from 50 up, but the
  pool's buffers hold \<open>mtuLimit\<close> = 1500 bytes: with a larger \<open>mss\<close>, sending a message between the
  two sizes panics in \<open>newSegment\<close>. With \<open>mtu\<close> at most 1524, \<open>Send\<close> never panics.\<close>

theorem send_panics_beyond_pool:
  assumes "k_stream k = 0" and "mtu \<le> 2 ^ 31"
  shows "(int (length b) + int IKCP_OVERHEAD \<le> mtu \<and> length b > mtuLimit \<longrightarrow>
            Send b (snd (SetMtu mtu k)) = Inl SliceBounds)
    \<and> (50 \<le> mtu \<and> mtu \<le> 1524 \<and> rb_inv (k_snd_queue k) \<longrightarrow>
            (\<exists>r k'. Send b (snd (SetMtu mtu k)) = Inr (r, k')))"
proof (intro conjI impI)
  let ?k = "snd (SetMtu mtu k)"
  have mss: "unat (k_mss ?k) = nat mtu - 24" if "50 \<le> mtu"
  proof -
    have "uint (word_of_int mtu :: u32) = mtu"
      using that assms(2) by (simp add: uint_word_of_int)
    then have u: "unat (word_of_int mtu :: u32) = nat mtu" by (metis nat_uint_eq)
    have "unat (word_of_int mtu - 24 :: u32) = nat mtu - 24"
      using that u by (subst unat_sub) (auto simp: word_le_nat_alt)
    then show ?thesis using that by (simp add: SetMtu_def ikcp_consts Let_def)
  qed
  have same: "k_stream ?k = 0" "k_snd_queue ?k = k_snd_queue k"
    using assms(1) by (simp_all add: SetMtu_def Let_def)
  {
    assume a: "int (length b) + int IKCP_OVERHEAD \<le> mtu \<and> length b > mtuLimit"
    then have "50 \<le> mtu" and "length b \<le> nat mtu - 24" "b \<noteq> []" by (auto simp: ikcp_consts mtuLimit_def)
    then show "Send b ?k = Inl SliceBounds"
      using a mss same unfolding Send_def by (simp add: Let_def newSegment_def)
  }
  {
    assume a: "50 \<le> mtu \<and> mtu \<le> 1524 \<and> rb_inv (k_snd_queue k)"
    then have m: "0 < unat (k_mss ?k)" "unat (k_mss ?k) \<le> mtuLimit" "rb_inv (k_snd_queue ?k)"
      using mss same by (auto simp: mtuLimit_def)
    show "\<exists>r k'. Send b ?k = Inr (r, k')"
    proof (cases "b = []")
      case True
      then show ?thesis by (simp add: Send_def)
    next
      case False
      then show ?thesis using Send_message [OF same(1) False m] by (meson not_le_imp_less)
    qed
  }
qed

theorem send_panics_beyond_pool_witness:
  "Send (replicate 1600 0) (snd (SetMtu 2000 (NewKCP 7 (\<lambda>_. 0) newSnmp))) = Inl SliceBounds"
  using send_panics_beyond_pool [of "NewKCP 7 (\<lambda>_. 0) newSnmp" 2000 "replicate 1600 0"]
    NewKCP_send_ready [of 7 "\<lambda>_. 0" newSnmp]
  by (simp add: mtuLimit_def ikcp_consts)

end
