(* ===== verification/Kcp_Recv.thy ===== *)
theory Kcp_Recv
  imports Kcp_Send
begin

text \<open>
  The receiving half: \<open>parse_data\<close> puts a segment into the reorder buffer and moves what is in
  order to \<open>rcv_queue\<close>; \<open>PeekSize\<close> and \<open>Recv\<close> reassemble messages from that queue. The lemmas
  rest on the reorder-buffer interface (\<open>rbuf\<close>) and the queue facts of the ring buffer.
\<close>

text \<open>What the receive side keeps: a well-formed queue, and a reorder buffer whose numbers lie
  in the half-window above \<open>rcv_nxt\<close>.\<close>

definition rcv_ok :: "KCP \<Rightarrow> bool" where
  "rcv_ok k \<longleftrightarrow> rb_inv (k_rcv_queue k) \<and> seg_heap_ok (k_rcv_nxt k) (k_rcv_buf k)"

text \<open>The routines of the receive side change only these three fields.\<close>

definition rcv_frame :: "KCP \<Rightarrow> KCP \<Rightarrow> bool" where
  "rcv_frame k k' \<longleftrightarrow> (\<exists>b q n. k' = k\<lparr>k_rcv_buf := b, k_rcv_queue := q, k_rcv_nxt := n\<rparr>)"

text \<open>Consecutive sequence numbers, modulo \<open>2 ^ 32\<close>.\<close>

fun sns_from :: "u32 \<Rightarrow> segment list \<Rightarrow> bool" where
  "sns_from n [] = True"
| "sns_from n (s # xs) = (seg_sn s = n \<and> sns_from (n + 1) xs)"

text \<open>The segments of the first message in a queue (up to the first \<open>frg = 0\<close>), and the rest.\<close>

fun take_msg :: "segment list \<Rightarrow> segment list \<times> segment list" where
  "take_msg [] = ([], [])"
| "take_msg (s # xs) =
    (if seg_frg s = 0 then ([s], xs) else (let (a, b) = take_msg xs in (s # a, b)))"

abbreviation payload :: "segment list \<Rightarrow> bytes" where
  "payload xs \<equiv> concat (map seg_data xs)"

lemma sns_from_append [simp]:
  "sns_from n (xs @ ys) \<longleftrightarrow> sns_from n xs \<and> sns_from (n + of_nat (length xs)) ys"
  by (induction xs arbitrary: n) (auto simp: add_ac)

lemma sns_from_nth: "sns_from n xs \<Longrightarrow> i < length xs \<Longrightarrow> seg_sn (xs ! i) = n + of_nat i"
  by (induction xs arbitrary: n i) (auto simp: nth_Cons split: nat.split)

lemma sns_from_iff: "sns_from n xs \<longleftrightarrow> (\<forall>i < length xs. seg_sn (xs ! i) = n + of_nat i)"
proof (induction xs arbitrary: n)
  case (Cons s xs)
  have "sns_from n (s # xs) \<longleftrightarrow> seg_sn s = n \<and> (\<forall>i < length xs. seg_sn (xs ! i) = n + 1 + of_nat i)"
    using Cons by simp
  also have "\<dots> \<longleftrightarrow> (\<forall>i < length (s # xs). seg_sn ((s # xs) ! i) = n + of_nat i)"
    by (auto simp: nth_Cons add_ac split: nat.split)
  finally show ?case .
qed simp

lemma rcv_frame_refl [simp, intro]: "rcv_frame k k"
  unfolding rcv_frame_def
  by (rule exI [of _ "k_rcv_buf k"], rule exI [of _ "k_rcv_queue k"], rule exI [of _ "k_rcv_nxt k"]) simp

lemma rcv_frame_trans: "rcv_frame k k' \<Longrightarrow> rcv_frame k' k'' \<Longrightarrow> rcv_frame k k''"
  unfolding rcv_frame_def by (elim exE, intro exI) simp

lemma rcv_frame_upd [simp, intro]:
  "rcv_frame k (k\<lparr>k_rcv_buf := b\<rparr>)" "rcv_frame k (k\<lparr>k_rcv_queue := q\<rparr>)"
  "rcv_frame k (k\<lparr>k_rcv_buf := b, k_rcv_queue := q, k_rcv_nxt := n\<rparr>)"
proof -
  show "rcv_frame k (k\<lparr>k_rcv_buf := b\<rparr>)" unfolding rcv_frame_def
    by (rule exI [of _ b], rule exI [of _ "k_rcv_queue k"], rule exI [of _ "k_rcv_nxt k"]) simp
  show "rcv_frame k (k\<lparr>k_rcv_queue := q\<rparr>)" unfolding rcv_frame_def
    by (rule exI [of _ "k_rcv_buf k"], rule exI [of _ q], rule exI [of _ "k_rcv_nxt k"]) simp
qed (auto simp: rcv_frame_def)

lemma rcv_frame_wnd: "rcv_frame k k' \<Longrightarrow> k_rcv_wnd k' = k_rcv_wnd k"
  by (auto simp: rcv_frame_def)

lemma take_msg_append: "fst (take_msg xs) @ snd (take_msg xs) = xs"
  by (induction xs) (auto split: prod.splits)


section \<open>Moving segments in order\<close>

text \<open>The exit condition of the loop: the next segment is missing or the queue is full.\<close>

definition move_done :: "KCP \<Rightarrow> bool" where
  "move_done k \<longleftrightarrow> RingBuffer_Len (k_rcv_queue k) \<ge> unat (k_rcv_wnd k)
     \<or> k_rcv_nxt k \<notin> seg_sn ` set (segments (k_rcv_buf k))"

text \<open>The loop's effect: \<open>moved\<close> went from the reorder buffer to the queue, in sequence.\<close>

definition moved_to :: "KCP \<Rightarrow> segment list \<Rightarrow> KCP \<Rightarrow> bool" where
  "moved_to k moved k' \<longleftrightarrow> rcv_ok k' \<and> rcv_frame k k' \<and> move_done k'
     \<and> rb_list (k_rcv_queue k') = rb_list (k_rcv_queue k) @ moved
     \<and> sns_from (k_rcv_nxt k) moved \<and> k_rcv_nxt k' = k_rcv_nxt k + of_nat (length moved)
     \<and> mset (segments (k_rcv_buf k)) = mset moved + mset (segments (k_rcv_buf k'))"

lemma move_ready_spec: "rcv_ok k \<Longrightarrow> \<exists>moved k'. move_ready k = Inr k' \<and> moved_to k moved k'"
proof (induction k rule: move_ready.induct)
  case (1 k)
  let ?h = "k_rcv_buf k" and ?n = "k_rcv_nxt k"
  have ok: "seg_heap_ok ?n ?h" and q: "rb_inv (k_rcv_queue k)" using 1 by (auto simp: rcv_ok_def)
  show ?case
  proof (cases "segments ?h = []")
    case True
    then show ?thesis
      using 1(2) by (intro exI [of _ "[]"] exI [of _ k])
        (subst move_ready.simps, simp add: segmentHeap_Len_def moved_to_def move_done_def)
  next
    case ne: False
    then obtain s h where p: "heap_Pop ?h = Inr (s, h)" and ok': "seg_heap_ok ?n h"
      and m: "mset (segments ?h) = add_mset s (mset (segments h))"
      and mn: "\<forall>y \<in># mset (segments ?h). unat (seg_sn s - ?n) \<le> unat (seg_sn y - ?n)"
      using rbuf.pop_min [OF ok] by (metis mset_zero_iff)
    let ?go = "seg_sn s = ?n \<and> RingBuffer_Len (k_rcv_queue k) < unat (k_rcv_wnd k)"
    let ?k = "k\<lparr>k_rcv_buf := h, k_rcv_queue := RingBuffer_Push zero_segment s (k_rcv_queue k),
                k_rcv_nxt := ?n + 1\<rparr>"
    have len: "segmentHeap_Len ?h \<noteq> 0" using ne by (simp add: segmentHeap_Len_def)
    have st: "move_ready k = (if ?go then move_ready ?k else Inr (k\<lparr>k_rcv_buf := heap_Push s h\<rparr>))"
      using len p by (subst move_ready.simps) simp
    show ?thesis
    proof (cases ?go)
      case True
      then have "rcv_ok ?k"
        using rbuf.pop_base [OF ok p] ne q by (auto simp: rcv_ok_def RingBuffer_Push_spec)
      then obtain mv k' where "move_ready ?k = Inr k'" "moved_to ?k mv k'"
        using 1(1) [OF len p refl True] by blast
      then show ?thesis
        using st True m q
        by (intro exI [of _ "s # mv"] exI [of _ k'])
          (auto simp: moved_to_def RingBuffer_Push_spec add_ac intro: rcv_frame_trans [rotated])
    next
      case nogo: False
      let ?k' = "k\<lparr>k_rcv_buf := heap_Push s h\<rparr>"
      have bk: "seg_heap_ok ?n (heap_Push s h)" "mset (segments (heap_Push s h)) = mset (segments ?h)"
        using rbuf.pop_push_back [OF ok p] ne by auto
      have "move_done ?k'"
      proof (cases "seg_sn s = ?n")
        case True
        then show ?thesis using nogo by (simp add: move_done_def)
      next
        case False
        then have "unat (seg_sn s - ?n) > 0" by (simp add: unat_gt_0)
        then have "?n \<notin> seg_sn ` set (segments ?h)" using mn by fastforce
        moreover have "set (segments (heap_Push s h)) = set (segments ?h)"
          using bk(2) by (metis set_mset_mset)
        ultimately show ?thesis by (simp add: move_done_def)
      qed
      then show ?thesis
        using st nogo bk q by (intro exI [of _ "[]"] exI [of _ ?k'])
          (auto simp: moved_to_def rcv_ok_def)
    qed
  qed
qed


section \<open>\<open>parse_data\<close>\<close>

text \<open>The receive window: the numbers \<open>parse_data\<close> does not turn away at once.\<close>

definition in_rcv_window :: "u32 \<Rightarrow> KCP \<Rightarrow> bool" where
  "in_rcv_window sn k \<longleftrightarrow> itimediff sn (k_rcv_nxt k + k_rcv_wnd k) < 0 \<and> itimediff sn (k_rcv_nxt k) \<ge> 0"

lemma in_rcv_window_less: "in_rcv_window sn k \<Longrightarrow> unat (sn - k_rcv_nxt k) < 2 ^ 31"
  by (simp add: in_rcv_window_def itimediff_def not_less [symmetric] sint_neg_iff)

lemma in_rcv_window_iff:
  assumes "unat (k_rcv_wnd k) < 2 ^ 31"
  shows "in_rcv_window sn k \<longleftrightarrow> unat (sn - k_rcv_nxt k) < unat (k_rcv_wnd k)"
proof -
  have "sn - (k_rcv_nxt k + k_rcv_wnd k) = (sn - k_rcv_nxt k) - k_rcv_wnd k" by simp
  then show ?thesis
    using assms in_rcv_window_less [of sn k] sint_diff_neg_window [of "sn" "k_rcv_nxt k" "k_rcv_nxt k + k_rcv_wnd k"]
    by (auto simp: in_rcv_window_def itimediff_def sint_neg_iff not_less [symmetric])
qed

lemma rcv_buf_Has:
  "rcv_ok k \<Longrightarrow> segmentHeap_Has sn (k_rcv_buf k) \<longleftrightarrow> sn \<in> seg_sn ` set (segments (k_rcv_buf k))"
  by (simp add: rcv_ok_def segmentHeap_Has_def seg_heap_ok_def)

lemma parse_data_outside: "\<not> in_rcv_window (seg_sn s) k \<Longrightarrow> parse_data s k = Inr (True, k)"
  by (auto simp: parse_data_def in_rcv_window_def Let_def)

lemma parse_data_inside:
  assumes ok: "rcv_ok k" and w: "in_rcv_window (seg_sn s) k" and len: "length (seg_data s) \<le> mtuLimit"
  shows "\<exists>moved k'. parse_data s k = Inr (seg_sn s \<in> seg_sn ` set (segments (k_rcv_buf k)), k')
    \<and> rcv_ok k' \<and> rcv_frame k k' \<and> move_done k'
    \<and> rb_list (k_rcv_queue k') = rb_list (k_rcv_queue k) @ moved
    \<and> sns_from (k_rcv_nxt k) moved \<and> k_rcv_nxt k' = k_rcv_nxt k + of_nat (length moved)
    \<and> (if seg_sn s \<in> seg_sn ` set (segments (k_rcv_buf k)) then mset (segments (k_rcv_buf k))
       else add_mset s (mset (segments (k_rcv_buf k)))) = mset moved + mset (segments (k_rcv_buf k'))"
proof (cases "seg_sn s \<in> seg_sn ` set (segments (k_rcv_buf k))")
  case True
  then have "segmentHeap_Has (seg_sn s) (k_rcv_buf k)"
    by (simp add: rcv_buf_Has [OF ok])
  then have "parse_data s k = go_bind (move_ready k) (\<lambda>k'. Inr (True, k'))"
    using w by (auto simp: parse_data_def in_rcv_window_def Let_def)
  with move_ready_spec [OF ok] True show ?thesis by (auto simp: moved_to_def)
next
  case False
  then have nh: "\<not> segmentHeap_Has (seg_sn s) (k_rcv_buf k)"
    by (simp add: rcv_buf_Has [OF ok])
  let ?k = "k\<lparr>k_rcv_buf := heap_Push s (k_rcv_buf k)\<rparr>"
  from nh have p: "parse_data s k = go_bind (move_ready ?k) (\<lambda>k'. Inr (False, k'))"
    using w len by (auto simp: parse_data_def in_rcv_window_def Let_def)
  have "rcv_ok ?k"
    using ok False in_rcv_window_less [OF w] heap_Push_ok by (simp add: rcv_ok_def)
  then obtain mv k' where "move_ready ?k = Inr k'" and mv: "moved_to ?k mv k'"
    using move_ready_spec by blast
  moreover have "rcv_frame k k'" using mv rcv_frame_trans [of k ?k k'] by (simp add: moved_to_def)
  ultimately show ?thesis using p False by (auto simp: moved_to_def)
qed


section \<open>\<open>PeekSize\<close> and \<open>Recv\<close>\<close>

lemma peek_iter:
  "\<exists>c. list_iter peek_fn xs n = (xs, n + length (payload (fst (take_msg xs))), c)"
proof (induction xs arbitrary: n)
  case (Cons s xs)
  show ?case
  proof (cases "seg_frg s = 0")
    case False
    then show ?thesis
      using Cons [of "n + length (seg_data s)"] by (auto simp: peek_fn_def split: prod.splits)
  qed (auto simp: peek_fn_def)
qed auto

text \<open>Whether the queue starts with a message that \<open>PeekSize\<close> takes to be complete.\<close>

fun msg_ready :: "segment list \<Rightarrow> bool" where
  "msg_ready [] = False"
| "msg_ready (s # xs) = (seg_frg s = 0 \<or> unat (seg_frg s + 1) \<le> Suc (length xs))"

lemma PeekSize_eq:
  assumes "rb_inv (k_rcv_queue k)"
  shows "PeekSize k = (if msg_ready (rb_list (k_rcv_queue k))
    then int (length (payload (fst (take_msg (rb_list (k_rcv_queue k)))))) else -1)"
proof -
  let ?q = "k_rcv_queue k"
  obtain q' n where f: "RingBuffer_ForEach peek_fn ?q 0 = (q', n)" by force
  have n: "n = length (payload (fst (take_msg (rb_list ?q))))"
    using RingBuffer_ForEach_spec(2) [OF assms f] peek_iter [of "rb_list ?q" 0] by auto
  show ?thesis
  proof (cases "rb_list ?q")
    case (Cons s xs)
    then have "RingBuffer_Len ?q = Suc (length xs)" by (metis length_Cons length_rb_list)
    with Cons f n show ?thesis by (auto simp: PeekSize_def RingBuffer_Peek_eq [OF assms])
  qed (simp add: PeekSize_def RingBuffer_Peek_eq [OF assms])
qed

lemma recv_loop_spec:
  assumes "rb_inv q" and "length (rb_list q) \<le> fuel"
    and "length (payload (fst (take_msg (rb_list q)))) \<le> room"
  shows "\<exists>q'. recv_loop fuel room acc q = Inr (acc @ payload (fst (take_msg (rb_list q))), q')
    \<and> rb_inv q' \<and> rb_list q' = snd (take_msg (rb_list q))"
  using assms
proof (induction fuel arbitrary: room acc q)
  case (Suc fuel)
  show ?case
  proof (cases "rb_list q")
    case Nil
    with Suc.prems show ?thesis by (simp add: RingBuffer_Pop_empty)
  next
    case (Cons s xs)
    then obtain q' where p: "RingBuffer_Pop zero_segment q = ((s, True), q')" "rb_inv q'" "rb_list q' = xs"
      using RingBuffer_Pop_Cons [OF Suc.prems(1)] by blast
    show ?thesis
    proof (cases "seg_frg s = 0")
      case True
      with p Cons Suc.prems show ?thesis by simp
    next
      case False
      then have "length (payload (fst (take_msg xs))) \<le> room - length (seg_data s)"
        using Suc.prems(3) Cons by (auto simp: case_prod_beta)
      then obtain q'' where "recv_loop fuel (room - length (seg_data s)) (acc @ seg_data s) q'
          = Inr ((acc @ seg_data s) @ payload (fst (take_msg xs)), q'')"
        "rb_inv q''" "rb_list q'' = snd (take_msg xs)"
        using Suc.IH [OF p(2), of "room - length (seg_data s)" "acc @ seg_data s"] Suc.prems(2) Cons p(3)
        by (auto simp del: length_rb_list)
      moreover have "\<not> room < length (seg_data s)" using Suc.prems(3) Cons False by (auto simp: case_prod_beta)
      ultimately show ?thesis using p Cons False by (auto simp: case_prod_beta)
    qed
  qed
next
  case 0
  then have "rb_list q = []" by (simp del: length_rb_list)
  with 0 show ?case by simp
qed

lemma Recv_error:
  assumes "rb_inv (k_rcv_queue k)"
  shows "\<not> msg_ready (rb_list (k_rcv_queue k)) \<Longrightarrow> Recv room k = Inr (-1, [], k)"
    and "msg_ready (rb_list (k_rcv_queue k)) \<Longrightarrow>
      room < length (payload (fst (take_msg (rb_list (k_rcv_queue k))))) \<Longrightarrow> Recv room k = Inr (-2, [], k)"
  by (simp_all add: Recv_def PeekSize_eq [OF assms])

lemma Recv_message:
  assumes ok: "rcv_ok k" and rdy: "msg_ready (rb_list (k_rcv_queue k))"
    and room: "length (payload (fst (take_msg (rb_list (k_rcv_queue k))))) \<le> room"
  shows "\<exists>moved k1 k'. Recv room k = Inr (int (length (payload (fst (take_msg (rb_list (k_rcv_queue k)))))),
          payload (fst (take_msg (rb_list (k_rcv_queue k)))), k')
      \<and> rb_list (k_rcv_queue k1) = snd (take_msg (rb_list (k_rcv_queue k)))
      \<and> (\<exists>q. k1 = k\<lparr>k_rcv_queue := q\<rparr> \<and> rb_inv q) \<and> moved_to k1 moved (k'\<lparr>k_probe := k_probe k\<rparr>)
      \<and> k_probe k' = (if RingBuffer_Len (k_rcv_queue k') < unat (k_rcv_wnd k)
           \<and> unat (k_rcv_wnd k) \<le> RingBuffer_Len (k_rcv_queue k)
         then k_probe k OR IKCP_ASK_TELL else k_probe k)"
proof -
  let ?q = "k_rcv_queue k" and ?m = "take_msg (rb_list (k_rcv_queue k))"
  have inv: "rb_inv ?q" using ok by (simp add: rcv_ok_def)
  obtain q where l: "recv_loop (RingBuffer_Len ?q) room [] ?q = Inr (payload (fst ?m), q)"
    and q: "rb_inv q" "rb_list q = snd ?m"
    using recv_loop_spec [OF inv _ room, of "RingBuffer_Len ?q" "[]"] by auto
  let ?k1 = "k\<lparr>k_rcv_queue := q\<rparr>"
  have "rcv_ok ?k1" using ok q by (simp add: rcv_ok_def)
  then obtain mv k2 where mr: "move_ready ?k1 = Inr k2" and mv: "moved_to ?k1 mv k2"
    using move_ready_spec by blast
  have fr: "k_probe k2 = k_probe k" "k_rcv_wnd k2 = k_rcv_wnd k"
    using mv by (auto simp: moved_to_def rcv_frame_def)
  let ?c = "RingBuffer_Len (k_rcv_queue k2) < unat (k_rcv_wnd k) \<and> unat (k_rcv_wnd k) \<le> RingBuffer_Len ?q"
  let ?k' = "if ?c then k2\<lparr>k_probe := k_probe k OR IKCP_ASK_TELL\<rparr> else k2"
  have "?k'\<lparr>k_probe := k_probe k\<rparr> = k2" using fr(1) by auto
  moreover have "Recv room k = Inr (int (length (payload (fst ?m))), payload (fst ?m), ?k')"
    using rdy room l mr fr by (simp add: Recv_def PeekSize_eq [OF inv] Let_def)
  moreover have "k_probe ?k' = (if ?c then k_probe k OR IKCP_ASK_TELL else k_probe k)"
    and "k_rcv_queue ?k' = k_rcv_queue k2" using fr by auto
  ultimately have R: "Recv room k = Inr (int (length (payload (fst ?m))), payload (fst ?m), ?k')"
    and P: "moved_to ?k1 mv (?k'\<lparr>k_probe := k_probe k\<rparr>)"
    and Q: "k_probe ?k' = (if RingBuffer_Len (k_rcv_queue ?k') < unat (k_rcv_wnd k)
        \<and> unat (k_rcv_wnd k) \<le> RingBuffer_Len ?q then k_probe k OR IKCP_ASK_TELL else k_probe k)"
    using mv by (simp_all only:)
  show ?thesis
    by (rule exI [of _ mv], rule exI [of _ ?k1], rule exI [of _ ?k'], intro conjI)
      (rule R, simp add: q(2), rule exI [of _ q], simp add: q(1), rule P, rule Q)
qed


section \<open>Properties\<close>

lemma rcv_ok_probe [simp]: "rcv_ok (k\<lparr>k_probe := p\<rparr>) = rcv_ok k"
  by (simp add: rcv_ok_def)

lemma NewKCP_rcv_ok: "rcv_ok (NewKCP conv clock snmp)"
  by (simp add: rcv_ok_def NewKCP_def NewRingBuffer_inv newSegmentHeap_ok)

text \<open>C19: in-order delivery without duplicates or loss. \<open>parse_data\<close> on a well-formed connection
  never panics; it turns a segment away exactly when its number is outside the receive window or
  already buffered. Whatever it moves to \<open>rcv_queue\<close> carries the consecutive numbers from
  \<open>rcv_nxt\<close> on, \<open>rcv_nxt\<close> advances by their count, the buffered segments and the new one are
  exactly the moved ones and those still buffered, and it stops only when the next number is
  missing or the queue is full.\<close>

theorem parse_data_in_order:
  assumes "rcv_ok k" and "length (seg_data s) \<le> mtuLimit"
  shows "\<exists>moved k'. parse_data s k = Inr (\<not> (in_rcv_window (seg_sn s) k
           \<and> seg_sn s \<notin> seg_sn ` set (segments (k_rcv_buf k))), k')
    \<and> rcv_ok k' \<and> rb_list (k_rcv_queue k') = rb_list (k_rcv_queue k) @ moved
    \<and> sns_from (k_rcv_nxt k) moved \<and> k_rcv_nxt k' = k_rcv_nxt k + of_nat (length moved)
    \<and> mset moved + mset (segments (k_rcv_buf k')) = mset (segments (k_rcv_buf k))
        + (if in_rcv_window (seg_sn s) k \<and> seg_sn s \<notin> seg_sn ` set (segments (k_rcv_buf k))
           then {#s#} else {#})
    \<and> (in_rcv_window (seg_sn s) k \<longrightarrow> RingBuffer_Len (k_rcv_queue k') \<ge> unat (k_rcv_wnd k')
         \<or> k_rcv_nxt k' \<notin> seg_sn ` set (segments (k_rcv_buf k')))"
proof (cases "in_rcv_window (seg_sn s) k")
  case True
  from parse_data_inside [OF assms(1) True assms(2)] True show ?thesis
    by (auto simp: move_done_def split: if_splits)
next
  case False
  then show ?thesis
    using parse_data_outside [OF False] assms(1) by (intro exI [of _ "[]"] exI [of _ k]) simp
qed

theorem parse_data_in_order_witness:
  "rcv_ok (NewKCP 7 (\<lambda>_. 0) newSnmp)
   \<and> (\<exists>k'. parse_data (zero_segment\<lparr>seg_data := [9]\<rparr>) (NewKCP 7 (\<lambda>_. 0) newSnmp) = Inr (False, k') \<and> rcv_ok k')"
  using parse_data_in_order [OF NewKCP_rcv_ok, of "zero_segment\<lparr>seg_data := [9]\<rparr>" 7 "\<lambda>_. 0" newSnmp]
    NewKCP_rcv_ok [of 7 "\<lambda>_. 0" newSnmp]
  by (auto simp: mtuLimit_def in_rcv_window_def itimediff_def NewKCP_def zero_segment_def
        newSegmentHeap_def ikcp_consts)

text \<open>Reassembly. On a well-formed connection \<open>Recv\<close> never panics. It returns \<open>-1\<close> when the
  queue does not start with a complete message and \<open>-2\<close> when the message does not fit, both
  without any change; otherwise it returns the payload of the segments up to the first with
  \<open>frg = 0\<close>, removes exactly those, and appends what has become available in sequence.\<close>

theorem recv_first_message:
  assumes "rcv_ok k"
  shows "\<exists>n buf k'. Recv room k = Inr (n, buf, k') \<and> rcv_ok k'
    \<and> n = (if \<not> msg_ready (rb_list (k_rcv_queue k)) then -1
           else if room < length (payload (fst (take_msg (rb_list (k_rcv_queue k))))) then -2
           else int (length buf))
    \<and> (n < 0 \<longrightarrow> buf = [] \<and> k' = k)
    \<and> (n \<ge> 0 \<longrightarrow> buf = payload (fst (take_msg (rb_list (k_rcv_queue k))))
        \<and> (\<exists>moved. rb_list (k_rcv_queue k') = snd (take_msg (rb_list (k_rcv_queue k))) @ moved
             \<and> sns_from (k_rcv_nxt k) moved \<and> k_rcv_nxt k' = k_rcv_nxt k + of_nat (length moved)
             \<and> mset (segments (k_rcv_buf k)) = mset moved + mset (segments (k_rcv_buf k'))))"
proof (cases "msg_ready (rb_list (k_rcv_queue k))
    \<and> length (payload (fst (take_msg (rb_list (k_rcv_queue k))))) \<le> room")
  case True
  then obtain mv q k' where "Recv room k = Inr (int (length (payload (fst (take_msg (rb_list (k_rcv_queue k)))))),
          payload (fst (take_msg (rb_list (k_rcv_queue k)))), k')"
      "rb_list q = snd (take_msg (rb_list (k_rcv_queue k)))"
      "moved_to (k\<lparr>k_rcv_queue := q\<rparr>) mv (k'\<lparr>k_probe := k_probe k\<rparr>)"
    using Recv_message [OF assms, of room] by auto
  with True show ?thesis by (auto simp: moved_to_def not_less)
next
  case False
  have inv: "rb_inv (k_rcv_queue k)" using assms by (simp add: rcv_ok_def)
  from False show ?thesis
    using Recv_error [OF inv, of room] assms
    by (cases "msg_ready (rb_list (k_rcv_queue k))") auto
qed

theorem recv_first_message_witness:
  "\<exists>k'. Recv 10 (NewKCP 7 (\<lambda>_. 0) newSnmp) = Inr (-1, [], k')"
  using recv_first_message [OF NewKCP_rcv_ok, of 10 7 "\<lambda>_. 0" newSnmp]
  by (auto simp: NewKCP_def)

lemma take_msg_frags:
  "map seg_frg gs = map seg_frg (frag_segs True cs) \<Longrightarrow> cs \<noteq> [] \<Longrightarrow> length cs \<le> 256 \<Longrightarrow>
     take_msg (gs @ rest) = (gs, rest)"
proof (induction cs arbitrary: gs)
  case (Cons c cs)
  then obtain g gs' where g: "gs = g # gs'" "seg_frg g = of_nat (length cs)"
    "map seg_frg gs' = map seg_frg (frag_segs True cs)" by auto
  have "seg_frg g = 0 \<longleftrightarrow> cs = []"
    using Cons.prems(3) g(2) by (auto simp: word_of_nat_eq_0_iff dest: dvd_imp_le)
  with g Cons show ?case by auto
qed simp

lemma msg_ready_frags:
  "map seg_frg gs = map seg_frg (frag_segs True cs) \<Longrightarrow> cs \<noteq> [] \<Longrightarrow> length cs \<le> 255 \<Longrightarrow>
     msg_ready (gs @ rest)"
proof -
  assume a: "map seg_frg gs = map seg_frg (frag_segs True cs)" "cs \<noteq> []" "length cs \<le> 255"
  then obtain c cs' where c: "cs = c # cs'" by (cases cs) auto
  with a(1) obtain g gs' where g: "gs = g # gs'" "seg_frg g = of_nat (length cs')" by auto
  have "length gs = length cs" using a(1) by (metis length_frag_segs length_map)
  moreover have "unat (of_nat (length cs') + 1 :: u8) = Suc (length cs')"
  proof -
    have "Suc (length cs') < 2 ^ LENGTH(8)" using a(3) c by simp
    moreover have "of_nat (length cs') + 1 = (of_nat (Suc (length cs')) :: u8)" by simp
    ultimately show ?thesis by (simp only: unat_of_nat mod_less)
  qed
  ultimately show ?thesis using g c by simp
qed


text \<open>C20: \<open>Send\<close> then \<open>Recv\<close> is the identity on messages. If the fragments that \<open>Send\<close> queued for a
  message stand, with their \<open>frg\<close> and \<open>data\<close>, at the front of the peer's \<open>rcv_queue\<close>, then \<open>Recv\<close>
  with a large enough buffer returns exactly that message and leaves what followed it.\<close>

theorem send_recv_roundtrip:
  assumes "Send b ks = Inr (0, ks')" and "k_stream ks = 0" and "0 < unat (k_mss ks)"
    and "unat (k_mss ks) \<le> mtuLimit" and "rb_inv (k_snd_queue ks)"
    and "rb_list (k_snd_queue ks') = rb_list (k_snd_queue ks) @ fs"
    and "rcv_ok kr" and "rb_list (k_rcv_queue kr) = gs @ rest"
    and "map seg_frg gs = map seg_frg fs" and "map seg_data gs = map seg_data fs"
    and "length b \<le> room"
  shows "\<exists>k' moved. Recv room kr = Inr (int (length b), b, k') \<and> rb_list (k_rcv_queue k') = rest @ moved"
proof -
  let ?m = "unat (k_mss ks)" and ?cs = "chunks (unat (k_mss ks)) b"
  have "b \<noteq> []" using assms(1) by (auto simp: Send_def)
  note snd = Send_message [OF assms(2) \<open>b \<noteq> []\<close> assms(3-5)]
  have n: "length ?cs \<le> 255" using snd(1) assms(1) by fastforce
  then have fs: "fs = frag_segs True ?cs" using snd(2) assms(1,6) by auto
  have "payload gs = b" using assms(10) fs by simp
  moreover have "take_msg (rb_list (k_rcv_queue kr)) = (gs, rest)" "msg_ready (rb_list (k_rcv_queue kr))"
    using take_msg_frags [of gs ?cs rest] msg_ready_frags [of gs ?cs rest] assms(8,9) fs n by auto
  ultimately show ?thesis
    using Recv_message [OF assms(7), of room] assms(11) by (auto simp: moved_to_def)
qed

text \<open>A connection whose receive queue holds the given segments.\<close>

definition fill_rcv :: "segment list \<Rightarrow> KCP \<Rightarrow> KCP" where
  "fill_rcv xs k = k\<lparr>k_rcv_queue := fold (RingBuffer_Push zero_segment) xs (k_rcv_queue k)\<rparr>"

lemma fill_rcv_spec:
  "rb_inv q \<Longrightarrow> rb_inv (fold (RingBuffer_Push zero_segment) xs q)
     \<and> rb_list (fold (RingBuffer_Push zero_segment) xs q) = rb_list q @ xs"
  by (induction xs arbitrary: q) (auto simp: RingBuffer_Push_spec)

lemma fill_rcv_ok:
  "rcv_ok k \<Longrightarrow> rcv_ok (fill_rcv xs k)"
  "rcv_ok k \<Longrightarrow> rb_list (k_rcv_queue (fill_rcv xs k)) = rb_list (k_rcv_queue k) @ xs"
  using fill_rcv_spec [of "k_rcv_queue k" xs] by (auto simp: fill_rcv_def rcv_ok_def)

theorem send_recv_roundtrip_witness:
  "\<exists>k'. Recv 100 (fill_rcv [zero_segment\<lparr>seg_data := [1, 2, 3], seg_sn := 5\<rparr>] (NewKCP 7 (\<lambda>_. 0) newSnmp))
     = Inr (3, [1, 2, 3], k')"
proof -
  let ?k = "NewKCP 7 (\<lambda>_. 0) newSnmp"
  let ?g = "zero_segment\<lparr>seg_data := [1, 2, 3], seg_sn := 5\<rparr>"
  note r = NewKCP_send_ready [of 7 "\<lambda>_. 0" newSnmp]
  have c: "chunks 1376 [1, 2, 3] = [[1, 2, 3]]" by (simp add: chunks_small)
  obtain q where S: "Send [1, 2, 3] ?k = Inr (0, ?k\<lparr>k_snd_queue := q\<rparr>)"
    and l: "rb_list q = frag_segs True [[1, 2, 3]]"
    using Send_message(2) [of ?k "[1, 2, 3]"] r c by (auto simp: mtuLimit_def)
  show ?thesis
    using send_recv_roundtrip [OF S, of "frag_segs True [[1, 2, 3]]" "fill_rcv [?g] ?k" "[?g]" "[]" 100]
      r l fill_rcv_ok [OF NewKCP_rcv_ok, of "[?g]" 7 "\<lambda>_. 0" newSnmp]
    by (auto simp: mtuLimit_def zero_segment_def NewKCP_def)
qed

text \<open>The completeness test of \<open>PeekSize\<close> is computed in 8 bits. For a first fragment with
  \<open>frg\<close> up to 254 it asks for \<open>frg + 1\<close> queued segments, but for \<open>frg = 255\<close> the sum wraps to 0 and
  a message of which only the first of 256 fragments has arrived is handed out by \<open>Recv\<close>.\<close>

theorem peeksize_wraps_at_255:
  assumes "rcv_ok k" and "rb_list (k_rcv_queue k) = s # xs"
  shows "(0 < unat (seg_frg s) \<and> unat (seg_frg s) < 255 \<and> length xs < unat (seg_frg s) \<longrightarrow>
            PeekSize k = -1 \<and> Recv room k = Inr (-1, [], k))
    \<and> (seg_frg s = 255 \<and> xs = [] \<and> length (seg_data s) \<le> room \<longrightarrow>
            PeekSize k = int (length (seg_data s))
          \<and> (\<exists>k'. Recv room k = Inr (int (length (seg_data s)), seg_data s, k')))"
proof (intro conjI impI; (elim conjE)?)
  have inv: "rb_inv (k_rcv_queue k)" using assms(1) by (simp add: rcv_ok_def)
  {
    assume f: "0 < unat (seg_frg s)" "unat (seg_frg s) < 255" "length xs < unat (seg_frg s)"
    have "unat (seg_frg s + 1) = Suc (unat (seg_frg s))"
      using f(2) by (simp add: unat_word_ariths)
    moreover have "seg_frg s \<noteq> 0" using f(1) by auto
    ultimately have nr: "\<not> msg_ready (rb_list (k_rcv_queue k))" using f(3) assms(2) by simp
    show "PeekSize k = -1" using nr by (simp add: PeekSize_eq [OF inv])
    show "Recv room k = Inr (-1, [], k)" by (rule Recv_error(1) [OF inv nr])
  }
  {
    assume f: "seg_frg s = 255" "xs = []" "length (seg_data s) \<le> room"
    then have "msg_ready (rb_list (k_rcv_queue k))" "take_msg (rb_list (k_rcv_queue k)) = ([s], [])"
      using assms(2) by simp_all
    then show "PeekSize k = int (length (seg_data s))"
      and "\<exists>k'. Recv room k = Inr (int (length (seg_data s)), seg_data s, k')"
      using Recv_message [OF assms(1), of room] f(3) by (auto simp: PeekSize_eq [OF inv])
  }
qed

theorem peeksize_wraps_at_255_witness:
  "PeekSize (fill_rcv [zero_segment\<lparr>seg_data := [1], seg_frg := 255\<rparr>] (NewKCP 7 (\<lambda>_. 0) newSnmp)) = 1"
  using peeksize_wraps_at_255 [of "fill_rcv [zero_segment\<lparr>seg_data := [1], seg_frg := 255\<rparr>] (NewKCP 7 (\<lambda>_. 0) newSnmp)"
      "zero_segment\<lparr>seg_data := [1], seg_frg := 255\<rparr>" "[]" 1]
    fill_rcv_ok [OF NewKCP_rcv_ok, of "[zero_segment\<lparr>seg_data := [1], seg_frg := 255\<rparr>]" 7 "\<lambda>_. 0" newSnmp]
  by (auto simp: NewKCP_def)

end
