(* ===== verification/Kcp_Ack.thy ===== *)
theory Kcp_Ack
  imports Kcp_Recv
begin

text \<open>
  The send buffer under acknowledgements: \<open>parse_una\<close> with \<open>shrink_buf\<close>, \<open>parse_ack\<close>,
  \<open>parse_fastack\<close>, and the round-trip estimator \<open>update_ack\<close>.
\<close>

text \<open>The send buffer holds the consecutive numbers from \<open>snd_una\<close> up to \<open>snd_nxt\<close>.\<close>

definition snd_ok :: "KCP \<Rightarrow> bool" where
  "snd_ok k \<longleftrightarrow> rb_inv (k_snd_buf k) \<and> sns_from (k_snd_una k) (rb_list (k_snd_buf k))
     \<and> k_snd_nxt k = k_snd_una k + of_nat (RingBuffer_Len (k_snd_buf k))
     \<and> RingBuffer_Len (k_snd_buf k) < 2 ^ 31"

lemma snd_ok_inv: "snd_ok k \<Longrightarrow> rb_inv (k_snd_buf k)"
  by (simp add: snd_ok_def)

lemma NewKCP_snd_ok: "snd_ok (NewKCP conv clock snmp)"
proof -
  have "rb_list (NewRingBuffer zero_segment 64) = []" by simp
  then have "RingBuffer_Len (NewRingBuffer zero_segment 64) = 0" by (metis length_rb_list list.size(3))
  then show ?thesis by (simp add: snd_ok_def NewKCP_def NewRingBuffer_inv ikcp_consts)
qed

lemma unat_offset: "i < 2 ^ 32 \<Longrightarrow> unat (b + of_nat i - b :: u32) = i"
  by (simp add: unat_of_nat_u32)

lemma sns_offset:
  assumes "sns_from b xs" and "length xs < 2 ^ 31" and "i < length xs"
  shows "unat (seg_sn (xs ! i) - b) = i"
  using assms by (simp add: sns_from_nth unat_of_nat_u32)


section \<open>Cumulative acknowledgement\<close>

lemma una_iter:
  "list_iter (una_fn una) xs c =
     (map recycleSegment (takeWhile (\<lambda>s. itimediff una (seg_sn s) > 0) xs)
        @ dropWhile (\<lambda>s. itimediff una (seg_sn s) > 0) xs,
      c + int (length (takeWhile (\<lambda>s. itimediff una (seg_sn s) > 0) xs)),
      dropWhile (\<lambda>s. itimediff una (seg_sn s) > 0) xs = [])"
  by (induction xs arbitrary: c) (auto simp: una_fn_def)

lemma parse_una_list:
  assumes "rb_inv (k_snd_buf k)"
    and P_def: "P = (\<lambda>s. itimediff una (seg_sn s) > 0)"
  shows "\<exists>b. parse_una una k = (int (length (takeWhile P (rb_list (k_snd_buf k)))), k\<lparr>k_snd_buf := b\<rparr>)
    \<and> rb_inv b \<and> rb_list b = dropWhile P (rb_list (k_snd_buf k))"
proof -
  obtain b c where f: "RingBuffer_ForEach (una_fn una) (k_snd_buf k) 0 = (b, c)" by force
  note sp = RingBuffer_ForEach_spec [OF assms(1) f]
  have l: "rb_list b = map recycleSegment (takeWhile P (rb_list (k_snd_buf k)))
      @ dropWhile P (rb_list (k_snd_buf k))"
    and c: "c = int (length (takeWhile P (rb_list (k_snd_buf k))))"
    using sp(2) by (auto simp: una_iter P_def)
  show ?thesis
    using f c l sp(1) RingBuffer_Discard_spec(1,2) [OF sp(1), of zero_segment c]
    by (intro exI [of _ "snd (RingBuffer_Discard zero_segment c b)"]) (simp add: parse_una_def)
qed

lemma dropWhile_una:
  assumes "sns_from b xs" and "length xs < 2 ^ 31"
  shows "length (takeWhile (\<lambda>s. itimediff una (seg_sn s) > 0) xs)
      = (if unat (una - b) < 2 ^ 31 then min (unat (una - b)) (length xs) else 0)"
proof -
  let ?P = "\<lambda>s. itimediff una (seg_sn s) > 0" and ?d = "unat (una - b)"
  show ?thesis
  proof (cases "?d < 2 ^ 31")
    case True
    have P: "?P (xs ! i) \<longleftrightarrow> i < ?d" if "i < length xs" for i
      using that True assms sns_offset [OF assms that]
        sint_diff_pos_window [of una b "seg_sn (xs ! i)"] by (simp add: itimediff_def)
    have "takeWhile ?P xs = take (min ?d (length xs)) xs"
      by (rule takeWhile_eq_take_P_nth) (use P in auto)
    with True show ?thesis by simp
  next
    case False
    have "takeWhile ?P xs = []"
    proof (cases xs)
      case (Cons s ys)
      then have "seg_sn s = b" using assms(1) by simp
      then have "\<not> ?P s" using False sint_neg_iff [of "una - b"] by (simp add: itimediff_def)
      with Cons show ?thesis by simp
    qed simp
    with False show ?thesis by simp
  qed
qed

lemma sns_from_drop: "sns_from b xs \<Longrightarrow> sns_from (b + of_nat n) (drop n xs)"
proof (cases "n \<le> length xs")
  case True
  assume "sns_from b xs"
  then show ?thesis
    using True sns_from_append [of b "take n xs" "drop n xs"] by simp
qed simp

text \<open>How many segments a cumulative acknowledgement \<open>una\<close> releases.\<close>

definition una_count :: "u32 \<Rightarrow> KCP \<Rightarrow> nat" where
  "una_count una k = (if unat (una - k_snd_una k) < 2 ^ 31
      then min (unat (una - k_snd_una k)) (RingBuffer_Len (k_snd_buf k)) else 0)"

text \<open>The state after \<open>parse_una\<close> and \<open>shrink_buf\<close>, which \<open>Input\<close> always calls together.\<close>

lemma una_shrink:
  assumes ok: "snd_ok k" and n_def: "n = una_count una k"
  shows "\<exists>b. parse_una una k = (int n, k\<lparr>k_snd_buf := b\<rparr>) \<and> rb_inv b \<and> rb_list b = drop n (rb_list (k_snd_buf k))
    \<and> shrink_buf (k\<lparr>k_snd_buf := b\<rparr>) = k\<lparr>k_snd_buf := b, k_snd_una := k_snd_una k + of_nat n\<rparr>
    \<and> snd_ok (k\<lparr>k_snd_buf := b, k_snd_una := k_snd_una k + of_nat n\<rparr>)"
proof -
  let ?xs = "rb_list (k_snd_buf k)" and ?P = "\<lambda>s. itimediff una (seg_sn s) > 0"
  have inv: "rb_inv (k_snd_buf k)" and s: "sns_from (k_snd_una k) ?xs" and len: "length ?xs < 2 ^ 31"
    and nxt: "k_snd_nxt k = k_snd_una k + of_nat (length ?xs)"
    using ok by (simp_all add: snd_ok_def)
  have tk: "length (takeWhile ?P ?xs) = n" using dropWhile_una [OF s len] by (simp add: n_def una_count_def)
  obtain b where b: "parse_una una k = (int n, k\<lparr>k_snd_buf := b\<rparr>)" "rb_inv b" "rb_list b = drop n ?xs"
    using parse_una_list [OF inv refl, of una] tk by (auto simp: dropWhile_eq_drop)
  have n: "n \<le> length ?xs" by (simp add: n_def una_count_def)
  have lb: "RingBuffer_Len b = length ?xs - n" using b(3) by (metis length_drop length_rb_list)
  have sb: "sns_from (k_snd_una k + of_nat n) (rb_list b)" using sns_from_drop [OF s] b(3) by simp
  have "shrink_buf (k\<lparr>k_snd_buf := b\<rparr>) = k\<lparr>k_snd_buf := b, k_snd_una := k_snd_una k + of_nat n\<rparr>"
  proof (cases "rb_list b")
    case Nil
    then have "n = length ?xs" using b(3) n by simp
    with Nil nxt show ?thesis by (simp add: shrink_buf_def RingBuffer_Peek_eq [OF b(2)])
  next
    case (Cons x xs)
    with sb show ?thesis by (simp add: shrink_buf_def RingBuffer_Peek_eq [OF b(2)])
  qed
  moreover have "snd_ok (k\<lparr>k_snd_buf := b, k_snd_una := k_snd_una k + of_nat n\<rparr>)"
    using b(2) sb nxt lb n len by (simp add: snd_ok_def)
  ultimately show ?thesis using b by blast
qed


section \<open>Selective acknowledgement\<close>

text \<open>The numbers of the send buffer ascend, measured from \<open>snd_una\<close>.\<close>

abbreviation sn_off :: "u32 \<Rightarrow> segment \<Rightarrow> nat" where
  "sn_off b s \<equiv> unat (seg_sn s - b)"

lemma sns_ascend:
  assumes "sns_from b xs" and "length xs < 2 ^ 31"
  shows "sorted_wrt (\<lambda>s t. sn_off b s < sn_off b t) xs" and "\<forall>s \<in> set xs. sn_off b s < length xs"
proof -
  show "sorted_wrt (\<lambda>s t. sn_off b s < sn_off b t) xs"
    using sns_offset [OF assms] by (auto simp: sorted_wrt_iff_nth_less)
  show "\<forall>s \<in> set xs. sn_off b s < length xs"
    using sns_offset [OF assms] by (auto simp: in_set_conv_nth)
qed

lemma sn_off_eq_iff: "seg_sn s = sn \<longleftrightarrow> sn_off b s = unat (sn - b)"
  by (metis diff_add_cancel unsigned_word_eqI)

lemma itimediff_neg_off:
  "unat (sn - b) < 2 ^ 31 \<Longrightarrow> sn_off b s < 2 ^ 31 \<Longrightarrow> itimediff sn (seg_sn s) < 0 \<longleftrightarrow> unat (sn - b) < sn_off b s"
  by (simp add: itimediff_def sint_diff_neg_window [of sn b])

lemma itimediff_pos_off:
  "unat (sn - b) < 2 ^ 31 \<Longrightarrow> sn_off b s < 2 ^ 31 \<Longrightarrow> itimediff sn (seg_sn s) > 0 \<longleftrightarrow> sn_off b s < unat (sn - b)"
  by (simp add: itimediff_def sint_diff_pos_window [of sn b])

definition mark_acked :: "u32 \<Rightarrow> segment \<Rightarrow> segment" where
  "mark_acked sn s = (if seg_sn s = sn then recycleSegment (s\<lparr>seg_acked := 1\<rparr>) else s)"

lemma ack_iter:
  assumes "sorted_wrt (\<lambda>s t. sn_off b s < sn_off b t) xs" and "\<forall>s \<in> set xs. sn_off b s < 2 ^ 31"
    and "unat (sn - b) < 2 ^ 31"
  shows "\<exists>c. list_iter (ack_fn sn) xs () = (map (mark_acked sn) xs, (), c)"
  using assms
proof (induction xs)
  case (Cons s xs)
  have rest: "map (mark_acked sn) xs = xs" if "unat (sn - b) \<le> sn_off b s"
    using that Cons.prems(1) by (intro map_idI) (auto simp: mark_acked_def sn_off_eq_iff [of _ sn b])
  show ?case
  proof (cases "itimediff sn (seg_sn s) < 0 \<or> sn = seg_sn s")
    case True
    then have "unat (sn - b) \<le> sn_off b s"
      using itimediff_neg_off [OF Cons.prems(3), of s] Cons.prems(2) by auto
    with rest have "map (mark_acked sn) (s # xs) = mark_acked sn s # xs" by simp
    moreover have "ack_fn sn s () = (mark_acked sn s, (), False)"
      using True by (auto simp: ack_fn_def mark_acked_def)
    ultimately show ?thesis by auto
  next
    case False
    with Cons show ?thesis by (auto simp: ack_fn_def mark_acked_def)
  qed
qed auto

lemma not_in_window_absent:
  assumes ok: "snd_ok k" and s: "s \<in> set (rb_list (k_snd_buf k))"
  shows "\<not> itimediff (seg_sn s) (k_snd_una k) < 0" and "\<not> itimediff (seg_sn s) (k_snd_nxt k) \<ge> 0"
proof -
  let ?u = "k_snd_una k" and ?n = "RingBuffer_Len (k_snd_buf k)"
  have off: "sn_off ?u s < ?n" and n: "?n < 2 ^ 31" and nxt: "unat (k_snd_nxt k - ?u) = ?n"
    using ok s sns_ascend(2) [of ?u "rb_list (k_snd_buf k)"]
    by (auto simp: snd_ok_def unat_of_nat_u32)
  then show "\<not> itimediff (seg_sn s) ?u < 0" by (simp add: itimediff_def sint_neg_iff)
  have "sint (seg_sn s - k_snd_nxt k) < 0"
    using off n nxt sint_diff_neg_window [of "seg_sn s" ?u "k_snd_nxt k"] by simp
  then show "\<not> itimediff (seg_sn s) (k_snd_nxt k) \<ge> 0" by (simp add: itimediff_def)
qed

lemma parse_ack_list:
  assumes ok: "snd_ok k"
  shows "\<exists>b. parse_ack sn k = k\<lparr>k_snd_buf := b\<rparr> \<and> rb_inv b
    \<and> rb_list b = map (mark_acked sn) (rb_list (k_snd_buf k))"
proof (cases "itimediff sn (k_snd_una k) < 0 \<or> itimediff sn (k_snd_nxt k) \<ge> 0")
  case True
  then have "map (mark_acked sn) (rb_list (k_snd_buf k)) = rb_list (k_snd_buf k)"
    using not_in_window_absent [OF ok] by (intro map_idI) (auto simp: mark_acked_def)
  with True show ?thesis
    using snd_ok_inv [OF ok] by (intro exI [of _ "k_snd_buf k"]) (auto simp: parse_ack_def)
next
  case False
  let ?u = "k_snd_una k" and ?xs = "rb_list (k_snd_buf k)"
  obtain b u where f: "RingBuffer_ForEach (ack_fn sn) (k_snd_buf k) () = (b, u)"
    by (cases "RingBuffer_ForEach (ack_fn sn) (k_snd_buf k) ()") auto
  have w: "unat (sn - ?u) < 2 ^ 31" using False by (simp add: itimediff_def not_less [symmetric] sint_neg_iff)
  have n: "length ?xs < 2 ^ 31" and s: "sns_from ?u ?xs" using ok by (auto simp: snd_ok_def)
  have "\<exists>c. list_iter (ack_fn sn) ?xs () = (map (mark_acked sn) ?xs, (), c)"
    using sns_ascend [OF s n] n w by (intro ack_iter [of ?u]) auto
  then have "rb_list b = map (mark_acked sn) ?xs"
    using RingBuffer_ForEach_spec(2) [OF snd_ok_inv [OF ok] f] by auto
  with False show ?thesis
    using f RingBuffer_ForEach_spec(1) [OF snd_ok_inv [OF ok] f]
    by (intro exI [of _ b]) (auto simp: parse_ack_def)
qed


lemma snd_ok_map:
  assumes "snd_ok k" and "rb_inv b" and "rb_list b = map f (rb_list (k_snd_buf k))" and "\<And>s. seg_sn (f s) = seg_sn s"
  shows "snd_ok (k\<lparr>k_snd_buf := b\<rparr>)"
proof -
  have "RingBuffer_Len b = RingBuffer_Len (k_snd_buf k)" using assms(3) by (metis length_map length_rb_list)
  with assms show ?thesis by (simp add: snd_ok_def sns_from_iff)
qed

lemma seg_sn_mark_acked [simp]: "seg_sn (mark_acked sn s) = seg_sn s"
  by (auto simp: mark_acked_def recycleSegment_def)


section \<open>Fast retransmission counters\<close>

definition bump_fastack :: "u32 \<Rightarrow> u32 \<Rightarrow> segment \<Rightarrow> segment" where
  "bump_fastack sn ts s =
    (if itimediff sn (seg_sn s) > 0 \<and> itimediff (seg_ts s) ts \<le> 0 \<and> seg_fastack s \<noteq> 0xFFFFFFFF
     then s\<lparr>seg_fastack := seg_fastack s + 1\<rparr> else s)"

lemma seg_sn_bump_fastack [simp]: "seg_sn (bump_fastack sn ts s) = seg_sn s"
  by (auto simp: bump_fastack_def)

definition reaches :: "u32 \<Rightarrow> u32 \<Rightarrow> i32 \<Rightarrow> segment \<Rightarrow> bool" where
  "reaches sn ts fr s \<longleftrightarrow> itimediff sn (seg_sn s) > 0 \<and> itimediff (seg_ts s) ts \<le> 0
     \<and> seg_fastack s \<noteq> 0xFFFFFFFF \<and> seg_fastack s + 1 \<ge> fr"

lemma fastack_iter:
  assumes "sorted_wrt (\<lambda>s t. sn_off b s < sn_off b t) xs" and "\<forall>s \<in> set xs. sn_off b s < 2 ^ 31"
    and "unat (sn - b) < 2 ^ 31"
  shows "\<exists>c. list_iter (fastack_fn sn ts fr) xs r =
    (map (bump_fastack sn ts) xs, if \<exists>s \<in> set xs. reaches sn ts fr s then 1 else r, c)"
  using assms
proof (induction xs arbitrary: r)
  case (Cons s xs)
  have so: "sn_off b s < 2 ^ 31" using Cons.prems(2) by simp
  show ?case
  proof (cases "itimediff sn (seg_sn s) < 0")
    case True
    then have "unat (sn - b) < sn_off b s" using itimediff_neg_off [OF Cons.prems(3) so] by simp
    then have no: "\<not> itimediff sn (seg_sn t) > 0" if "t \<in> set (s # xs)" for t
      using that Cons.prems itimediff_pos_off [OF Cons.prems(3), of t] by fastforce
    then have "map (bump_fastack sn ts) (s # xs) = s # xs"
      and "\<not> (\<exists>t \<in> set (s # xs). reaches sn ts fr t)"
      by (auto simp: bump_fastack_def reaches_def intro!: map_idI)
    then show ?thesis using True by (auto simp: fastack_fn_def)
  next
    case False
    have gt: "itimediff sn (seg_sn s) > 0 \<longleftrightarrow> sn \<noteq> seg_sn s"
      using False itimediff_neg_off [OF Cons.prems(3) so] itimediff_pos_off [OF Cons.prems(3) so]
        sn_off_eq_iff [of s sn b] by (auto simp: not_less le_less)
    have "fastack_fn sn ts fr s r =
        (bump_fastack sn ts s, if reaches sn ts fr s then 1 else r, True)"
      using False gt by (auto simp: fastack_fn_def bump_fastack_def reaches_def Let_def)
    moreover obtain c where "list_iter (fastack_fn sn ts fr) xs (if reaches sn ts fr s then 1 else r) =
        (map (bump_fastack sn ts) xs,
         if \<exists>t \<in> set xs. reaches sn ts fr t then 1 else if reaches sn ts fr s then 1 else r, c)"
      using Cons.IH [of "if reaches sn ts fr s then 1 else r"] Cons.prems by auto
    ultimately show ?thesis by auto
  qed
qed auto

lemma parse_fastack_list:
  assumes ok: "snd_ok k"
  shows "\<exists>b r. parse_fastack sn ts k = (r, k\<lparr>k_snd_buf := b\<rparr>) \<and> rb_inv b \<and> (r = 0 \<or> r = 1)
    \<and> (if itimediff sn (k_snd_una k) < 0 \<or> itimediff sn (k_snd_nxt k) \<ge> 0
       then rb_list b = rb_list (k_snd_buf k) \<and> r = 0
       else rb_list b = map (bump_fastack sn ts) (rb_list (k_snd_buf k))
         \<and> (r = 1 \<longleftrightarrow> (\<exists>s \<in> set (rb_list (k_snd_buf k)). reaches sn ts (k_fastresend k) s)))"
proof (cases "itimediff sn (k_snd_una k) < 0 \<or> itimediff sn (k_snd_nxt k) \<ge> 0")
  case True
  then show ?thesis
    using snd_ok_inv [OF ok] by (intro exI [of _ "k_snd_buf k"] exI [of _ 0]) (auto simp: parse_fastack_def)
next
  case False
  let ?u = "k_snd_una k" and ?xs = "rb_list (k_snd_buf k)" and ?fr = "k_fastresend k"
  obtain b r where f: "RingBuffer_ForEach (fastack_fn sn ts ?fr) (k_snd_buf k) 0 = (b, r)" by force
  have w: "unat (sn - ?u) < 2 ^ 31" using False by (simp add: itimediff_def not_less [symmetric] sint_neg_iff)
  have n: "length ?xs < 2 ^ 31" and s: "sns_from ?u ?xs" using ok by (auto simp: snd_ok_def)
  have "\<exists>c. list_iter (fastack_fn sn ts ?fr) ?xs 0 = (map (bump_fastack sn ts) ?xs,
      if \<exists>s \<in> set ?xs. reaches sn ts ?fr s then 1 else 0, c)"
    using sns_ascend [OF s n] n w by (intro fastack_iter [of ?u]) auto
  then have "rb_list b = map (bump_fastack sn ts) ?xs"
    and "r = (if \<exists>s \<in> set ?xs. reaches sn ts ?fr s then 1 else 0)"
    using RingBuffer_ForEach_spec(2) [OF snd_ok_inv [OF ok] f] by auto
  with False show ?thesis
    using f RingBuffer_ForEach_spec(1) [OF snd_ok_inv [OF ok] f]
    by (intro exI [of _ b] exI [of _ r]) (auto simp: parse_fastack_def)
qed


section \<open>The round-trip estimator\<close>

text \<open>One smoothing step on integers, as RFC 6298 with the reduced weight the code gives to a
  sample below the expected range.\<close>

definition rtt_step :: "int \<Rightarrow> int \<Rightarrow> int \<Rightarrow> int \<times> int" where
  "rtt_step srtt rttvar rtt =
    (if srtt = 0 then (rtt, rtt div 2)
     else let s = srtt + (rtt - srtt) div 8
          in (s, rttvar + (\<bar>rtt - srtt\<bar> - rttvar) div (if rtt < s - rttvar then 32 else 4)))"

lemma div_between: "0 < n \<Longrightarrow> min a b \<le> a + (b - a) div n \<and> a + (b - a) div n \<le> max a b" for a b n :: int
proof -
  assume n: "0 < n"
  show ?thesis
  proof (cases "a \<le> b")
    case True
    then have "0 \<le> (b - a) div n" "(b - a) div n \<le> b - a"
      using n zdiv_mono2 [of "b - a" 1 n] by (auto simp: pos_imp_zdiv_nonneg_iff)
    then show ?thesis using True by auto
  next
    case False
    then have "(b - a) div n \<le> 0" using n by (simp add: div_nonpos_pos_le0)
    moreover have "b - a \<le> (b - a) div n"
      using n False zdiv_mono2_neg [of "b - a" 1 n] by auto
    ultimately show ?thesis using False by auto
  qed
qed

lemma rtt_step_range:
  assumes "0 \<le> srtt" "srtt < n" "0 \<le> v" "v < n" "0 \<le> rtt" "rtt < n"
  shows "0 \<le> fst (rtt_step srtt v rtt)" "fst (rtt_step srtt v rtt) < n"
    "0 \<le> snd (rtt_step srtt v rtt)" "snd (rtt_step srtt v rtt) < n"
proof -
  have s: "0 \<le> srtt + (rtt - srtt) div 8" "srtt + (rtt - srtt) div 8 < n"
  proof -
    have "0 \<le> min srtt rtt" "max srtt rtt < n" using assms by simp_all
    then show "0 \<le> srtt + (rtt - srtt) div 8" "srtt + (rtt - srtt) div 8 < n"
      using div_between [of 8 srtt rtt] by linarith+
  qed
  have v: "0 \<le> v + (\<bar>rtt - srtt\<bar> - v) div m" "v + (\<bar>rtt - srtt\<bar> - v) div m < n" if "0 < m" for m
  proof -
    have "\<bar>rtt - srtt\<bar> < n" using assms by arith
    then have "0 \<le> min v \<bar>rtt - srtt\<bar>" "max v \<bar>rtt - srtt\<bar> < n" using assms by simp_all
    then show "0 \<le> v + (\<bar>rtt - srtt\<bar> - v) div m" "v + (\<bar>rtt - srtt\<bar> - v) div m < n"
      using div_between [OF that, of v "\<bar>rtt - srtt\<bar>"] by linarith+
  qed
  have h: "0 \<le> rtt div 2" "rtt div 2 < n" using assms by linarith+
  let ?m = "if rtt < srtt + (rtt - srtt) div 8 - v then 32 else 4 :: int"
  have e: "rtt_step srtt v rtt = (if srtt = 0 then (rtt, rtt div 2)
      else (srtt + (rtt - srtt) div 8, v + (\<bar>rtt - srtt\<bar> - v) div ?m))"
    unfolding rtt_step_def Let_def ..
  have m: "0 < ?m" by simp
  show "0 \<le> fst (rtt_step srtt v rtt)" "fst (rtt_step srtt v rtt) < n"
    unfolding e using assms(5,6) s by (cases "srtt = 0"; simp only: if_True if_False fst_conv)+
  show "0 \<le> snd (rtt_step srtt v rtt)" "snd (rtt_step srtt v rtt) < n"
    unfolding e using v [OF m] h by (cases "srtt = 0"; simp only: if_True if_False snd_conv)+
qed

lemma update_ack_step:
  fixes k :: KCP and rtt :: i32
  assumes "0 \<le> sint (k_rx_srtt k)" "sint (k_rx_srtt k) < 2 ^ 28" "0 \<le> sint (k_rx_rttvar k)"
    "sint (k_rx_rttvar k) < 2 ^ 28" "0 \<le> sint rtt" "sint rtt < 2 ^ 28"
  shows "(sint (k_rx_srtt (update_ack rtt k)), sint (k_rx_rttvar (update_ack rtt k)))
      = rtt_step (sint (k_rx_srtt k)) (sint (k_rx_rttvar k)) (sint rtt)"
proof (cases "k_rx_srtt k = 0")
  case True
  then show ?thesis by (simp add: update_ack_def rtt_step_def sint_sdrop)
next
  case False
  let ?s = "k_rx_srtt k" and ?v = "k_rx_rttvar k"
  let ?d = "rtt - ?s"
  let ?s' = "?s + signed_drop_bit 3 ?d" and ?d' = "if sint ?d < 0 then - ?d else ?d"
  have nz: "sint ?s \<noteq> 0" using False by (simp add: signed_eq_0_iff)
  have d: "sint ?d = sint rtt - sint ?s" using assms by (intro sint_diff_exact) auto
  have r: "0 \<le> sint ?s + (sint rtt - sint ?s) div 8" "sint ?s + (sint rtt - sint ?s) div 8 < 2 ^ 28"
  proof -
    have "0 \<le> min (sint ?s) (sint rtt)" "max (sint ?s) (sint rtt) < 2 ^ 28" using assms by simp_all
    then show "0 \<le> sint ?s + (sint rtt - sint ?s) div 8" "sint ?s + (sint rtt - sint ?s) div 8 < 2 ^ 28"
      using div_between [of 8 "sint ?s" "sint rtt"] by linarith+
  qed
  have s': "sint ?s' = sint ?s + (sint rtt - sint ?s) div 8"
    using sint_add_exact [of ?s "signed_drop_bit 3 ?d"] r by (simp add: sint_sdrop d)
  have a: "\<bar>sint rtt - sint ?s\<bar> < 2 ^ 28" using assms by arith
  have d': "sint ?d' = \<bar>sint rtt - sint ?s\<bar>"
  proof -
    have "sint (- ?d) = - sint ?d" by (rule sint_uminus_exact) (use d assms in simp)
    then show ?thesis using d by (simp only: abs_if if_distrib [of sint])
  qed
  have sv: "sint (?s' - ?v) = sint ?s' - sint ?v"
    by (rule sint_diff_exact) (use s' r assms in simp)+
  have e: "sint (?d' - ?v) = sint ?d' - sint ?v"
    by (rule sint_diff_exact) (use a assms in \<open>simp only: d'\<close>, simp)+
  have v': "sint (?v + signed_drop_bit n (?d' - ?v)) = sint ?v + (\<bar>sint rtt - sint ?s\<bar> - sint ?v) div 2 ^ n" for n
  proof -
    have p: "0 < (2 :: int) ^ n" by simp
    have "0 \<le> min (sint ?v) \<bar>sint rtt - sint ?s\<bar>" "max (sint ?v) \<bar>sint rtt - sint ?s\<bar> < 2 ^ 28"
      using assms a by simp_all
    moreover have "(2 :: int) ^ 28 < 2 ^ 31" "- (2 ^ 31) \<le> (0 :: int)" by simp_all
    ultimately have rg: "- (2 ^ 31) \<le> sint ?v + (\<bar>sint rtt - sint ?s\<bar> - sint ?v) div 2 ^ n"
      "sint ?v + (\<bar>sint rtt - sint ?s\<bar> - sint ?v) div 2 ^ n < 2 ^ 31"
      using div_between [OF p, of "sint ?v" "\<bar>sint rtt - sint ?s\<bar>"] by linarith+
    have x: "sint (signed_drop_bit n (?d' - ?v)) = (\<bar>sint rtt - sint ?s\<bar> - sint ?v) div 2 ^ n"
      by (simp only: sint_sdrop e d')
    show ?thesis using sint_add_exact [of ?v "signed_drop_bit n (?d' - ?v)"] rg unfolding x by blast
  qed
  show ?thesis
    using False nz s' sv v' [of 5] v' [of 2] by (simp add: update_ack_def rtt_step_def Let_def)
qed

lemma update_ack_rto:
  assumes "0 \<le> s" "s < 2 ^ 28" "0 \<le> v" "v < 2 ^ 28" "uint (k_interval k) \<le> 5000"
    and sv: "s = sint (k_rx_srtt (update_ack rtt k))" "v = sint (k_rx_rttvar (update_ack rtt k))"
  shows "uint (k_rx_rto (update_ack rtt k)) =
    min (max (uint (k_rx_minrto k)) (s + max (uint (k_interval k)) (4 * v))) 60000"
proof -
  let ?s = "k_rx_srtt (update_ack rtt k)" and ?v = "k_rx_rttvar (update_ack rtt k)"
  have us: "uint ?s = s" and uv: "uint ?v = v" using assms(1,3) sv uint_eq_sint by metis+
  have p: "uint (push_bit 2 ?v) = 4 * v"
    using assms(3,4) uv by (simp add: push_bit_eq_mult uint_word_ariths)
  have m: "uint (imax (k_interval k) (push_bit 2 ?v)) = max (uint (k_interval k)) (4 * v)"
    using p by (auto simp: imax_def word_le_def)
  have a: "uint (?s + imax (k_interval k) (push_bit 2 ?v)) = s + max (uint (k_interval k)) (4 * v)"
    using assms(1-5) us m by (simp add: uint_word_ariths)
  have "k_rx_rto (update_ack rtt k) = ibound (k_rx_minrto k) (?s + imax (k_interval k) (push_bit 2 ?v)) IKCP_RTO_MAX"
    by (simp add: update_ack_def Let_def split: prod.splits)
  then show ?thesis
    using a by (auto simp: ibound_def imin_def imax_def [of "k_rx_minrto k"] word_le_def IKCP_RTO_MAX_def)
qed


section \<open>Properties\<close>

text \<open>C23: cumulative acknowledgement. On a send buffer that holds the consecutive numbers from
  \<open>snd_una\<close> to \<open>snd_nxt\<close>, \<open>parse_una\<close> followed by \<open>shrink_buf\<close> removes exactly the segments before
  \<open>una\<close>, reports how many, and moves \<open>snd_una\<close> to \<open>una\<close> (to \<open>snd_nxt\<close> if \<open>una\<close> is beyond it); a stale
  \<open>una\<close> removes nothing. The consecutive numbering is kept, also across wrap-around.\<close>

theorem una_releases_prefix:
  assumes "snd_ok k"
  shows "case parse_una una k of (c, k1) \<Rightarrow>
      snd_ok (shrink_buf k1) \<and> k_snd_nxt (shrink_buf k1) = k_snd_nxt k \<and> c = int (una_count una k)
    \<and> rb_list (k_snd_buf (shrink_buf k1)) = drop (una_count una k) (rb_list (k_snd_buf k))
    \<and> (unat (una - k_snd_una k) \<le> RingBuffer_Len (k_snd_buf k) \<longrightarrow> k_snd_una (shrink_buf k1) = una)
    \<and> (2 ^ 31 \<le> unat (una - k_snd_una k) \<longrightarrow> shrink_buf k1 = k1 \<and> c = 0)
    \<and> (RingBuffer_Len (k_snd_buf k) \<le> unat (una - k_snd_una k) \<and> unat (una - k_snd_una k) < 2 ^ 31 \<longrightarrow>
         k_snd_una (shrink_buf k1) = k_snd_nxt k)"
proof -
  obtain b where b: "parse_una una k = (int (una_count una k), k\<lparr>k_snd_buf := b\<rparr>)"
      "rb_list b = drop (una_count una k) (rb_list (k_snd_buf k))"
      "shrink_buf (k\<lparr>k_snd_buf := b\<rparr>) = k\<lparr>k_snd_buf := b, k_snd_una := k_snd_una k + of_nat (una_count una k)\<rparr>"
      "snd_ok (k\<lparr>k_snd_buf := b, k_snd_una := k_snd_una k + of_nat (una_count una k)\<rparr>)"
    using una_shrink [OF assms refl, of una] by blast
  have n: "RingBuffer_Len (k_snd_buf k) < 2 ^ 31" and x: "k_snd_nxt k = k_snd_una k + of_nat (RingBuffer_Len (k_snd_buf k))"
    using assms by (simp_all add: snd_ok_def)
  have "unat (una - k_snd_una k) \<le> RingBuffer_Len (k_snd_buf k) \<Longrightarrow> k_snd_una k + of_nat (una_count una k) = una"
    using n by (simp add: una_count_def min_def)
  moreover have "2 ^ 31 \<le> unat (una - k_snd_una k) \<Longrightarrow> una_count una k = 0" by (simp add: una_count_def)
  moreover have "RingBuffer_Len (k_snd_buf k) \<le> unat (una - k_snd_una k) \<Longrightarrow> unat (una - k_snd_una k) < 2 ^ 31 \<Longrightarrow>
      k_snd_una k + of_nat (una_count una k) = k_snd_nxt k"
    using x by (simp add: una_count_def min_def)
  ultimately show ?thesis using b by auto
qed

text \<open>A connection whose send buffer holds segments numbered from \<open>snd_nxt\<close> on.\<close>

definition fill_snd_buf :: "nat \<Rightarrow> KCP \<Rightarrow> KCP" where
  "fill_snd_buf n k =
    k\<lparr>k_snd_buf := fold (\<lambda>i. RingBuffer_Push zero_segment (zero_segment\<lparr>seg_sn := of_nat i\<rparr>)) [0..<n] (k_snd_buf k),
      k_snd_nxt := of_nat n\<rparr>"

lemma fill_snd_buf_spec:
  "rb_inv q \<Longrightarrow> rb_inv (fold (\<lambda>i. RingBuffer_Push zero_segment (f i)) is q)
     \<and> rb_list (fold (\<lambda>i. RingBuffer_Push zero_segment (f i)) is q) = rb_list q @ map f is"
  by (induction "is" arbitrary: q) (auto simp: RingBuffer_Push_spec)

lemma fill_snd_buf_ok:
  fixes conv clock snmp
  defines "k \<equiv> NewKCP conv clock snmp"
  assumes "n < 2 ^ 31"
  shows "rb_list (k_snd_buf (fill_snd_buf n k)) = map (\<lambda>i. zero_segment\<lparr>seg_sn := of_nat i\<rparr>) [0..<n]"
    and "snd_ok (fill_snd_buf n k)" and "RingBuffer_Len (k_snd_buf (fill_snd_buf n k)) = n"
    and "k_snd_una (fill_snd_buf n k) = 0"
proof -
  let ?f = "\<lambda>i. zero_segment\<lparr>seg_sn := of_nat i\<rparr>"
  have "rb_inv (k_snd_buf k)" and "rb_list (k_snd_buf k) = []" and u: "k_snd_una k = 0"
    by (simp_all add: k_def NewKCP_def NewRingBuffer_inv)
  then have i: "rb_inv (k_snd_buf (fill_snd_buf n k))"
    and l: "rb_list (k_snd_buf (fill_snd_buf n k)) = map ?f [0..<n]"
    using fill_snd_buf_spec [of "k_snd_buf k" ?f "[0..<n]"] by (simp_all add: fill_snd_buf_def)
  show "rb_list (k_snd_buf (fill_snd_buf n k)) = map ?f [0..<n]" by (rule l)
  show n: "RingBuffer_Len (k_snd_buf (fill_snd_buf n k)) = n"
    using l by (metis length_map length_rb_list length_upt minus_nat.diff_0)
  show "k_snd_una (fill_snd_buf n k) = 0" using u by (simp add: fill_snd_buf_def)
  have "sns_from 0 (map ?f [0..<n])" by (simp add: sns_from_iff)
  then show "snd_ok (fill_snd_buf n k)"
    using i l n u assms(2) by (simp add: snd_ok_def) (simp add: fill_snd_buf_def)
qed

theorem una_releases_prefix_witness:
  "k_snd_una (shrink_buf (snd (parse_una 2 (fill_snd_buf 3 (NewKCP 7 (\<lambda>_. 0) newSnmp))))) = 2"
  using una_releases_prefix [of "fill_snd_buf 3 (NewKCP 7 (\<lambda>_. 0) newSnmp)" 2]
    fill_snd_buf_ok(2-4) [where n = 3 and conv = 7 and clock = "\<lambda>_. 0" and snmp = newSnmp]
  by (simp split: prod.splits)

text \<open>Selective acknowledgement. \<open>parse_ack\<close> marks exactly the segment with the given number as
  acknowledged and frees its data; \<open>parse_fastack\<close>, for a number inside the window, increments
  the counter of exactly the segments before it that were sent no later than the acknowledged
  one (a counter at its maximum stays there) and asks for a flush exactly when one of them
  reaches \<open>fastresend\<close>. Neither changes any sequence number, so the buffer stays consecutive.\<close>

theorem acks_touch_only_their_segments:
  assumes "snd_ok k"
  shows "snd_ok (parse_ack sn k)
    \<and> rb_list (k_snd_buf (parse_ack sn k)) = map (mark_acked sn) (rb_list (k_snd_buf k))
    \<and> (case parse_fastack sn ts k of (r, k') \<Rightarrow> snd_ok k' \<and>
        (if itimediff sn (k_snd_una k) < 0 \<or> itimediff sn (k_snd_nxt k) \<ge> 0
         then rb_list (k_snd_buf k') = rb_list (k_snd_buf k) \<and> r = 0
         else rb_list (k_snd_buf k') = map (bump_fastack sn ts) (rb_list (k_snd_buf k))
           \<and> r = (if \<exists>s \<in> set (rb_list (k_snd_buf k)). reaches sn ts (k_fastresend k) s then 1 else 0)))"
proof -
  obtain b where "parse_ack sn k = k\<lparr>k_snd_buf := b\<rparr>" "rb_inv b"
      "rb_list b = map (mark_acked sn) (rb_list (k_snd_buf k))"
    using parse_ack_list [OF assms] by blast
  then have A: "snd_ok (parse_ack sn k) \<and> rb_list (k_snd_buf (parse_ack sn k)) = map (mark_acked sn) (rb_list (k_snd_buf k))"
    using snd_ok_map [OF assms, of b "mark_acked sn"] by simp
  obtain b' r where F: "parse_fastack sn ts k = (r, k\<lparr>k_snd_buf := b'\<rparr>)" "rb_inv b'" "r = 0 \<or> r = 1"
      "if itimediff sn (k_snd_una k) < 0 \<or> itimediff sn (k_snd_nxt k) \<ge> 0
       then rb_list b' = rb_list (k_snd_buf k) \<and> r = 0
       else rb_list b' = map (bump_fastack sn ts) (rb_list (k_snd_buf k))
         \<and> (r = 1 \<longleftrightarrow> (\<exists>s \<in> set (rb_list (k_snd_buf k)). reaches sn ts (k_fastresend k) s))"
    using parse_fastack_list [OF assms] by blast
  have "snd_ok (k\<lparr>k_snd_buf := b'\<rparr>)"
    using F snd_ok_map [OF assms, of b' id] snd_ok_map [OF assms, of b' "bump_fastack sn ts"]
    by (auto split: if_splits)
  with A F show ?thesis by (auto split: if_splits)
qed

theorem acks_touch_only_their_segments_witness:
  "map seg_acked (rb_list (k_snd_buf (parse_ack 1 (fill_snd_buf 3 (NewKCP 7 (\<lambda>_. 0) newSnmp))))) = [0, 1, 0]"
  using acks_touch_only_their_segments [of "fill_snd_buf 3 (NewKCP 7 (\<lambda>_. 0) newSnmp)" 1]
    fill_snd_buf_ok(1,2) [where n = 3 and conv = 7 and clock = "\<lambda>_. 0" and snmp = newSnmp]
  by (simp add: upt_rec mark_acked_def recycleSegment_def zero_segment_def)



end
