(* ===== verification/Kcp_Flush.thy ===== *)
theory Kcp_Flush
  imports Kcp_Ack
begin

text \<open>
  \<open>KCP.flush\<close> of \<open>src/kcp/ikcp.go\<close>: acknowledgements, window probes, the sliding window, the
  retransmission decisions, and the congestion window. The bytes written to the work buffer and
  not yet handed to \<open>output\<close> are the list \<open>w\<close>; \<open>len(ptr)\<close> is what is left of the buffer after them.
\<close>

definition wnd_unused :: "KCP \<Rightarrow> u16" where
  "wnd_unused k =
    (if RingBuffer_Len (k_rcv_queue k) < unat (k_rcv_wnd k)
     then of_nat (unat (k_rcv_wnd k) - RingBuffer_Len (k_rcv_queue k)) else 0)"

text \<open>The two closures of \<open>flush\<close>.\<close>

fun makeSpace :: "nat \<Rightarrow> KCP \<times> bytes \<Rightarrow> KCP \<times> bytes" where
  "makeSpace space (k, w) =
    (if length w + space > unat (k_mtu k) then (k\<lparr>k_out := k_out k @ [w]\<rparr>, []) else (k, w))"

fun flushBuffer :: "KCP \<times> bytes \<Rightarrow> KCP" where
  "flushBuffer (k, w) = (if length w > 0 then k\<lparr>k_out := k_out k @ [w]\<rparr> else k)"

text \<open>\<open>ptr = seg.encode(ptr)\<close> counts the segment in \<open>DefaultSnmp.OutSegs\<close>.\<close>

fun encode_at :: "segment \<Rightarrow> KCP \<times> bytes \<Rightarrow> (KCP \<times> bytes) go" where
  "encode_at seg (k, w) =
    go_bind (segment_encode seg (k_buffer k - length w)) (\<lambda>(bs, left).
      Inr (k\<lparr>k_snmp := (k_snmp k)\<lparr>OutSegs := OutSegs (k_snmp k) + 1\<rparr>\<rparr>, w @ bs))"

text \<open>\<open>copy(ptr, data); ptr = ptr[len(data):]\<close>.\<close>

fun copy_at :: "bytes \<Rightarrow> KCP \<times> bytes \<Rightarrow> (KCP \<times> bytes) go" where
  "copy_at d (k, w) = (if length d \<le> k_buffer k - length w then Inr (k, w @ d) else Inl SliceBounds)"

text \<open>The acknowledgement loop; the header segment keeps the last number and time stamp it was
  given, also for the probe commands that follow.\<close>

fun flush_acks :: "segment \<Rightarrow> ackItem list \<Rightarrow> KCP \<times> bytes \<Rightarrow> (segment \<times> KCP \<times> bytes) go" where
  "flush_acks seg [] kw = Inr (seg, kw)"
| "flush_acks seg (a # as) kw =
    (let kw' = makeSpace IKCP_OVERHEAD kw in
     if itimediff (ack_sn a) (k_rcv_nxt (fst kw')) \<ge> 0 \<or> as = []
     then let seg' = seg\<lparr>seg_sn := ack_sn a, seg_ts := ack_ts a\<rparr>
          in go_bind (encode_at seg' kw') (flush_acks seg' as)
     else flush_acks seg as kw')"

definition flush_probe_timer :: "KCP \<Rightarrow> KCP" where
  "flush_probe_timer k =
    (if k_rmt_wnd k = 0 then
       (case currentMs k of (current, k1) \<Rightarrow>
          if k_probe_wait k1 = 0
          then k1\<lparr>k_probe_wait := IKCP_PROBE_INIT, k_ts_probe := current + IKCP_PROBE_INIT\<rparr>
          else if itimediff current (k_ts_probe k1) \<ge> 0
          then let pw = (if k_probe_wait k1 < IKCP_PROBE_INIT then IKCP_PROBE_INIT else k_probe_wait k1);
                   pw' = pw + pw div 2;
                   pw'' = (if pw' > IKCP_PROBE_LIMIT then IKCP_PROBE_LIMIT else pw')
               in k1\<lparr>k_probe_wait := pw'', k_ts_probe := current + pw'', k_probe := k_probe k1 OR IKCP_ASK_SEND\<rparr>
          else k1)
     else k\<lparr>k_ts_probe := 0, k_probe_wait := 0\<rparr>)"

definition flush_probe_cmds :: "segment \<Rightarrow> KCP \<times> bytes \<Rightarrow> (KCP \<times> bytes) go" where
  "flush_probe_cmds seg kw =
    go_bind (if k_probe (fst kw) AND IKCP_ASK_SEND \<noteq> 0
             then encode_at (seg\<lparr>seg_cmd := IKCP_CMD_WASK\<rparr>) (makeSpace IKCP_OVERHEAD kw) else Inr kw) (\<lambda>kw1.
    go_bind (if k_probe (fst kw1) AND IKCP_ASK_TELL \<noteq> 0
             then encode_at (seg\<lparr>seg_cmd := IKCP_CMD_WINS\<rparr>) (makeSpace IKCP_OVERHEAD kw1) else Inr kw1) (\<lambda>(k, w).
    Inr (k\<lparr>k_probe := 0\<rparr>, w)))"

definition flush_cwnd :: "KCP \<Rightarrow> u32" where
  "flush_cwnd k =
    (let cwnd = imin (k_snd_wnd k) (k_rmt_wnd k)
     in if k_nocwnd k = 0 then imin (k_cwnd k) cwnd else cwnd)"

text \<open>The sliding window: move segments from \<open>snd_queue\<close> to \<open>snd_buf\<close>. Every round takes one segment
  from the queue, so the queue's length (\<open>fuel\<close>) bounds the rounds. The count is \<open>newSegsCount\<close>.\<close>

fun flush_window :: "nat \<Rightarrow> u32 \<Rightarrow> nat \<Rightarrow> KCP \<Rightarrow> nat \<times> KCP" where
  "flush_window 0 cwnd n k = (n, k)"
| "flush_window (Suc fuel) cwnd n k =
    (if itimediff (k_snd_nxt k) (k_snd_una k + cwnd) \<ge> 0 then (n, k)
     else case RingBuffer_Pop zero_segment (k_snd_queue k) of
            ((newseg, ok), q) \<Rightarrow>
              if \<not> ok then (n, k\<lparr>k_snd_queue := q\<rparr>)
              else let s = newseg\<lparr>seg_conv := k_conv k, seg_cmd := IKCP_CMD_PUSH, seg_sn := k_snd_nxt k\<rparr>
                   in flush_window fuel cwnd (Suc n)
                        (k\<lparr>k_snd_queue := q, k_snd_buf := RingBuffer_Push zero_segment s (k_snd_buf k),
                           k_snd_nxt := k_snd_nxt k + 1\<rparr>))"

definition flush_resent :: "KCP \<Rightarrow> u32" where
  "flush_resent k = (if sint (k_fastresend k) \<le> 0 then 0xffffffff else k_fastresend k)"


section \<open>The retransmission loop\<close>

record flushst =
  fs_k :: KCP
  fs_w :: bytes
  fs_current :: u32
  fs_change :: u64
  fs_lost :: u64
  fs_fast :: u64
  fs_early :: u64
  fs_next :: u32

text \<open>Whether a segment is sent now, and why: first transmission, fast retransmit, early
  retransmit, or timeout.\<close>

definition flush_decide :: "u32 \<Rightarrow> nat \<Rightarrow> segment \<Rightarrow> flushst \<Rightarrow> bool \<times> segment \<times> flushst" where
  "flush_decide resent newSegs seg f =
    (let k = fs_k f; current = fs_current f; rto = k_rx_rto k in
     if seg_xmit seg = 0 then (True, seg\<lparr>seg_rto := rto, seg_resendts := current + rto\<rparr>, f)
     else if seg_fastack seg \<ge> resent \<and> seg_fastack seg \<noteq> 0xFFFFFFFF then
       (True, seg\<lparr>seg_fastack := 0xFFFFFFFF, seg_rto := rto, seg_resendts := current + rto\<rparr>,
        f\<lparr>fs_change := fs_change f + 1, fs_fast := fs_fast f + 1\<rparr>)
     else if seg_fastack seg > 0 \<and> seg_fastack seg \<noteq> 0xFFFFFFFF \<and> newSegs = 0 then
       (True, seg\<lparr>seg_fastack := 0xFFFFFFFF, seg_rto := rto, seg_resendts := current + rto\<rparr>,
        f\<lparr>fs_change := fs_change f + 1, fs_early := fs_early f + 1\<rparr>)
     else if itimediff current (seg_resendts seg) \<ge> 0 then
       (let r = seg_rto seg + (if k_nodelay k = 0 then rto else rto div 2)
        in (True, seg\<lparr>seg_rto := r, seg_fastack := 0, seg_resendts := current + r\<rparr>,
            f\<lparr>fs_lost := fs_lost f + 1\<rparr>))
     else (False, seg, f))"

definition flush_send :: "u16 \<Rightarrow> u32 \<Rightarrow> segment \<Rightarrow> flushst \<Rightarrow> (segment \<times> flushst) go" where
  "flush_send wnd una seg f =
    (case currentMs (fs_k f) of (current, k1) \<Rightarrow>
       let seg' = seg\<lparr>seg_xmit := seg_xmit seg + 1, seg_ts := current, seg_wnd := wnd, seg_una := una\<rparr>
       in go_bind (encode_at seg' (makeSpace (IKCP_OVERHEAD + length (seg_data seg')) (k1, fs_w f))) (\<lambda>kw.
          go_bind (copy_at (seg_data seg') kw) (\<lambda>(k2, w).
            let k3 = (if seg_xmit seg' \<ge> k_dead_link k2 then k2\<lparr>k_state := 0xFFFFFFFF\<rparr> else k2)
            in Inr (seg', f\<lparr>fs_k := k3, fs_w := w, fs_current := current\<rparr>))))"

definition flush_nearest :: "segment \<Rightarrow> flushst \<Rightarrow> flushst" where
  "flush_nearest seg f =
    (let rto = itimediff (seg_resendts seg) (fs_current f)
     in if rto > 0 \<and> word_of_int rto < fs_next f then f\<lparr>fs_next := word_of_int rto\<rparr> else f)"

definition flush_fn :: "u32 \<Rightarrow> nat \<Rightarrow> u16 \<Rightarrow> u32 \<Rightarrow> (segment, flushst go) yield" where
  "flush_fn resent newSegs wnd una seg st =
    (case st of
       Inl p \<Rightarrow> (seg, Inl p, False)
     | Inr f \<Rightarrow>
         if seg_acked seg = 1 then (seg, Inr f, True)
         else case flush_decide resent newSegs seg f of (needsend, seg1, f1) \<Rightarrow>
           if needsend then
             (case flush_send wnd una seg1 f1 of
                Inl p \<Rightarrow> (seg1, Inl p, False)
              | Inr (seg2, f2) \<Rightarrow> (seg2, Inr (flush_nearest seg2 f2), True))
           else (seg1, Inr (flush_nearest seg1 f1), True))"


section \<open>Counters and congestion window\<close>

definition flush_counters :: "flushst \<Rightarrow> Snmp \<Rightarrow> Snmp" where
  "flush_counters f s =
    (let s1 = (if fs_lost f > 0 then s\<lparr>LostSegs := LostSegs s + fs_lost f\<rparr> else s);
         s2 = (if fs_fast f > 0 then s1\<lparr>FastRetransSegs := FastRetransSegs s1 + fs_fast f\<rparr> else s1);
         sum1 = (if fs_fast f > 0 then fs_lost f + fs_fast f else fs_lost f);
         s3 = (if fs_early f > 0 then s2\<lparr>EarlyRetransSegs := EarlyRetransSegs s2 + fs_early f\<rparr> else s2);
         sum2 = (if fs_early f > 0 then sum1 + fs_early f else sum1)
     in if sum2 > 0 then s3\<lparr>RetransSegs := RetransSegs s3 + sum2\<rparr> else s3)"

definition flush_congestion :: "u32 \<Rightarrow> u32 \<Rightarrow> flushst \<Rightarrow> KCP \<Rightarrow> KCP" where
  "flush_congestion cwnd resent f k =
    (if k_nocwnd k = 0 then
       let k1 = (if fs_change f > 0
                 then let ss = max ((k_snd_nxt k - k_snd_una k) div 2) IKCP_THRESH_MIN
                      in k\<lparr>k_ssthresh := ss, k_cwnd := ss + resent, k_incr := (ss + resent) * k_mss k\<rparr>
                 else k);
           k2 = (if fs_lost f > 0
                 then k1\<lparr>k_ssthresh := max (cwnd div 2) IKCP_THRESH_MIN, k_cwnd := 1, k_incr := k_mss k1\<rparr>
                 else k1)
       in if k_cwnd k2 < 1 then k2\<lparr>k_cwnd := 1, k_incr := k_mss k2\<rparr> else k2
     else k)"

text \<open>The deferred function.\<close>

definition flush_defer :: "KCP \<times> bytes \<Rightarrow> KCP" where
  "flush_defer kw =
    (let k = flushBuffer kw
     in k\<lparr>k_snmp := (k_snmp k)\<lparr>RingBufferSndQueue := of_nat (RingBuffer_Len (k_snd_queue k)),
            RingBufferRcvQueue := of_nat (RingBuffer_Len (k_rcv_queue k)),
            RingBufferSndBuffer := of_nat (RingBuffer_Len (k_snd_buf k))\<rparr>\<rparr>)"

definition flush_header :: "KCP \<Rightarrow> segment" where
  "flush_header k = zero_segment\<lparr>seg_conv := k_conv k, seg_cmd := IKCP_CMD_ACK,
     seg_wnd := wnd_unused k, seg_una := k_rcv_nxt k\<rparr>"

text \<open>The part of \<open>flush\<close> from the window calculation on.\<close>

definition flush_data :: "FlushType \<Rightarrow> u16 \<Rightarrow> u32 \<Rightarrow> KCP \<times> bytes \<Rightarrow> (u32 \<times> KCP) go" where
  "flush_data ft wnd una kw =
    (case kw of (k, w) \<Rightarrow>
     let cwnd = flush_cwnd k;
         (newSegs, k1) = flush_window (Suc (RingBuffer_Len (k_snd_queue k))) cwnd 0 k;
         resent = flush_resent k1;
         (current, k2) = currentMs k1;
         f0 = \<lparr>fs_k = k2, fs_w = w, fs_current = current, fs_change = 0, fs_lost = 0, fs_fast = 0,
               fs_early = 0, fs_next = k_interval k2\<rparr>;
         (b, r) = (if ft = IKCP_FLUSH_FULL
                   then RingBuffer_ForEach (flush_fn resent newSegs wnd una) (k_snd_buf k2) (Inr f0)
                   else (k_snd_buf k2, Inr f0))
     in go_bind r (\<lambda>f.
          let k3 = (fs_k f)\<lparr>k_snd_buf := b\<rparr>;
              k4 = k3\<lparr>k_snmp := flush_counters f (k_snmp k3)\<rparr>
          in Inr (fs_next f, flush_defer (flush_congestion cwnd resent f k4, fs_w f))))"

definition flush :: "FlushType \<Rightarrow> KCP \<Rightarrow> (u32 \<times> KCP) go" where
  "flush ft k =
    (let seg = flush_header k in
     go_bind (if ft = IKCP_FLUSH_ACKONLY \<or> ft = IKCP_FLUSH_FULL
              then go_bind (flush_acks seg (k_acklist k) (k, [])) (\<lambda>(seg', k', w).
                     Inr (seg', k'\<lparr>k_acklist := []\<rparr>, w))
              else Inr (seg, k, [])) (\<lambda>(seg', k', w).
     go_bind (flush_probe_cmds seg' (flush_probe_timer k', w))
       (flush_data ft (seg_wnd seg) (seg_una seg))))"


section \<open>\<open>Update\<close> and \<open>Check\<close>\<close>

definition Update :: "KCP \<Rightarrow> KCP go" where
  "Update k =
    (case currentMs k of (current, k1) \<Rightarrow>
       let k2 = (if k_updated k1 = 0 then k1\<lparr>k_updated := 1, k_ts_flush := current\<rparr> else k1);
           slap = itimediff current (k_ts_flush k2);
           (slap', k3) = (if slap \<ge> 10000 \<or> slap < -10000 then (0, k2\<lparr>k_ts_flush := current\<rparr>) else (slap, k2))
       in if slap' \<ge> 0
          then let k4 = k3\<lparr>k_ts_flush := k_ts_flush k3 + k_interval k3\<rparr>;
                   k5 = (if itimediff current (k_ts_flush k4) \<ge> 0
                         then k4\<lparr>k_ts_flush := current + k_interval k4\<rparr> else k4)
               in go_bind (flush IKCP_FLUSH_FULL k5) (\<lambda>(next, k6). Inr k6)
          else Inr k3)"

text \<open>The loop of \<open>Check\<close> over the send buffer: \<open>None\<close> is its early \<open>return current\<close>.\<close>

definition check_fn :: "u32 \<Rightarrow> (segment, int option) yield" where
  "check_fn current seg tm =
    (case tm of
       None \<Rightarrow> (seg, None, False)
     | Some t \<Rightarrow>
         let diff = itimediff (seg_resendts seg) current
         in if diff \<le> 0 then (seg, None, False)
            else (seg, Some (if diff < t then diff else t), True))"

definition Check :: "KCP \<Rightarrow> u32 \<times> KCP" where
  "Check k =
    (case currentMs k of (current, k1) \<Rightarrow>
       if k_updated k1 = 0 then (current, k1)
       else let d = itimediff current (k_ts_flush k1);
                ts_flush = (if d \<ge> 10000 \<or> d < -10000 then current else k_ts_flush k1)
            in if itimediff current ts_flush \<ge> 0 then (current, k1)
               else let tm_flush = itimediff ts_flush current
                    in (case snd (RingBuffer_ForEach (check_fn current) (k_snd_buf k1) (Some 0x7fffffff)) of
                         None \<Rightarrow> (current, k1)
                       | Some tm_packet \<Rightarrow>
                           let minimal = word_of_int (if tm_packet \<ge> tm_flush then tm_flush else tm_packet);
                               minimal' = (if minimal \<ge> k_interval k1 then k_interval k1 else minimal)
                           in (current + minimal', k1)))"

end
