(* ===== verification/Kcp_Wire.thy ===== *)
theory Kcp_Wire
  imports Kcp_Flush
begin

text \<open>
  What \<open>flush\<close> puts on the wire: every packet handed to \<open>output\<close> is a non-empty sequence of whole
  encoded segments and no longer than the \<open>mtu\<close>, and \<open>flush\<close> does not panic. The segments are
  described by a predicate \<open>Q\<close>, so that the same lemmas serve the packet bound here and the
  delivery argument of \<open>Kcp_Net\<close>.
\<close>

definition wire :: "segment \<Rightarrow> bytes" where
  "wire s = header_bytes s @ seg_data s"

abbreviation wires :: "segment list \<Rightarrow> bytes" where
  "wires ss \<equiv> concat (map wire ss)"

definition cfg_ok :: "KCP \<Rightarrow> bool" where
  "cfg_ok k \<longleftrightarrow> 50 \<le> unat (k_mtu k) \<and> unat (k_mss k) = unat (k_mtu k) - IKCP_OVERHEAD
     \<and> unat (k_mtu k) \<le> k_buffer k"

text \<open>Fields that writing packets changes.\<close>

definition out_frame :: "KCP \<Rightarrow> KCP \<Rightarrow> bool" where
  "out_frame k k' \<longleftrightarrow> (\<exists>p s r st. k' = k\<lparr>k_out := p, k_snmp := s, k_reads := r, k_state := st\<rparr>)"

text \<open>The packets since \<open>o0\<close> and the bytes in the buffer consist of whole segments with \<open>Q\<close>.\<close>

definition packed :: "(segment \<Rightarrow> bool) \<Rightarrow> bytes list \<Rightarrow> KCP \<times> bytes \<Rightarrow> bool" where
  "packed Q o0 kw \<longleftrightarrow>
    (\<exists>ps cur. k_out (fst kw) = o0 @ map wires ps \<and> snd kw = wires cur \<and> (\<forall>s \<in> set cur. Q s)
      \<and> length (snd kw) \<le> unat (k_mtu (fst kw))
      \<and> (\<forall>p \<in> set ps. p \<noteq> [] \<and> length (wires p) \<le> unat (k_mtu (fst kw)) \<and> (\<forall>s \<in> set p. Q s)))"

lemma length_wire [simp]: "length (wire s) = IKCP_OVERHEAD + length (seg_data s)"
  by (simp add: wire_def)

lemma out_frame_refl [simp, intro]: "out_frame k k"
  unfolding out_frame_def
  by (rule exI [of _ "k_out k"], rule exI [of _ "k_snmp k"], rule exI [of _ "k_reads k"],
      rule exI [of _ "k_state k"]) simp

lemma out_frame_trans: "out_frame k k' \<Longrightarrow> out_frame k' k'' \<Longrightarrow> out_frame k k''"
  unfolding out_frame_def by (elim exE, intro exI) simp

lemma out_frame_upd [simp, intro]:
  "out_frame k (k\<lparr>k_out := p\<rparr>)" "out_frame k (k\<lparr>k_snmp := s\<rparr>)" "out_frame k (k\<lparr>k_reads := r\<rparr>)"
  "out_frame k (k\<lparr>k_state := st\<rparr>)"
proof -
  note ex = exI [of _ "k_out k"] exI [of _ "k_snmp k"] exI [of _ "k_reads k"] exI [of _ "k_state k"]
  show "out_frame k (k\<lparr>k_out := p\<rparr>)" unfolding out_frame_def
    by (rule exI [of _ p], rule ex(2), rule ex(3), rule ex(4)) simp
  show "out_frame k (k\<lparr>k_snmp := s\<rparr>)" unfolding out_frame_def
    by (rule ex(1), rule exI [of _ s], rule ex(3), rule ex(4)) simp
  show "out_frame k (k\<lparr>k_reads := r\<rparr>)" unfolding out_frame_def
    by (rule ex(1), rule ex(2), rule exI [of _ r], rule ex(4)) simp
  show "out_frame k (k\<lparr>k_state := st\<rparr>)" unfolding out_frame_def
    by (rule ex(1), rule ex(2), rule ex(3), rule exI [of _ st]) simp
qed

lemma out_frame_fields:
  assumes "out_frame k k'"
  shows "k_mtu k' = k_mtu k" "k_mss k' = k_mss k" "k_buffer k' = k_buffer k" "k_rcv_nxt k' = k_rcv_nxt k"
    "k_snd_queue k' = k_snd_queue k" "k_snd_buf k' = k_snd_buf k" "k_snd_una k' = k_snd_una k"
    "k_snd_nxt k' = k_snd_nxt k" "k_rcv_queue k' = k_rcv_queue k" "k_rcv_buf k' = k_rcv_buf k"
    "k_conv k' = k_conv k" "k_rmt_wnd k' = k_rmt_wnd k" "k_interval k' = k_interval k"
    "k_nocwnd k' = k_nocwnd k" "k_cwnd k' = k_cwnd k" "k_snd_wnd k' = k_snd_wnd k"
    "k_rcv_wnd k' = k_rcv_wnd k" "k_stream k' = k_stream k" "k_rx_rto k' = k_rx_rto k"
    "k_acklist k' = k_acklist k" "k_probe k' = k_probe k" "k_probe_wait k' = k_probe_wait k"
  using assms by (auto simp: out_frame_def)

lemma out_frame_cfg_ok: "out_frame k k' \<Longrightarrow> cfg_ok k' \<longleftrightarrow> cfg_ok k"
  by (simp add: cfg_ok_def out_frame_fields)

lemma packed_Nil: "packed Q (k_out k) (k, [])"
  unfolding packed_def by (rule exI [of _ "[]"], rule exI [of _ "[]"]) simp

lemma packed_frame:
  "packed Q o0 (k, w) \<Longrightarrow> k_out k' = k_out k \<Longrightarrow> k_mtu k' = k_mtu k \<Longrightarrow> packed Q o0 (k', w)"
  by (simp add: packed_def)

lemma packed_mono: "packed Q o0 kw \<Longrightarrow> (\<And>s. Q s \<Longrightarrow> R s) \<Longrightarrow> packed R o0 kw"
  unfolding packed_def by blast

lemma makeSpace_packed:
  assumes "packed Q o0 (k, w)" and "space \<le> unat (k_mtu k)"
  shows "\<exists>k' w'. makeSpace space (k, w) = (k', w') \<and> packed Q o0 (k', w') \<and> out_frame k k'
    \<and> length w' + space \<le> unat (k_mtu k')"
proof (cases "length w + space > unat (k_mtu k)")
  case False
  with assms show ?thesis by auto
next
  case True
  obtain ps cur where p: "k_out k = o0 @ map wires ps" "w = wires cur" "\<forall>s \<in> set cur. Q s"
      "length w \<le> unat (k_mtu k)"
      "\<forall>p \<in> set ps. p \<noteq> [] \<and> length (wires p) \<le> unat (k_mtu k) \<and> (\<forall>s \<in> set p. Q s)"
    using assms(1) unfolding packed_def by auto
  have "cur \<noteq> []" using True assms(2) p(2) by auto
  then have "packed Q o0 (k\<lparr>k_out := k_out k @ [w]\<rparr>, [])"
    unfolding packed_def using p
    by (intro exI [of _ "ps @ [cur]"] exI [of _ "[]"]) auto
  with True assms(2) show ?thesis by auto
qed

lemma encode_packed:
  assumes "packed Q o0 (k, w)" and "Q s" and "seg_data s = []"
    and "length w + IKCP_OVERHEAD \<le> unat (k_mtu k)" and "unat (k_mtu k) \<le> k_buffer k"
  shows "\<exists>k' w'. encode_at s (k, w) = Inr (k', w') \<and> packed Q o0 (k', w') \<and> out_frame k k'"
proof -
  let ?k = "k\<lparr>k_snmp := (k_snmp k)\<lparr>OutSegs := OutSegs (k_snmp k) + 1\<rparr>\<rparr>"
  have "encode_at s (k, w) = Inr (?k, w @ header_bytes s)"
    using assms(4,5) by (simp add: segment_encode_eq)
  moreover have "packed Q o0 (?k, w @ header_bytes s)"
  proof -
    obtain ps cur where p: "k_out k = o0 @ map wires ps" "w = wires cur" "\<forall>s \<in> set cur. Q s"
        "\<forall>p \<in> set ps. p \<noteq> [] \<and> length (wires p) \<le> unat (k_mtu k) \<and> (\<forall>s \<in> set p. Q s)"
      using assms(1) unfolding packed_def by auto
    then show ?thesis
      unfolding packed_def using assms(2-4)
      by (intro exI [of _ ps] exI [of _ "cur @ [s]"]) (auto simp: wire_def)
  qed
  ultimately show ?thesis using out_frame_upd(2) by blast
qed

lemma encode_copy_packed:
  assumes "packed Q o0 (k, w)" and "Q s"
    and "length w + (IKCP_OVERHEAD + length (seg_data s)) \<le> unat (k_mtu k)" and "unat (k_mtu k) \<le> k_buffer k"
  shows "\<exists>k1 w1 k' w'. encode_at s (k, w) = Inr (k1, w1) \<and> copy_at (seg_data s) (k1, w1) = Inr (k', w')
    \<and> packed Q o0 (k', w') \<and> out_frame k k'"
proof -
  let ?k = "k\<lparr>k_snmp := (k_snmp k)\<lparr>OutSegs := OutSegs (k_snmp k) + 1\<rparr>\<rparr>"
  have "encode_at s (k, w) = Inr (?k, w @ header_bytes s)"
    using assms(3,4) by (simp add: segment_encode_eq)
  moreover have "copy_at (seg_data s) (?k, w @ header_bytes s) = Inr (?k, w @ wire s)"
    using assms(3,4) by (simp add: wire_def)
  moreover have "packed Q o0 (?k, w @ wire s)"
  proof -
    obtain ps cur where p: "k_out k = o0 @ map wires ps" "w = wires cur" "\<forall>s \<in> set cur. Q s"
        "\<forall>p \<in> set ps. p \<noteq> [] \<and> length (wires p) \<le> unat (k_mtu k) \<and> (\<forall>s \<in> set p. Q s)"
      using assms(1) unfolding packed_def by auto
    then show ?thesis
      unfolding packed_def using assms(2,3)
      by (intro exI [of _ ps] exI [of _ "cur @ [s]"]) auto
  qed
  ultimately show ?thesis using out_frame_upd(2) by blast
qed

lemma flushBuffer_packed:
  assumes "packed Q o0 (k, w)"
  shows "\<exists>ps. k_out (flushBuffer (k, w)) = o0 @ map wires ps
    \<and> (\<forall>p \<in> set ps. p \<noteq> [] \<and> length (wires p) \<le> unat (k_mtu k) \<and> (\<forall>s \<in> set p. Q s))"
proof -
  obtain ps cur where p: "k_out k = o0 @ map wires ps" "w = wires cur" "\<forall>s \<in> set cur. Q s"
      "length w \<le> unat (k_mtu k)"
      "\<forall>p \<in> set ps. p \<noteq> [] \<and> length (wires p) \<le> unat (k_mtu k) \<and> (\<forall>s \<in> set p. Q s)"
    using assms unfolding packed_def by auto
  show ?thesis
  proof (cases "w = []")
    case True
    with p show ?thesis by (intro exI [of _ ps]) auto
  next
    case False
    then have "cur \<noteq> []" using p(2) by auto
    with False p show ?thesis by (intro exI [of _ "ps @ [cur]"]) auto
  qed
qed


section \<open>The control part: acknowledgements and probes\<close>

text \<open>A control segment, and what may be on the wire: control segments and data segments whose
  number, fragment index and payload satisfy \<open>R\<close>.\<close>

definition ctl_seg :: "u32 \<Rightarrow> segment \<Rightarrow> bool" where
  "ctl_seg c s \<longleftrightarrow> seg_conv s = c \<and> seg_cmd s \<in> {IKCP_CMD_ACK, IKCP_CMD_WASK, IKCP_CMD_WINS} \<and> seg_data s = []"

definition wireQ :: "u32 \<Rightarrow> (u32 \<Rightarrow> u8 \<Rightarrow> bytes \<Rightarrow> bool) \<Rightarrow> segment \<Rightarrow> bool" where
  "wireQ c R s \<longleftrightarrow> ctl_seg c s
     \<or> seg_conv s = c \<and> seg_cmd s = IKCP_CMD_PUSH \<and> R (seg_sn s) (seg_frg s) (seg_data s)"

definition ctl_frame :: "KCP \<Rightarrow> KCP \<Rightarrow> bool" where
  "ctl_frame k k' \<longleftrightarrow> (\<exists>p s r st a pr pw tp. k' = k\<lparr>k_out := p, k_snmp := s, k_reads := r, k_state := st,
     k_acklist := a, k_probe := pr, k_probe_wait := pw, k_ts_probe := tp\<rparr>)"

lemma ctl_frameI:
  "k' = k\<lparr>k_out := p, k_snmp := s, k_reads := r, k_state := st, k_acklist := a, k_probe := pr,
     k_probe_wait := pw, k_ts_probe := tp\<rparr> \<Longrightarrow> ctl_frame k k'"
  unfolding ctl_frame_def by blast

lemma out_ctl_frame: "out_frame k k' \<Longrightarrow> ctl_frame k k'"
  unfolding out_frame_def
  by (elim exE, rule ctl_frameI [where a = "k_acklist k" and pr = "k_probe k" and pw = "k_probe_wait k"
        and tp = "k_ts_probe k"]) simp

lemma ctl_frame_trans: "ctl_frame k k' \<Longrightarrow> ctl_frame k' k'' \<Longrightarrow> ctl_frame k k''"
  unfolding ctl_frame_def by (elim exE, intro exI) simp

lemma ctl_frame_acklist: "ctl_frame k (k\<lparr>k_acklist := a\<rparr>)"
  by (rule ctl_frameI [where p = "k_out k" and s = "k_snmp k" and r = "k_reads k" and st = "k_state k"
        and a = a and pr = "k_probe k" and pw = "k_probe_wait k" and tp = "k_ts_probe k"]) simp

lemma ctl_frame_probe: "ctl_frame k (k\<lparr>k_reads := r, k_probe := pr, k_probe_wait := pw, k_ts_probe := tp\<rparr>)"
  by (rule ctl_frameI [where p = "k_out k" and s = "k_snmp k" and r = r and st = "k_state k"
        and a = "k_acklist k" and pr = pr and pw = pw and tp = tp]) simp

lemma ctl_frame_fields:
  assumes "ctl_frame k k'"
  shows "k_mtu k' = k_mtu k" "k_mss k' = k_mss k" "k_buffer k' = k_buffer k" "k_rcv_nxt k' = k_rcv_nxt k"
    "k_snd_queue k' = k_snd_queue k" "k_snd_buf k' = k_snd_buf k" "k_snd_una k' = k_snd_una k"
    "k_snd_nxt k' = k_snd_nxt k" "k_rcv_queue k' = k_rcv_queue k" "k_rcv_buf k' = k_rcv_buf k"
    "k_conv k' = k_conv k" "k_rmt_wnd k' = k_rmt_wnd k" "k_interval k' = k_interval k"
    "k_nocwnd k' = k_nocwnd k" "k_cwnd k' = k_cwnd k" "k_snd_wnd k' = k_snd_wnd k"
    "k_rcv_wnd k' = k_rcv_wnd k" "k_stream k' = k_stream k" "k_rx_rto k' = k_rx_rto k"
  using assms by (auto simp: ctl_frame_def)

lemma ctl_frame_cfg_ok: "ctl_frame k k' \<Longrightarrow> cfg_ok k' \<longleftrightarrow> cfg_ok k"
  by (simp add: cfg_ok_def ctl_frame_fields)

lemma cfg_ok_mtu: "cfg_ok k \<Longrightarrow> IKCP_OVERHEAD \<le> unat (k_mtu k)" "cfg_ok k \<Longrightarrow> unat (k_mtu k) \<le> k_buffer k"
  by (simp_all add: cfg_ok_def IKCP_OVERHEAD_def)

text \<open>Making room for a control segment and encoding it.\<close>

lemma put_ctl:
  assumes "packed (wireQ c R) o0 (k, w)" and "cfg_ok k" and "ctl_seg c s"
  shows "\<exists>k' w'. encode_at s (makeSpace IKCP_OVERHEAD (k, w)) = Inr (k', w')
    \<and> packed (wireQ c R) o0 (k', w') \<and> out_frame k k'"
proof -
  obtain k1 w1 where m: "makeSpace IKCP_OVERHEAD (k, w) = (k1, w1)" "packed (wireQ c R) o0 (k1, w1)"
      "out_frame k k1" "length w1 + IKCP_OVERHEAD \<le> unat (k_mtu k1)"
    using makeSpace_packed [OF assms(1)] cfg_ok_mtu(1) [OF assms(2)] by blast
  have "unat (k_mtu k1) \<le> k_buffer k1" using cfg_ok_mtu(2) [OF assms(2)] out_frame_fields [OF m(3)] by simp
  moreover have "wireQ c R s" "seg_data s = []" using assms(3) by (simp_all add: wireQ_def ctl_seg_def)
  ultimately obtain k' w' where "encode_at s (k1, w1) = Inr (k', w')" "packed (wireQ c R) o0 (k', w')"
      "out_frame k1 k'"
    using encode_packed [OF m(2) _ _ m(4)] by blast
  with m show ?thesis using out_frame_trans by (metis (no_types, lifting))
qed

lemma flush_acks_packed:
  assumes "packed (wireQ c R) o0 (k, w)" and "cfg_ok k" and "ctl_seg c seg"
  shows "\<exists>seg' k' w'. flush_acks seg as (k, w) = Inr (seg', k', w')
    \<and> packed (wireQ c R) o0 (k', w') \<and> out_frame k k' \<and> ctl_seg c seg'"
  using assms
proof (induction "as" arbitrary: seg k w)
  case (Cons a "as")
  let ?seg = "seg\<lparr>seg_sn := ack_sn a, seg_ts := ack_ts a\<rparr>"
  obtain k1 w1 where m: "makeSpace IKCP_OVERHEAD (k, w) = (k1, w1)" "packed (wireQ c R) o0 (k1, w1)"
      "out_frame k k1"
    using makeSpace_packed [OF Cons.prems(1)] cfg_ok_mtu(1) [OF Cons.prems(2)] by blast
  show ?case
  proof (cases "itimediff (ack_sn a) (k_rcv_nxt k1) \<ge> 0 \<or> as = []")
    case True
    have s: "ctl_seg c ?seg" using Cons.prems(3) by (simp add: ctl_seg_def)
    then obtain k2 w2 where e: "encode_at ?seg (makeSpace IKCP_OVERHEAD (k, w)) = Inr (k2, w2)"
        "packed (wireQ c R) o0 (k2, w2)" "out_frame k k2"
      using put_ctl [OF Cons.prems(1,2)] by blast
    obtain seg' k' w' where "flush_acks ?seg as (k2, w2) = Inr (seg', k', w')"
        "packed (wireQ c R) o0 (k', w')" "out_frame k2 k'" "ctl_seg c seg'"
      using Cons.IH [OF e(2) _ s] out_frame_cfg_ok [OF e(3)] Cons.prems(2) by blast
    then show ?thesis
      using True e m(1) out_frame_trans [OF e(3)] by (simp add: Let_def)
  next
    case False
    obtain seg' k' w' where "flush_acks seg as (k1, w1) = Inr (seg', k', w')"
        "packed (wireQ c R) o0 (k', w')" "out_frame k1 k'" "ctl_seg c seg'"
      using Cons.IH [OF m(2) _ Cons.prems(3)] out_frame_cfg_ok [OF m(3)] Cons.prems(2) by blast
    then show ?thesis
      using False m(1) out_frame_trans [OF m(3)] by (simp add: Let_def)
  qed
qed simp

lemma flush_probe_timer_frame: "ctl_frame k (flush_probe_timer k)" "k_out (flush_probe_timer k) = k_out k"
  "k_acklist (flush_probe_timer k) = k_acklist k"
proof -
  let ?k = "flush_probe_timer k"
  have "?k = k\<lparr>k_reads := k_reads ?k, k_probe := k_probe ?k, k_probe_wait := k_probe_wait ?k, k_ts_probe := k_ts_probe ?k\<rparr>"
    by (simp add: flush_probe_timer_def currentMs_def Let_def)
  then show "ctl_frame k ?k" by (metis ctl_frame_probe)
  show "k_out ?k = k_out k" "k_acklist ?k = k_acklist k"
    by (simp_all add: flush_probe_timer_def currentMs_def Let_def)
qed

text \<open>The window probe backs off from 500 ms to 120 s.\<close>

definition probe_wait_ok :: "KCP \<Rightarrow> bool" where
  "probe_wait_ok k \<longleftrightarrow> k_probe_wait k = 0 \<or> IKCP_PROBE_INIT \<le> k_probe_wait k \<and> k_probe_wait k \<le> IKCP_PROBE_LIMIT"

lemma flush_probe_timer_bound:
  assumes "probe_wait_ok k"
  shows "probe_wait_ok (flush_probe_timer k)" "k_probe_wait (flush_probe_timer k) = 0 \<longleftrightarrow> k_rmt_wnd k \<noteq> 0"
proof -
  let ?x = "k_probe_wait k"
  have grow: "500 \<le> ?x + ?x div 2" if "500 \<le> ?x" "?x \<le> 120000"
  proof -
    have "500 \<le> unat ?x" "unat ?x \<le> 120000" using that by (simp_all add: word_le_nat_alt)
    moreover from this have "unat (?x + ?x div 2) = unat ?x + unat ?x div 2"
      by (simp add: unat_word_ariths unat_div)
    ultimately show ?thesis by (simp add: word_le_nat_alt)
  qed
  have nz: "?x + ?x div 2 \<noteq> 0" if "500 \<le> ?x" "?x \<le> 120000"
    using grow [OF that] by (auto simp: word_le_nat_alt)
  show "probe_wait_ok (flush_probe_timer k)"
    using assms grow
    by (auto simp: probe_wait_ok_def flush_probe_timer_def currentMs_def ikcp_consts Let_def not_less)
  show "k_probe_wait (flush_probe_timer k) = 0 \<longleftrightarrow> k_rmt_wnd k \<noteq> 0"
    using assms nz
    by (auto simp: probe_wait_ok_def flush_probe_timer_def currentMs_def ikcp_consts Let_def not_less)
qed

lemma flush_probe_cmds_packed:
  assumes "packed (wireQ c R) o0 (k, w)" and "cfg_ok k" and "ctl_seg c seg"
  shows "\<exists>k' w'. flush_probe_cmds seg (k, w) = Inr (k', w') \<and> packed (wireQ c R) o0 (k', w') \<and> ctl_frame k k'
    \<and> k_probe_wait k' = k_probe_wait k \<and> k_probe k' = 0 \<and> k_acklist k' = k_acklist k"
proof -
  have put: "\<exists>k' w'. (if b then encode_at (seg\<lparr>seg_cmd := x\<rparr>) (makeSpace IKCP_OVERHEAD (k1, w1)) else Inr (k1, w1)) = Inr (k', w')
      \<and> packed (wireQ c R) o0 (k', w') \<and> out_frame k1 k'"
    if "packed (wireQ c R) o0 (k1, w1)" "cfg_ok k1" "x \<in> {IKCP_CMD_WASK, IKCP_CMD_WINS}" for b k1 w1 x
  proof -
    have "ctl_seg c (seg\<lparr>seg_cmd := x\<rparr>)" using that(3) assms(3) by (auto simp: ctl_seg_def)
    from put_ctl [OF that(1,2) this] show ?thesis using that(1) by (cases b) auto
  qed
  obtain k1 w1 where 1: "(if k_probe k AND IKCP_ASK_SEND \<noteq> 0
      then encode_at (seg\<lparr>seg_cmd := IKCP_CMD_WASK\<rparr>) (makeSpace IKCP_OVERHEAD (k, w)) else Inr (k, w)) = Inr (k1, w1)"
      "packed (wireQ c R) o0 (k1, w1)" "out_frame k k1"
    using put [OF assms(1,2)] by blast
  obtain k2 w2 where 2: "(if k_probe k1 AND IKCP_ASK_TELL \<noteq> 0
      then encode_at (seg\<lparr>seg_cmd := IKCP_CMD_WINS\<rparr>) (makeSpace IKCP_OVERHEAD (k1, w1)) else Inr (k1, w1)) = Inr (k2, w2)"
      "packed (wireQ c R) o0 (k2, w2)" "out_frame k1 k2"
    using put [OF 1(2)] out_frame_cfg_ok [OF 1(3)] assms(2) by blast
  have "flush_probe_cmds seg (k, w) = Inr (k2\<lparr>k_probe := 0\<rparr>, w2)"
    unfolding flush_probe_cmds_def fst_conv 1(1) go_bind_Inr by (simp only: 2(1) go_bind_Inr fst_conv case_prod_conv)
  moreover have "packed (wireQ c R) o0 (k2\<lparr>k_probe := 0\<rparr>, w2)" using packed_frame [OF 2(2)] by simp
  moreover have "ctl_frame k (k2\<lparr>k_probe := 0\<rparr>)"
  proof -
    have "k2\<lparr>k_probe := 0\<rparr> = k2\<lparr>k_reads := k_reads k2, k_probe := 0, k_probe_wait := k_probe_wait k2, k_ts_probe := k_ts_probe k2\<rparr>"
      by simp
    then have "ctl_frame k2 (k2\<lparr>k_probe := 0\<rparr>)" by (metis ctl_frame_probe)
    then show ?thesis using ctl_frame_trans out_ctl_frame [OF out_frame_trans [OF 1(3) 2(3)]] by blast
  qed
  ultimately show ?thesis using out_frame_fields [OF 1(3)] out_frame_fields [OF 2(3)] by simp
qed


section \<open>The sliding window\<close>

fun stamp :: "u32 \<Rightarrow> u32 \<Rightarrow> segment list \<Rightarrow> segment list" where
  "stamp c n [] = []"
| "stamp c n (s # xs) = s\<lparr>seg_conv := c, seg_cmd := IKCP_CMD_PUSH, seg_sn := n\<rparr> # stamp c (n + 1) xs"

lemma length_stamp [simp]: "length (stamp c n xs) = length xs"
  by (induction xs arbitrary: n) auto

lemma stamp_append: "stamp c n (xs @ ys) = stamp c n xs @ stamp c (n + of_nat (length xs)) ys"
  by (induction xs arbitrary: n) (auto simp: add_ac)

lemma sns_from_stamp: "sns_from n (stamp c n xs)"
  by (induction xs arbitrary: n) auto

lemma window_open:
  assumes "snd_ok k" and "unat cwnd < 2 ^ 31"
  shows "itimediff (k_snd_nxt k) (k_snd_una k + cwnd) \<ge> 0 \<longleftrightarrow> unat cwnd \<le> RingBuffer_Len (k_snd_buf k)"
proof -
  have "unat (k_snd_nxt k - k_snd_una k) = RingBuffer_Len (k_snd_buf k)"
    and "RingBuffer_Len (k_snd_buf k) < 2 ^ 31"
    using assms(1) by (auto simp: snd_ok_def unat_of_nat_u32)
  then show ?thesis
    using assms(2) sint_diff_neg_window [of "k_snd_nxt k" "k_snd_una k" "k_snd_una k + cwnd"]
    by (auto simp: itimediff_def not_less [symmetric])
qed

lemma snd_ok_push:
  assumes ok: "snd_ok k" and s: "seg_sn s = k_snd_nxt k" and n: "Suc (RingBuffer_Len (k_snd_buf k)) < 2 ^ 31"
  shows "snd_ok (k\<lparr>k_snd_queue := q, k_snd_buf := RingBuffer_Push zero_segment s (k_snd_buf k),
      k_snd_nxt := k_snd_nxt k + 1\<rparr>)"
proof -
  have i: "rb_inv (k_snd_buf k)" using ok by (simp add: snd_ok_def)
  have "RingBuffer_Len (RingBuffer_Push zero_segment s (k_snd_buf k)) = Suc (RingBuffer_Len (k_snd_buf k))"
    using RingBuffer_Push_spec(2) [OF i, of zero_segment s] by (metis length_append_singleton length_rb_list)
  with ok s n show ?thesis by (simp add: snd_ok_def RingBuffer_Push_spec add_ac)
qed

lemma flush_window_spec:
  assumes "snd_ok k" and "rb_inv (k_snd_queue k)" and "unat cwnd < 2 ^ 31 - 1"
    and "length (rb_list (k_snd_queue k)) < fuel"
  shows "\<exists>m q b. flush_window fuel cwnd n k =
        (n + m, k\<lparr>k_snd_queue := q, k_snd_buf := b, k_snd_nxt := k_snd_nxt k + of_nat m\<rparr>)
      \<and> m \<le> length (rb_list (k_snd_queue k)) \<and> rb_inv q \<and> rb_list q = drop m (rb_list (k_snd_queue k))
      \<and> rb_list b = rb_list (k_snd_buf k) @ stamp (k_conv k) (k_snd_nxt k) (take m (rb_list (k_snd_queue k)))
      \<and> snd_ok (k\<lparr>k_snd_queue := q, k_snd_buf := b, k_snd_nxt := k_snd_nxt k + of_nat m\<rparr>)
      \<and> RingBuffer_Len b \<le> max (RingBuffer_Len (k_snd_buf k)) (unat cwnd)
      \<and> (unat cwnd \<le> RingBuffer_Len b \<or> m = length (rb_list (k_snd_queue k)))"
  using assms
proof (induction fuel arbitrary: k n)
  case (Suc fuel)
  have w: "itimediff (k_snd_nxt k) (k_snd_una k + cwnd) \<ge> 0 \<longleftrightarrow> unat cwnd \<le> RingBuffer_Len (k_snd_buf k)"
    using window_open [OF Suc.prems(1)] Suc.prems(3) by simp
  have stop: ?case if "flush_window (Suc fuel) cwnd n k = (n, k)"
    and "unat cwnd \<le> RingBuffer_Len (k_snd_buf k) \<or> rb_list (k_snd_queue k) = []"
  proof (rule exI [of _ 0], rule exI [of _ "k_snd_queue k"], rule exI [of _ "k_snd_buf k"], intro conjI)
    show "flush_window (Suc fuel) cwnd n k = (n + 0, k\<lparr>k_snd_queue := k_snd_queue k,
        k_snd_buf := k_snd_buf k, k_snd_nxt := k_snd_nxt k + of_nat 0\<rparr>)"
      unfolding that(1) by simp
    show "unat cwnd \<le> RingBuffer_Len (k_snd_buf k) \<or> 0 = length (rb_list (k_snd_queue k))"
      using that(2) by (simp del: length_rb_list)
  qed (use Suc.prems(1,2) in simp_all)
  show ?case
  proof (cases "unat cwnd \<le> RingBuffer_Len (k_snd_buf k)")
    case True
    then show ?thesis using w by (intro stop) auto
  next
    case open_: False
    show ?thesis
    proof (cases "rb_list (k_snd_queue k)")
      case Nil
      then show ?thesis using w open_ by (intro stop) (auto simp: RingBuffer_Pop_empty)
    next
      case (Cons s xs)
      then obtain q where p: "RingBuffer_Pop zero_segment (k_snd_queue k) = ((s, True), q)"
          "rb_inv q" "rb_list q = xs"
        using RingBuffer_Pop_Cons [OF Suc.prems(2)] by blast
      let ?s = "s\<lparr>seg_conv := k_conv k, seg_cmd := IKCP_CMD_PUSH, seg_sn := k_snd_nxt k\<rparr>"
      let ?k = "k\<lparr>k_snd_queue := q, k_snd_buf := RingBuffer_Push zero_segment ?s (k_snd_buf k),
          k_snd_nxt := k_snd_nxt k + 1\<rparr>"
      have i: "rb_inv (k_snd_buf k)" using Suc.prems(1) by (simp add: snd_ok_def)
      have bl: "rb_list (k_snd_buf ?k) = rb_list (k_snd_buf k) @ [?s]" using i by (simp add: RingBuffer_Push_spec)
      then have bn: "RingBuffer_Len (k_snd_buf ?k) = Suc (RingBuffer_Len (k_snd_buf k))"
        by (metis length_append_singleton length_rb_list)
      have okk: "snd_ok ?k" using Suc.prems(1,3) open_ by (intro snd_ok_push) auto
      have q': "rb_inv (k_snd_queue ?k)" and qx: "rb_list (k_snd_queue ?k) = xs" using p by simp_all
      have lenq: "length (rb_list (k_snd_queue ?k)) < fuel"
        using Suc.prems(4) Cons unfolding qx by (simp del: length_rb_list)
      obtain m q' b where r: "flush_window fuel cwnd (Suc n) ?k =
            (Suc n + m, ?k\<lparr>k_snd_queue := q', k_snd_buf := b, k_snd_nxt := k_snd_nxt ?k + of_nat m\<rparr>)"
          "m \<le> length xs" "rb_inv q'" "rb_list q' = drop m xs"
          "rb_list b = rb_list (k_snd_buf ?k) @ stamp (k_conv ?k) (k_snd_nxt ?k) (take m xs)"
          "snd_ok (?k\<lparr>k_snd_queue := q', k_snd_buf := b, k_snd_nxt := k_snd_nxt ?k + of_nat m\<rparr>)"
          "RingBuffer_Len b \<le> max (RingBuffer_Len (k_snd_buf ?k)) (unat cwnd)"
          "unat cwnd \<le> RingBuffer_Len b \<or> m = length xs"
        using Suc.IH [OF okk q' Suc.prems(3) lenq, of "Suc n"] unfolding qx by blast
      have e: "?k\<lparr>k_snd_queue := q', k_snd_buf := b, k_snd_nxt := k_snd_nxt ?k + of_nat m\<rparr>
          = k\<lparr>k_snd_queue := q', k_snd_buf := b, k_snd_nxt := k_snd_nxt k + of_nat (Suc m)\<rparr>"
        by (simp add: add_ac)
      have fw: "flush_window (Suc fuel) cwnd n k = flush_window fuel cwnd (Suc n) ?k"
        using w open_ p(1) by (simp add: Let_def)
      show ?thesis
      proof (rule exI [of _ "Suc m"], rule exI [of _ q'], rule exI [of _ b], intro conjI)
        show "flush_window (Suc fuel) cwnd n k =
            (n + Suc m, k\<lparr>k_snd_queue := q', k_snd_buf := b, k_snd_nxt := k_snd_nxt k + of_nat (Suc m)\<rparr>)"
          unfolding fw r(1) e by simp
        show "snd_ok (k\<lparr>k_snd_queue := q', k_snd_buf := b, k_snd_nxt := k_snd_nxt k + of_nat (Suc m)\<rparr>)"
          using r(6) unfolding e .
        show "RingBuffer_Len b \<le> max (RingBuffer_Len (k_snd_buf k)) (unat cwnd)"
          using r(7) bn open_ by simp
        show "rb_list b = rb_list (k_snd_buf k)
            @ stamp (k_conv k) (k_snd_nxt k) (take (Suc m) (rb_list (k_snd_queue k)))"
          using r(5) bl Cons by simp
        show "unat cwnd \<le> RingBuffer_Len b \<or> Suc m = length (rb_list (k_snd_queue k))"
          using r(8) Cons by (simp del: length_rb_list)
      qed (use r Cons in \<open>simp_all del: length_rb_list\<close>)
    qed
  qed
next
  case 0
  then show ?case by (simp only: not_less0)
qed


section \<open>The retransmission loop\<close>

definition same_seg :: "segment \<Rightarrow> segment \<Rightarrow> bool" where
  "same_seg s s' \<longleftrightarrow> seg_conv s' = seg_conv s \<and> seg_cmd s' = seg_cmd s \<and> seg_frg s' = seg_frg s
     \<and> seg_sn s' = seg_sn s \<and> seg_acked s' = seg_acked s \<and> seg_data s' = seg_data s"

lemma flush_decide_same:
  "flush_decide resent ns seg f = (b, seg', f') \<Longrightarrow>
     same_seg seg seg' \<and> fs_k f' = fs_k f \<and> fs_w f' = fs_w f \<and> fs_next f' = fs_next f"
  by (auto simp: flush_decide_def same_seg_def Let_def split: if_splits)

lemma flush_send_packed:
  assumes pk: "packed (wireQ c R) o0 (fs_k f, fs_w f)" and cfg: "cfg_ok (fs_k f)"
    and len: "length (seg_data s) \<le> unat (k_mss (fs_k f))"
    and s: "seg_conv s = c" "seg_cmd s = IKCP_CMD_PUSH" "R (seg_sn s) (seg_frg s) (seg_data s)"
  shows "\<exists>s' f'. flush_send wnd una s f = Inr (s', f') \<and> same_seg s s' \<and> fs_next f' = fs_next f
    \<and> packed (wireQ c R) o0 (fs_k f', fs_w f') \<and> out_frame (fs_k f) (fs_k f')"
proof -
  obtain cur k1 where c1: "currentMs (fs_k f) = (cur, k1)" by force
  then have k1: "out_frame (fs_k f) k1" "k_out k1 = k_out (fs_k f)" by (auto simp: currentMs_def)
  let ?s = "s\<lparr>seg_xmit := seg_xmit s + 1, seg_ts := cur, seg_wnd := wnd, seg_una := una\<rparr>"
  have pk1: "packed (wireQ c R) o0 (k1, fs_w f)"
    using packed_frame [OF pk k1(2)] out_frame_fields(1) [OF k1(1)] by simp
  have cfg1: "cfg_ok k1" using cfg out_frame_cfg_ok [OF k1(1)] by simp
  have need: "IKCP_OVERHEAD + length (seg_data ?s) \<le> unat (k_mtu k1)"
    using len cfg out_frame_fields [OF k1(1)] by (auto simp: cfg_ok_def IKCP_OVERHEAD_def)
  obtain k2 w2 where m: "makeSpace (IKCP_OVERHEAD + length (seg_data ?s)) (k1, fs_w f) = (k2, w2)"
      "packed (wireQ c R) o0 (k2, w2)" "out_frame k1 k2"
      "length w2 + (IKCP_OVERHEAD + length (seg_data ?s)) \<le> unat (k_mtu k2)"
    using makeSpace_packed [OF pk1 need] by blast
  have q: "wireQ c R ?s" using s by (simp add: wireQ_def)
  have bf: "unat (k_mtu k2) \<le> k_buffer k2"
    using cfg_ok_mtu(2) [OF cfg1] out_frame_fields [OF m(3)] by simp
  obtain k3 w3 k4 w4 where e: "encode_at ?s (k2, w2) = Inr (k3, w3)"
      "copy_at (seg_data ?s) (k3, w3) = Inr (k4, w4)" "packed (wireQ c R) o0 (k4, w4)" "out_frame k2 k4"
    using encode_copy_packed [OF m(2) q m(4) bf] by blast
  let ?k5 = "if seg_xmit ?s \<ge> k_dead_link k4 then k4\<lparr>k_state := 0xFFFFFFFF\<rparr> else k4"
  have fs: "flush_send wnd una s f = Inr (?s, f\<lparr>fs_k := ?k5, fs_w := w4, fs_current := cur\<rparr>)"
    unfolding flush_send_def c1 case_prod_conv Let_def m(1) e(1) go_bind_Inr e(2) ..
  have "out_frame k4 ?k5" by auto
  then have "out_frame (fs_k f) ?k5"
    using out_frame_trans k1(1) m(3) e(4) by blast
  moreover have "packed (wireQ c R) o0 (?k5, w4)" using packed_frame [OF e(3)] by simp
  ultimately show ?thesis using fs by (simp add: same_seg_def)
qed

lemma flush_nearest_simps [simp]:
  "fs_k (flush_nearest s f) = fs_k f" "fs_w (flush_nearest s f) = fs_w f"
  by (simp_all add: flush_nearest_def Let_def)

lemma flush_nearest_le: "fs_next (flush_nearest s f) \<le> fs_next f"
  by (auto simp: flush_nearest_def Let_def)

lemma same_seg_refl [simp]: "same_seg s s"
  by (simp add: same_seg_def)

lemma same_seg_trans: "same_seg a b \<Longrightarrow> same_seg b d \<Longrightarrow> same_seg a d"
  by (auto simp: same_seg_def)

lemma flush_fn_packed:
  assumes pk: "packed (wireQ c R) o0 (fs_k f, fs_w f)" and cfg: "cfg_ok (fs_k f)"
    and len: "length (seg_data s) \<le> unat (k_mss (fs_k f))"
    and s: "seg_acked s \<noteq> 1 \<Longrightarrow> seg_conv s = c \<and> seg_cmd s = IKCP_CMD_PUSH \<and> R (seg_sn s) (seg_frg s) (seg_data s)"
  shows "\<exists>s' f'. flush_fn resent ns wnd una s (Inr f) = (s', Inr f', True) \<and> same_seg s s'
    \<and> fs_next f' \<le> fs_next f \<and> packed (wireQ c R) o0 (fs_k f', fs_w f') \<and> out_frame (fs_k f) (fs_k f')"
proof (cases "seg_acked s = 1")
  case True
  with pk show ?thesis by (auto simp: flush_fn_def)
next
  case False
  obtain b s1 f1 where d: "flush_decide resent ns s f = (b, s1, f1)" by (metis prod_cases3)
  note same = flush_decide_same [OF d]
  show ?thesis
  proof (cases b)
    case True
    obtain s2 f2 where e: "flush_send wnd una s1 f1 = Inr (s2, f2)" "same_seg s1 s2" "fs_next f2 = fs_next f1"
        "packed (wireQ c R) o0 (fs_k f2, fs_w f2)" "out_frame (fs_k f1) (fs_k f2)"
      using flush_send_packed [of c R o0 f1 s1 wnd una] pk cfg len s False same by (auto simp: same_seg_def)
    with True False d same show ?thesis
      using flush_nearest_le [of s2 f2] same_seg_trans [of s s1 s2] by (auto simp: flush_fn_def)
  next
    case nb: False
    with False d same pk show ?thesis
      using flush_nearest_le [of s1 f1] by (auto simp: flush_fn_def)
  qed
qed

lemma flush_loop_packed:
  assumes "packed (wireQ c R) o0 (fs_k f, fs_w f)" and "cfg_ok (fs_k f)"
    and "\<forall>s \<in> set xs. length (seg_data s) \<le> unat (k_mss (fs_k f))
      \<and> (seg_acked s \<noteq> 1 \<longrightarrow> seg_conv s = c \<and> seg_cmd s = IKCP_CMD_PUSH \<and> R (seg_sn s) (seg_frg s) (seg_data s))"
  shows "\<exists>xs' f'. list_iter (flush_fn resent ns wnd una) xs (Inr f) = (xs', Inr f', True)
    \<and> list_all2 same_seg xs xs' \<and> fs_next f' \<le> fs_next f
    \<and> packed (wireQ c R) o0 (fs_k f', fs_w f') \<and> out_frame (fs_k f) (fs_k f')"
  using assms
proof (induction xs arbitrary: f)
  case (Cons s xs)
  obtain s' f1 where 1: "flush_fn resent ns wnd una s (Inr f) = (s', Inr f1, True)" "same_seg s s'"
      "fs_next f1 \<le> fs_next f" "packed (wireQ c R) o0 (fs_k f1, fs_w f1)" "out_frame (fs_k f) (fs_k f1)"
    using flush_fn_packed [OF Cons.prems(1,2), of s resent ns wnd una] Cons.prems(3) by auto
  have "cfg_ok (fs_k f1)" using Cons.prems(2) out_frame_cfg_ok [OF 1(5)] by simp
  moreover have "k_mss (fs_k f1) = k_mss (fs_k f)" using out_frame_fields(2) [OF 1(5)] .
  ultimately obtain xs' f' where "list_iter (flush_fn resent ns wnd una) xs (Inr f1) = (xs', Inr f', True)"
      "list_all2 same_seg xs xs'" "fs_next f' \<le> fs_next f1"
      "packed (wireQ c R) o0 (fs_k f', fs_w f')" "out_frame (fs_k f1) (fs_k f')"
    using Cons.IH [OF 1(4)] Cons.prems(3) by auto
  with 1 show ?case using out_frame_trans [OF 1(5)] by auto
qed auto


section \<open>The whole of \<open>flush\<close>\<close>

text \<open>The fields \<open>flush\<close> leaves alone, among them the whole receive side.\<close>

definition flush_frame :: "KCP \<Rightarrow> KCP \<Rightarrow> bool" where
  "flush_frame k k' \<longleftrightarrow>
    k_conv k' = k_conv k \<and> k_mtu k' = k_mtu k \<and> k_mss k' = k_mss k \<and>
    k_snd_una k' = k_snd_una k \<and> k_rcv_nxt k' = k_rcv_nxt k \<and>
    k_rx_rttvar k' = k_rx_rttvar k \<and> k_rx_srtt k' = k_rx_srtt k \<and>
    k_rx_rto k' = k_rx_rto k \<and> k_rx_minrto k' = k_rx_minrto k \<and>
    k_snd_wnd k' = k_snd_wnd k \<and> k_rcv_wnd k' = k_rcv_wnd k \<and>
    k_rmt_wnd k' = k_rmt_wnd k \<and> k_interval k' = k_interval k \<and>
    k_ts_flush k' = k_ts_flush k \<and> k_nodelay k' = k_nodelay k \<and>
    k_updated k' = k_updated k \<and> k_dead_link k' = k_dead_link k \<and>
    k_fastresend k' = k_fastresend k \<and> k_nocwnd k' = k_nocwnd k \<and>
    k_stream k' = k_stream k \<and> k_logmask k' = k_logmask k \<and> k_log k' = k_log k \<and>
    k_rcv_queue k' = k_rcv_queue k \<and> k_rcv_buf k' = k_rcv_buf k \<and>
    k_buffer k' = k_buffer k \<and> k_clock k' = k_clock k"

text \<open>How many queued segments the window admits.\<close>

definition win_count :: "KCP \<Rightarrow> nat" where
  "win_count k = min (RingBuffer_Len (k_snd_queue k)) (unat (flush_cwnd k) - RingBuffer_Len (k_snd_buf k))"

lemma ctl_flush_frame: "ctl_frame k k' \<Longrightarrow> flush_frame k k'"
  unfolding ctl_frame_def by (elim exE) (simp add: flush_frame_def)

lemma out_flush_frame: "out_frame k k' \<Longrightarrow> flush_frame k k'"
  by (rule ctl_flush_frame, rule out_ctl_frame)

lemma flush_frame_trans: "flush_frame k k' \<Longrightarrow> flush_frame k' k'' \<Longrightarrow> flush_frame k k''"
  by (simp add: flush_frame_def)

lemma flush_frame_upd:
  "flush_frame k (k\<lparr>k_snd_queue := q, k_snd_buf := b, k_snd_nxt := n\<rparr>)" "flush_frame k (k\<lparr>k_snd_buf := b\<rparr>)"
  "flush_frame k (k\<lparr>k_snmp := s\<rparr>)" "flush_frame k (k\<lparr>k_out := p\<rparr>)"
  by (simp_all add: flush_frame_def)

lemma flush_cwnd_bound: "unat (k_rmt_wnd k) < 2 ^ 16 \<Longrightarrow> unat (flush_cwnd k) < 2 ^ 16"
  by (auto simp: flush_cwnd_def imin_def Let_def word_le_nat_alt)

lemma ctl_frame_win: "ctl_frame k k' \<Longrightarrow> flush_cwnd k' = flush_cwnd k \<and> win_count k' = win_count k"
  by (auto simp: win_count_def flush_cwnd_def Let_def ctl_frame_fields)

lemma flush_window_count:
  assumes "snd_ok k" and "rb_inv (k_snd_queue k)" and "unat (k_rmt_wnd k) < 2 ^ 16"
  defines "m \<equiv> win_count k"
  shows "\<exists>q b. flush_window (Suc (RingBuffer_Len (k_snd_queue k))) (flush_cwnd k) 0 k =
        (m, k\<lparr>k_snd_queue := q, k_snd_buf := b, k_snd_nxt := k_snd_nxt k + of_nat m\<rparr>)
      \<and> rb_inv q \<and> rb_list q = drop m (rb_list (k_snd_queue k))
      \<and> rb_list b = rb_list (k_snd_buf k) @ stamp (k_conv k) (k_snd_nxt k) (take m (rb_list (k_snd_queue k)))
      \<and> snd_ok (k\<lparr>k_snd_queue := q, k_snd_buf := b, k_snd_nxt := k_snd_nxt k + of_nat m\<rparr>)"
proof -
  let ?c = "flush_cwnd k" and ?qs = "rb_list (k_snd_queue k)"
  have c: "unat ?c < 2 ^ 31 - 1" using flush_cwnd_bound [OF assms(3)] by simp
  obtain n q b where w: "flush_window (Suc (RingBuffer_Len (k_snd_queue k))) ?c 0 k =
        (0 + n, k\<lparr>k_snd_queue := q, k_snd_buf := b, k_snd_nxt := k_snd_nxt k + of_nat n\<rparr>)"
      "n \<le> length ?qs" "rb_inv q" "rb_list q = drop n ?qs"
      "rb_list b = rb_list (k_snd_buf k) @ stamp (k_conv k) (k_snd_nxt k) (take n ?qs)"
      "snd_ok (k\<lparr>k_snd_queue := q, k_snd_buf := b, k_snd_nxt := k_snd_nxt k + of_nat n\<rparr>)"
      "RingBuffer_Len b \<le> max (RingBuffer_Len (k_snd_buf k)) (unat ?c)"
      "unat ?c \<le> RingBuffer_Len b \<or> n = length ?qs"
    using flush_window_spec [OF assms(1,2) c, of "Suc (RingBuffer_Len (k_snd_queue k))" 0] by auto
  have "RingBuffer_Len b = RingBuffer_Len (k_snd_buf k) + n"
    using w(2) length_rb_list [of b] unfolding w(5) by simp
  then have "n = m" using w(2,7,8) unfolding m_def win_count_def by (auto simp: min_def max_def split: if_splits)
  with w show ?thesis by auto
qed

lemma flush_resend:
  assumes pk: "packed (wireQ c R) o0 (fs_k f0, fs_w f0)" and cfg: "cfg_ok (fs_k f0)" and i: "rb_inv buf"
    and s: "\<forall>s \<in> set (rb_list buf). length (seg_data s) \<le> unat (k_mss (fs_k f0))
      \<and> (seg_acked s \<noteq> 1 \<longrightarrow> seg_conv s = c \<and> seg_cmd s = IKCP_CMD_PUSH \<and> R (seg_sn s) (seg_frg s) (seg_data s))"
  shows "\<exists>b f. (if ft = IKCP_FLUSH_FULL then RingBuffer_ForEach (flush_fn resent ns wnd una) buf (Inr f0)
        else (buf, Inr f0)) = (b, Inr f)
      \<and> rb_inv b \<and> list_all2 same_seg (rb_list buf) (rb_list b) \<and> fs_next f \<le> fs_next f0
      \<and> packed (wireQ c R) o0 (fs_k f, fs_w f) \<and> out_frame (fs_k f0) (fs_k f)"
proof (cases "ft = IKCP_FLUSH_FULL")
  case True
  obtain b r where f: "RingBuffer_ForEach (flush_fn resent ns wnd una) buf (Inr f0) = (b, r)" by force
  obtain xs' f' where l: "list_iter (flush_fn resent ns wnd una) (rb_list buf) (Inr f0) = (xs', Inr f', True)"
      "list_all2 same_seg (rb_list buf) xs'" "fs_next f' \<le> fs_next f0"
      "packed (wireQ c R) o0 (fs_k f', fs_w f')" "out_frame (fs_k f0) (fs_k f')"
    using flush_loop_packed [OF pk cfg s, of resent ns wnd una] by blast
  have "rb_list b = xs'" "r = Inr f'" "rb_inv b"
    using RingBuffer_ForEach_spec(1,2) [OF i f] l(1) by auto
  with True f l show ?thesis by auto
next
  case False
  with pk i show ?thesis by (auto simp: list_all2_same)
qed

lemma flush_congestion_frame:
  "flush_frame k (flush_congestion cwnd resent f k)"
  "k_out (flush_congestion cwnd resent f k) = k_out k" "k_snd_queue (flush_congestion cwnd resent f k) = k_snd_queue k"
  "k_snd_buf (flush_congestion cwnd resent f k) = k_snd_buf k" "k_snd_nxt (flush_congestion cwnd resent f k) = k_snd_nxt k"
  "k_acklist (flush_congestion cwnd resent f k) = k_acklist k" "k_probe (flush_congestion cwnd resent f k) = k_probe k"
  "k_probe_wait (flush_congestion cwnd resent f k) = k_probe_wait k"
  by (simp_all add: flush_frame_def flush_congestion_def Let_def)

lemma word_one_le: "x \<noteq> 0 \<Longrightarrow> 1 \<le> (x :: u32)"
  by (simp add: word_le_nat_alt unat_gt_0 Suc_le_eq)

lemma flush_congestion_cwnd: "k_nocwnd k = 0 \<Longrightarrow> 1 \<le> k_cwnd (flush_congestion cwnd resent f k)"
  by (simp add: flush_congestion_def Let_def word_one_le)

lemma flush_defer_frame:
  "flush_frame k (flush_defer (k, w))" "k_out (flush_defer (k, w)) = k_out (flushBuffer (k, w))"
  "k_snd_queue (flush_defer (k, w)) = k_snd_queue k" "k_snd_buf (flush_defer (k, w)) = k_snd_buf k"
  "k_snd_nxt (flush_defer (k, w)) = k_snd_nxt k" "k_cwnd (flush_defer (k, w)) = k_cwnd k"
  "k_acklist (flush_defer (k, w)) = k_acklist k" "k_probe (flush_defer (k, w)) = k_probe k"
  "k_probe_wait (flush_defer (k, w)) = k_probe_wait k"
  by (simp_all add: flush_frame_def flush_defer_def Let_def)


text \<open>What \<open>flush\<close> relies on: a consistent send side whose segments fit the \<open>mss\<close>.\<close>

definition snd_side_ok :: "KCP \<Rightarrow> bool" where
  "snd_side_ok k \<longleftrightarrow> cfg_ok k \<and> snd_ok k \<and> rb_inv (k_snd_queue k) \<and> unat (k_rmt_wnd k) < 2 ^ 16
     \<and> (\<forall>s \<in> set (rb_list (k_snd_queue k)). length (seg_data s) \<le> unat (k_mss k) \<and> seg_acked s = 0)
     \<and> (\<forall>s \<in> set (rb_list (k_snd_buf k)). length (seg_data s) \<le> unat (k_mss k)
          \<and> seg_conv s = k_conv k \<and> seg_cmd s = IKCP_CMD_PUSH)"

text \<open>What \<open>flush\<close> does to the send side when \<open>win_count\<close> segments enter the window.\<close>

definition flushed :: "KCP \<Rightarrow> KCP \<Rightarrow> bool" where
  "flushed k k' \<longleftrightarrow> flush_frame k k' \<and> snd_ok k' \<and> rb_inv (k_snd_queue k')
     \<and> rb_list (k_snd_queue k') = drop (win_count k) (rb_list (k_snd_queue k))
     \<and> k_snd_nxt k' = k_snd_nxt k + of_nat (win_count k)
     \<and> list_all2 same_seg (rb_list (k_snd_buf k)
          @ stamp (k_conv k) (k_snd_nxt k) (take (win_count k) (rb_list (k_snd_queue k)))) (rb_list (k_snd_buf k'))
     \<and> (k_nocwnd k = 0 \<longrightarrow> 1 \<le> k_cwnd k')"

text \<open>The segments \<open>flush\<close> may transmit satisfy \<open>R\<close>.\<close>

definition sendable :: "(u32 \<Rightarrow> u8 \<Rightarrow> bytes \<Rightarrow> bool) \<Rightarrow> KCP \<Rightarrow> bool" where
  "sendable R k \<longleftrightarrow> (\<forall>s \<in> set (rb_list (k_snd_buf k)
       @ stamp (k_conv k) (k_snd_nxt k) (take (win_count k) (rb_list (k_snd_queue k)))).
     seg_acked s \<noteq> 1 \<longrightarrow> R (seg_sn s) (seg_frg s) (seg_data s))"

lemma stamp_fields:
  "s \<in> set (stamp c n xs) \<Longrightarrow> seg_conv s = c \<and> seg_cmd s = IKCP_CMD_PUSH
     \<and> (\<exists>x \<in> set xs. seg_data s = seg_data x \<and> seg_frg s = seg_frg x \<and> seg_acked s = seg_acked x)"
  by (induction xs arbitrary: n) auto

lemma same_seg_snd_ok:
  assumes ok: "snd_ok k" and "rb_inv b" and l: "list_all2 same_seg (rb_list (k_snd_buf k)) (rb_list b)"
    and "k_snd_una k' = k_snd_una k" "k_snd_nxt k' = k_snd_nxt k" "k_snd_buf k' = b"
  shows "snd_ok k'"
proof -
  have "RingBuffer_Len b = RingBuffer_Len (k_snd_buf k)" using list_all2_lengthD [OF l] by simp
  moreover have "\<forall>i < RingBuffer_Len b. seg_sn (rb_list b ! i) = seg_sn (rb_list (k_snd_buf k) ! i)"
    using l \<open>RingBuffer_Len b = _\<close> by (auto simp: list_all2_conv_all_nth same_seg_def)
  ultimately show ?thesis using ok assms(2,4-6) by (simp add: snd_ok_def sns_from_iff)
qed

lemma flush_data_spec:
  assumes ok: "snd_side_ok k" and R: "sendable R k" and pk: "packed (wireQ (k_conv k) R) o0 (k, w)"
  shows "\<exists>nx k'. flush_data ft wnd una (k, w) = Inr (nx, k') \<and> flushed k k' \<and> nx \<le> k_interval k
    \<and> k_acklist k' = k_acklist k \<and> k_probe k' = k_probe k \<and> k_probe_wait k' = k_probe_wait k
    \<and> (\<exists>ps. k_out k' = o0 @ map wires ps \<and> (\<forall>p \<in> set ps. p \<noteq> [] \<and> length (wires p) \<le> unat (k_mtu k)
          \<and> (\<forall>s \<in> set p. wireQ (k_conv k) R s)))"
proof -
  let ?m = "win_count k" and ?qs = "rb_list (k_snd_queue k)" and ?bs = "rb_list (k_snd_buf k)"
  have sk: "snd_ok k" "rb_inv (k_snd_queue k)" "unat (k_rmt_wnd k) < 2 ^ 16" "cfg_ok k"
    using ok by (auto simp: snd_side_ok_def)
  obtain q b where w: "flush_window (Suc (RingBuffer_Len (k_snd_queue k))) (flush_cwnd k) 0 k =
        (?m, k\<lparr>k_snd_queue := q, k_snd_buf := b, k_snd_nxt := k_snd_nxt k + of_nat ?m\<rparr>)"
      "rb_inv q" "rb_list q = drop ?m ?qs"
      "rb_list b = ?bs @ stamp (k_conv k) (k_snd_nxt k) (take ?m ?qs)"
      "snd_ok (k\<lparr>k_snd_queue := q, k_snd_buf := b, k_snd_nxt := k_snd_nxt k + of_nat ?m\<rparr>)"
    using flush_window_count [OF sk(1-3)] by blast
  define k1 where "k1 = k\<lparr>k_snd_queue := q, k_snd_buf := b, k_snd_nxt := k_snd_nxt k + of_nat ?m\<rparr>"
  obtain cur k2 where c: "currentMs k1 = (cur, k2)" by force
  then have f12: "out_frame k1 k2" and o2: "k_out k2 = k_out k1" by (auto simp: currentMs_def)
  define f0 where "f0 = \<lparr>fs_k = k2, fs_w = w, fs_current = cur, fs_change = 0, fs_lost = 0, fs_fast = 0,
      fs_early = 0, fs_next = k_interval k2\<rparr>"
  note fld = out_frame_fields [OF f12]
  have pk2: "packed (wireQ (k_conv k) R) o0 (fs_k f0, fs_w f0)"
    using packed_frame [OF pk, of k2] o2 fld by (simp add: f0_def k1_def)
  have cfg2: "cfg_ok (fs_k f0)" using sk(4) fld by (simp add: f0_def k1_def cfg_ok_def)
  have ib: "rb_inv b" using w(5) by (simp add: snd_ok_def)
  have segs: "\<forall>s \<in> set (rb_list b). length (seg_data s) \<le> unat (k_mss (fs_k f0))
      \<and> (seg_acked s \<noteq> 1 \<longrightarrow> seg_conv s = k_conv k \<and> seg_cmd s = IKCP_CMD_PUSH \<and> R (seg_sn s) (seg_frg s) (seg_data s))"
  proof
    fix s assume s: "s \<in> set (rb_list b)"
    have "seg_acked s \<noteq> 1 \<longrightarrow> R (seg_sn s) (seg_frg s) (seg_data s)"
      using R s w(4) by (simp add: sendable_def)
    moreover have "length (seg_data s) \<le> unat (k_mss k) \<and> seg_conv s = k_conv k \<and> seg_cmd s = IKCP_CMD_PUSH"
      using ok s w(4) stamp_fields [of s "k_conv k" "k_snd_nxt k" "take ?m ?qs"] set_take_subset [of ?m ?qs]
      unfolding snd_side_ok_def by fastforce
    ultimately show "length (seg_data s) \<le> unat (k_mss (fs_k f0)) \<and> (seg_acked s \<noteq> 1 \<longrightarrow>
        seg_conv s = k_conv k \<and> seg_cmd s = IKCP_CMD_PUSH \<and> R (seg_sn s) (seg_frg s) (seg_data s))"
      using fld(2) by (simp add: f0_def k1_def)
  qed
  obtain b' f where r: "(if ft = IKCP_FLUSH_FULL
        then RingBuffer_ForEach (flush_fn (flush_resent k1) ?m wnd una) b (Inr f0) else (b, Inr f0)) = (b', Inr f)"
      "rb_inv b'" "list_all2 same_seg (rb_list b) (rb_list b')" "fs_next f \<le> fs_next f0"
      "packed (wireQ (k_conv k) R) o0 (fs_k f, fs_w f)" "out_frame (fs_k f0) (fs_k f)"
    using flush_resend [OF pk2 cfg2 ib segs] by blast
  define k4 where "k4 = (fs_k f)\<lparr>k_snd_buf := b', k_snmp := flush_counters f (k_snmp (fs_k f))\<rparr>"
  define k5 where "k5 = flush_congestion (flush_cwnd k) (flush_resent k1) f k4"
  define k6 where "k6 = flush_defer (k5, fs_w f)"
  have sb: "k_snd_buf k2 = b" using fld(6) by (simp add: k1_def)
  have run: "flush_data ft wnd una (k, w) = Inr (fs_next f, k6)"
    unfolding flush_data_def case_prod_conv Let_def w(1) k1_def [symmetric] c f0_def [symmetric] sb r(1)
    by (simp add: k4_def k5_def k6_def Let_def)
  note cg = flush_congestion_frame [where k = k4 and cwnd = "flush_cwnd k" and resent = "flush_resent k1" and f = f, folded k5_def]
  note df = flush_defer_frame [where k = k5 and w = "fs_w f", folded k6_def]
  have of2: "out_frame k2 (fs_k f)" using r(6) by (simp add: f0_def)
  note fld2 = out_frame_fields [OF of2]
  have fr: "flush_frame k k6"
  proof -
    have "flush_frame k k1" "flush_frame (fs_k f) k4" by (simp_all add: k1_def k4_def flush_frame_def)
    then show ?thesis
      using flush_frame_trans out_flush_frame [OF f12] out_flush_frame [OF of2] cg(1) df(1) by metis
  qed
  have nxt: "k_snd_nxt k6 = k_snd_nxt k + of_nat ?m" and que: "k_snd_queue k6 = q" and buf: "k_snd_buf k6 = b'"
    using cg df fld fld2 by (simp_all add: k4_def k1_def)
  have "snd_ok k6"
    using same_seg_snd_ok [OF w(5) r(2), of k6] r(3) fr nxt buf by (simp add: flush_frame_def)
  moreover have "k_nocwnd k = 0 \<longrightarrow> 1 \<le> k_cwnd k6"
    using flush_congestion_cwnd [where k = k4 and cwnd = "flush_cwnd k" and resent = "flush_resent k1" and f = f] df(6) fld2 fld
    by (simp add: k5_def k4_def k1_def)
  ultimately have fl: "flushed k k6" using fr w r(3) nxt que buf by (simp add: flushed_def)
  obtain ps where ps: "k_out (flushBuffer (k5, fs_w f)) = o0 @ map wires ps"
      "\<forall>p \<in> set ps. p \<noteq> [] \<and> length (wires p) \<le> unat (k_mtu k5) \<and> (\<forall>s \<in> set p. wireQ (k_conv k) R s)"
    using flushBuffer_packed [OF packed_frame [OF r(5), of k5]] cg(1,2) by (auto simp: k4_def flush_frame_def)
  have "k_mtu k5 = k_mtu k" using fr df(1) by (simp add: flush_frame_def)
  moreover have "fs_next f0 = k_interval k" using fld by (simp add: f0_def k1_def)
  moreover have "k_acklist k6 = k_acklist k \<and> k_probe k6 = k_probe k \<and> k_probe_wait k6 = k_probe_wait k"
    using cg df fld fld2 by (simp add: k4_def k1_def)
  ultimately show ?thesis using run fl r(4) ps df(2) by auto
qed


lemma sendable_frame:
  "ctl_frame k k' \<Longrightarrow> sendable R k' = sendable R k"
  by (simp add: sendable_def ctl_frame_fields ctl_frame_win)

lemma snd_side_ok_frame:
  "ctl_frame k k' \<Longrightarrow> snd_side_ok k' = snd_side_ok k"
  by (simp add: snd_side_ok_def snd_ok_def ctl_frame_fields ctl_frame_cfg_ok)

lemma flushed_frame:
  "ctl_frame k k1 \<Longrightarrow> flushed k1 k' \<Longrightarrow> flushed k k'"
  using flush_frame_trans [OF ctl_flush_frame, of k k1 k']
  by (auto simp: flushed_def ctl_frame_fields ctl_frame_win)

lemma flush_spec:
  assumes ok: "snd_side_ok k" and R: "sendable R k"
  shows "\<exists>nx k'. flush ft k = Inr (nx, k') \<and> flushed k k' \<and> nx \<le> k_interval k
    \<and> k_acklist k' = [] \<and> k_probe k' = 0
    \<and> (probe_wait_ok k \<longrightarrow> probe_wait_ok k' \<and> (k_probe_wait k' = 0 \<longleftrightarrow> k_rmt_wnd k \<noteq> 0))
    \<and> (\<exists>ps. k_out k' = k_out k @ map wires ps \<and> (\<forall>p \<in> set ps. p \<noteq> [] \<and> length (wires p) \<le> unat (k_mtu k)
          \<and> (\<forall>s \<in> set p. wireQ (k_conv k) R s)))"
proof -
  let ?Q = "wireQ (k_conv k) R"
  have cfg: "cfg_ok k" using ok by (simp add: snd_side_ok_def)
  have seg: "ctl_seg (k_conv k) (flush_header k)" by (simp add: ctl_seg_def flush_header_def zero_segment_def)
  obtain seg' k1 w1 where a: "flush_acks (flush_header k) (k_acklist k) (k, []) = Inr (seg', k1, w1)"
      "packed ?Q (k_out k) (k1, w1)" "out_frame k k1" "ctl_seg (k_conv k) seg'"
    using flush_acks_packed [OF packed_Nil cfg seg] by blast
  define k2 where "k2 = k1\<lparr>k_acklist := []\<rparr>"
  define k3 where "k3 = flush_probe_timer k2"
  have f2: "ctl_frame k k2"
    unfolding k2_def by (rule ctl_frame_trans [OF out_ctl_frame [OF a(3)] ctl_frame_acklist])
  have f3: "ctl_frame k k3"
    unfolding k3_def by (rule ctl_frame_trans [OF f2 flush_probe_timer_frame(1)])
  have p3: "packed ?Q (k_out k) (k3, w1)"
    using packed_frame [OF a(2), of k3] flush_probe_timer_frame(2) [of k2]
      ctl_frame_fields(1) [OF f3] out_frame_fields(1) [OF a(3)] by (simp add: k3_def k2_def)
  obtain k4 w4 where p: "flush_probe_cmds seg' (k3, w1) = Inr (k4, w4)" "packed ?Q (k_out k) (k4, w4)"
      "ctl_frame k3 k4" "k_probe_wait k4 = k_probe_wait k3" "k_probe k4 = 0" "k_acklist k4 = k_acklist k3"
    using flush_probe_cmds_packed [OF p3 _ a(4)] ctl_frame_cfg_ok [OF f3] cfg by blast
  have f4: "ctl_frame k k4" by (rule ctl_frame_trans [OF f3 p(3)])
  have cv: "k_conv k4 = k_conv k" and mt: "k_mtu k4 = k_mtu k" and iv: "k_interval k4 = k_interval k"
    using ctl_frame_fields [OF f4] by simp_all
  have ok4: "snd_side_ok k4" and R4: "sendable R k4" using ok R snd_side_ok_frame [OF f4] sendable_frame [OF f4] by simp_all
  have pk4: "packed (wireQ (k_conv k4) R) (k_out k) (k4, w4)" using p(2) cv by simp
  obtain nx k' where d: "flush_data ft (seg_wnd (flush_header k)) (seg_una (flush_header k)) (k4, w4) = Inr (nx, k')"
      "flushed k4 k'" "nx \<le> k_interval k4"
      "k_acklist k' = k_acklist k4 \<and> k_probe k' = k_probe k4 \<and> k_probe_wait k' = k_probe_wait k4"
      "\<exists>ps. k_out k' = k_out k @ map wires ps \<and> (\<forall>p \<in> set ps. p \<noteq> [] \<and> length (wires p) \<le> unat (k_mtu k4)
          \<and> (\<forall>s \<in> set p. wireQ (k_conv k4) R s))"
    using flush_data_spec [OF ok4 R4 pk4, of ft "seg_wnd (flush_header k)" "seg_una (flush_header k)"] by blast
  have e: "(ft = IKCP_FLUSH_ACKONLY \<or> ft = IKCP_FLUSH_FULL) = True" by (cases ft) simp_all
  have run: "flush ft k = Inr (nx, k')"
    unfolding flush_def Let_def e if_True a(1) go_bind_Inr case_prod_conv k2_def [symmetric] k3_def [symmetric] p(1)
    by (rule d(1))
  have pb: "k_probe k4 = 0" "k_acklist k4 = []"
    using p(5,6) flush_probe_timer_frame(3) [of k2] by (simp_all add: k3_def k2_def)
  have "k_probe_wait k2 = k_probe_wait k" "k_rmt_wnd k2 = k_rmt_wnd k"
    using out_frame_fields [OF a(3)] by (simp_all add: k2_def)
  then have pw: "probe_wait_ok k \<longrightarrow> probe_wait_ok k4 \<and> (k_probe_wait k4 = 0 \<longleftrightarrow> k_rmt_wnd k \<noteq> 0)"
    using flush_probe_timer_bound [of k2] p(4) by (simp add: probe_wait_ok_def k3_def)
  have pw': "probe_wait_ok k \<longrightarrow> probe_wait_ok k' \<and> (k_probe_wait k' = 0 \<longleftrightarrow> k_rmt_wnd k \<noteq> 0)"
  proof -
    have "probe_wait_ok k' = probe_wait_ok k4" "k_probe_wait k' = k_probe_wait k4"
      using d(4) by (simp_all add: probe_wait_ok_def)
    with pw show ?thesis by simp
  qed
  show ?thesis
    by (rule exI [of _ nx], rule exI [of _ k'], intro conjI)
      (use run flushed_frame [OF f4 d(2)] d(3-5) pb pw' cv mt iv in simp_all)
qed


section \<open>Properties\<close>

lemma same_seg_from: "list_all2 same_seg xs ys \<Longrightarrow> y \<in> set ys \<Longrightarrow> \<exists>x \<in> set xs. same_seg x y"
  by (induction rule: list_all2_induct) auto

lemma flushed_side_ok:
  assumes ok: "snd_side_ok k" and fl: "flushed k k'"
  shows "snd_side_ok k'"
proof -
  let ?m = "win_count k" and ?qs = "rb_list (k_snd_queue k)" and ?bs = "rb_list (k_snd_buf k)"
  let ?st = "stamp (k_conv k) (k_snd_nxt k) (take ?m ?qs)"
  note fr = fl [unfolded flushed_def flush_frame_def]
  have l: "list_all2 same_seg (?bs @ ?st) (rb_list (k_snd_buf k'))" using fl by (simp add: flushed_def)
  have x: "length (seg_data s) \<le> unat (k_mss k) \<and> seg_conv s = k_conv k \<and> seg_cmd s = IKCP_CMD_PUSH"
    if "s \<in> set (?bs @ ?st)" for s
    using ok that stamp_fields [of s "k_conv k" "k_snd_nxt k" "take ?m ?qs"] set_take_subset [of ?m ?qs]
    unfolding snd_side_ok_def by fastforce
  have "\<forall>s \<in> set (rb_list (k_snd_buf k')). length (seg_data s) \<le> unat (k_mss k)
      \<and> seg_conv s = k_conv k \<and> seg_cmd s = IKCP_CMD_PUSH"
  proof
    fix s assume "s \<in> set (rb_list (k_snd_buf k'))"
    with same_seg_from [OF l] obtain t where "t \<in> set (?bs @ ?st)" "same_seg t s" by blast
    with x [of t] show "length (seg_data s) \<le> unat (k_mss k) \<and> seg_conv s = k_conv k \<and> seg_cmd s = IKCP_CMD_PUSH"
      by (simp add: same_seg_def)
  qed
  moreover have "set (rb_list (k_snd_queue k')) \<subseteq> set ?qs" using fr by (simp add: set_drop_subset)
  ultimately show ?thesis
    using ok fr unfolding snd_side_ok_def cfg_ok_def by (auto simp: subset_iff)
qed

lemma NewKCP_snd_side_ok: "snd_side_ok (NewKCP conv clock snmp)"
  using NewKCP_snd_ok [of conv clock snmp]
  by (simp add: snd_side_ok_def cfg_ok_def NewKCP_def ikcp_consts NewRingBuffer_inv)

text \<open>C13: \<open>flush\<close> on a consistent send side never panics, keeps the send side consistent, and every
  packet it hands to \<open>output\<close> is non-empty, at most \<open>mtu\<close> bytes long, and a sequence of whole
  encoded segments of this conversation with a known command. The returned delay is at most
  the configured interval.\<close>

theorem flush_packets_fit:
  assumes "snd_side_ok k"
  shows "\<exists>nx k' ps. flush ft k = Inr (nx, k') \<and> snd_side_ok k' \<and> nx \<le> k_interval k
    \<and> k_out k' = k_out k @ map wires ps
    \<and> (\<forall>p \<in> set ps. p \<noteq> [] \<and> length (wires p) \<le> unat (k_mtu k)
        \<and> (\<forall>s \<in> set p. seg_conv s = k_conv k
              \<and> seg_cmd s \<in> {IKCP_CMD_PUSH, IKCP_CMD_ACK, IKCP_CMD_WASK, IKCP_CMD_WINS}))"
proof -
  have "sendable (\<lambda>_ _ _. True) k" by (simp add: sendable_def)
  then obtain nx k' ps where f: "flush ft k = Inr (nx, k')" "flushed k k'" "nx \<le> k_interval k"
      "k_out k' = k_out k @ map wires ps"
      "\<forall>p \<in> set ps. p \<noteq> [] \<and> length (wires p) \<le> unat (k_mtu k)
        \<and> (\<forall>s \<in> set p. wireQ (k_conv k) (\<lambda>_ _ _. True) s)"
    using flush_spec [OF assms, of "\<lambda>_ _ _. True" ft] by blast
  moreover have "snd_side_ok k'" by (rule flushed_side_ok [OF assms f(2)])
  moreover have "\<forall>s. wireQ (k_conv k) (\<lambda>_ _ _. True) s \<longrightarrow> seg_conv s = k_conv k
      \<and> seg_cmd s \<in> {IKCP_CMD_PUSH, IKCP_CMD_ACK, IKCP_CMD_WASK, IKCP_CMD_WINS}"
    by (auto simp: wireQ_def ctl_seg_def)
  ultimately show ?thesis by blast
qed

theorem flush_packets_fit_witness:
  "\<exists>nx k'. flush IKCP_FLUSH_FULL (NewKCP 7 (\<lambda>_. 0) newSnmp) = Inr (nx, k') \<and> nx \<le> 100"
  using flush_packets_fit [OF NewKCP_snd_side_ok, of IKCP_FLUSH_FULL 7 "\<lambda>_. 0" newSnmp]
  by (auto simp: NewKCP_def ikcp_consts)

text \<open>The sliding window. \<open>flush\<close> moves exactly as many queued segments into the send buffer as
  the window (the least of \<open>snd_wnd\<close>, \<open>rmt_wnd\<close> and, under congestion control, \<open>cwnd\<close>) admits beyond
  those in flight; they get the next sequence numbers in order. Segments in the buffer keep
  number, fragment index and data; \<open>snd_una\<close> and the receive side are untouched, the pending
  acknowledgements are gone, and under congestion control \<open>cwnd\<close> ends at least 1.\<close>

theorem flush_slides_window:
  assumes "snd_side_ok k"
  shows "\<exists>nx k'. flush ft k = Inr (nx, k')
    \<and> rb_list (k_snd_queue k') = drop (win_count k) (rb_list (k_snd_queue k))
    \<and> list_all2 same_seg (rb_list (k_snd_buf k)
          @ stamp (k_conv k) (k_snd_nxt k) (take (win_count k) (rb_list (k_snd_queue k)))) (rb_list (k_snd_buf k'))
    \<and> k_snd_nxt k' = k_snd_nxt k + of_nat (win_count k) \<and> k_snd_una k' = k_snd_una k
    \<and> RingBuffer_Len (k_snd_buf k') \<le> max (RingBuffer_Len (k_snd_buf k)) (unat (flush_cwnd k))
    \<and> k_rcv_queue k' = k_rcv_queue k \<and> k_rcv_buf k' = k_rcv_buf k \<and> k_rcv_nxt k' = k_rcv_nxt k
    \<and> k_acklist k' = [] \<and> (k_nocwnd k = 0 \<longrightarrow> 1 \<le> k_cwnd k')"
proof -
  have "sendable (\<lambda>_ _ _. True) k" by (simp add: sendable_def)
  then obtain nx k' where f: "flush ft k = Inr (nx, k')" "flushed k k'" "k_acklist k' = []"
    using flush_spec [OF assms, of "\<lambda>_ _ _. True" ft] by blast
  have l: "list_all2 same_seg (rb_list (k_snd_buf k)
      @ stamp (k_conv k) (k_snd_nxt k) (take (win_count k) (rb_list (k_snd_queue k)))) (rb_list (k_snd_buf k'))"
    using f(2) by (simp add: flushed_def)
  have "RingBuffer_Len (k_snd_buf k') = RingBuffer_Len (k_snd_buf k) + win_count k"
    using list_all2_lengthD [OF l] by (simp add: win_count_def)
  then have "RingBuffer_Len (k_snd_buf k') \<le> max (RingBuffer_Len (k_snd_buf k)) (unat (flush_cwnd k))"
    unfolding win_count_def by linarith
  with f l show ?thesis by (simp add: flushed_def flush_frame_def)
qed

theorem flush_slides_window_witness:
  "\<exists>nx k'. flush IKCP_FLUSH_FULL (NewKCP 7 (\<lambda>_. 0) newSnmp) = Inr (nx, k') \<and> 1 \<le> k_cwnd k'"
  using flush_slides_window [OF NewKCP_snd_side_ok, of IKCP_FLUSH_FULL 7 "\<lambda>_. 0" newSnmp]
  by (auto simp: NewKCP_def)

text \<open>Window probing backs off within bounds. As long as the remote window is zero, every
  \<open>flush\<close> leaves the probe interval between 500 ms and 120 s; once the remote window opens the
  probe is disarmed.\<close>

theorem flush_probe_backoff:
  assumes "snd_side_ok k" and "probe_wait_ok k"
  shows "\<exists>nx k'. flush ft k = Inr (nx, k') \<and> probe_wait_ok k' \<and> k_probe k' = 0
    \<and> (k_rmt_wnd k = 0 \<longrightarrow> 500 \<le> k_probe_wait k' \<and> k_probe_wait k' \<le> 120000)
    \<and> (k_rmt_wnd k \<noteq> 0 \<longrightarrow> k_probe_wait k' = 0)"
proof -
  have "sendable (\<lambda>_ _ _. True) k" by (simp add: sendable_def)
  then show ?thesis
    using flush_spec [OF assms(1), of "\<lambda>_ _ _. True" ft] assms(2) by (auto simp: probe_wait_ok_def ikcp_consts)
qed

theorem flush_probe_backoff_witness:
  "\<exists>nx k'. flush IKCP_FLUSH_FULL ((NewKCP 7 (\<lambda>_. 0) newSnmp)\<lparr>k_rmt_wnd := 0\<rparr>) = Inr (nx, k')
    \<and> 500 \<le> k_probe_wait k'"
proof -
  let ?k = "(NewKCP 7 (\<lambda>_. 0) newSnmp)\<lparr>k_rmt_wnd := 0\<rparr>"
  have "snd_side_ok ?k" using NewKCP_snd_side_ok [of 7 "\<lambda>_. 0" newSnmp]
    by (auto simp: snd_side_ok_def cfg_ok_def snd_ok_def)
  moreover have "probe_wait_ok ?k" by (simp add: probe_wait_ok_def NewKCP_def)
  ultimately show ?thesis using flush_probe_backoff [of ?k IKCP_FLUSH_FULL] by auto
qed

end
