(* ===== verification/Kcp_Input.thy ===== *)
theory Kcp_Input
  imports Kcp_Wire
begin

text \<open>
  \<open>KCP.Input\<close> of \<open>src/kcp/ikcp.go\<close>: the decoding loop over a packet, the per-command handling, the
  round-trip update, the congestion window on a new acknowledgement, and the flush decision.
\<close>

text \<open>The locals of the loop. \<open>flushSegments\<close> and \<open>updateRTT\<close>, which only collect bit 0, are booleans.\<close>

record inputst =
  is_k :: KCP
  is_latest :: u32
  is_updateRTT :: bool
  is_inSegs :: u64
  is_flush :: bool

text \<open>The header of a data segment as \<open>parse_data\<close> gets it.\<close>

definition input_seg :: "u32 \<Rightarrow> seg_header \<Rightarrow> bytes \<Rightarrow> segment" where
  "input_seg conv h d = zero_segment\<lparr>seg_conv := conv, seg_cmd := h_cmd h, seg_frg := h_frg h, seg_wnd := h_wnd h,
     seg_ts := h_ts h, seg_sn := h_sn h, seg_una := h_una h, seg_data := d\<rparr>"

definition input_push :: "PacketType \<Rightarrow> u32 \<Rightarrow> seg_header \<Rightarrow> bytes \<Rightarrow> KCP \<Rightarrow> KCP go" where
  "input_push pktType conv h d k =
    go_bind
      (if itimediff (h_sn h) (k_rcv_nxt k + k_rcv_wnd k) < 0
       then let k1 = ack_push (h_sn h) (h_ts h) k
            in if itimediff (h_sn h) (k_rcv_nxt k1) \<ge> 0
               then parse_data (input_seg conv h d) k1
               else Inr (True, k1)
       else Inr (True, k))
      (\<lambda>(repeat, k2).
         Inr (if pktType = IKCP_PACKET_REGULAR \<and> repeat
              then k2\<lparr>k_snmp := (k_snmp k2)\<lparr>RepeatSegs := RepeatSegs (k_snmp k2) + 1\<rparr>\<rparr> else k2))"

text \<open>One segment, after its header and length have been checked.\<close>

definition input_segment :: "PacketType \<Rightarrow> u32 \<Rightarrow> seg_header \<Rightarrow> bytes \<Rightarrow> inputst \<Rightarrow> inputst go" where
  "input_segment pktType conv h d st =
    (let k = is_k st;
         k1 = (if pktType = IKCP_PACKET_REGULAR then k\<lparr>k_rmt_wnd := ucast (h_wnd h)\<rparr> else k);
         (n, k2) = parse_una (h_una h) k1;
         k3 = shrink_buf k2;
         st3 = st\<lparr>is_k := k3, is_flush := is_flush st \<or> n > 0\<rparr>
     in if h_cmd h = IKCP_CMD_ACK then
          (let k4 = parse_ack (h_sn h) k3;
               (r, k5) = parse_fastack (h_sn h) (h_ts h) k4
           in Inr (st3\<lparr>is_k := k5, is_flush := is_flush st3 \<or> r \<noteq> 0, is_updateRTT := True, is_latest := h_ts h\<rparr>))
        else if h_cmd h = IKCP_CMD_PUSH then
          go_bind (input_push pktType conv h d k3) (\<lambda>k4. Inr (st3\<lparr>is_k := k4\<rparr>))
        else if h_cmd h = IKCP_CMD_WASK then
          Inr (st3\<lparr>is_k := k3\<lparr>k_probe := k_probe k3 OR IKCP_ASK_TELL\<rparr>\<rparr>)
        else Inr st3)"

text \<open>The loop. A negative code is an early return; the state so far is kept. Every round
  consumes at least the 24 bytes of a header.\<close>

function input_loop :: "PacketType \<Rightarrow> bytes \<Rightarrow> inputst \<Rightarrow> (int \<times> inputst) go" where
  "input_loop pktType data st =
    (if length data < IKCP_OVERHEAD then Inr (0, st)
     else (case ikcp_decode32u data of
             Inl p \<Rightarrow> Inl p
           | Inr (conv, data1) \<Rightarrow>
               if conv \<noteq> k_conv (is_k st) then Inr (-1, st)
               else (case decode_header data1 of
                       Inl p \<Rightarrow> Inl p
                     | Inr (h, data2) \<Rightarrow>
                         if length data2 < unat (h_length h) then Inr (-2, st)
                         else if h_cmd h \<noteq> IKCP_CMD_PUSH \<and> h_cmd h \<noteq> IKCP_CMD_ACK
                               \<and> h_cmd h \<noteq> IKCP_CMD_WASK \<and> h_cmd h \<noteq> IKCP_CMD_WINS then Inr (-3, st)
                         else (case input_segment pktType conv h (take (unat (h_length h)) data2) st of
                                 Inl p \<Rightarrow> Inl p
                               | Inr st' \<Rightarrow> input_loop pktType (drop (unat (h_length h)) data2)
                                              (st'\<lparr>is_inSegs := is_inSegs st' + 1\<rparr>)))))"
  by pat_completeness auto
termination
proof (relation "measure (\<lambda>(p, data, st). length data)", goal_cases)
  case (2 p data st x conv data1 y h data2 st')
  then obtain "4 \<le> length data" "20 \<le> length (drop 4 data)" by (simp add: IKCP_OVERHEAD_def)
  then have "data1 = drop 4 data" "data2 = drop 20 data1"
    using ikcp_decode32u_ok [of data] decode_header_ok [of data1] 2 by auto
  with 2 show ?case by (simp add: IKCP_OVERHEAD_def)
qed simp

declare input_loop.simps [simp del]

definition input_rtt :: "PacketType \<Rightarrow> inputst \<Rightarrow> KCP \<Rightarrow> KCP" where
  "input_rtt pktType st k =
    (if is_updateRTT st \<and> pktType = IKCP_PACKET_REGULAR then
       (case currentMs k of (current, k1) \<Rightarrow>
          if itimediff current (is_latest st) \<ge> 0 then update_ack (current - is_latest st) k1 else k1)
     else k)"

text \<open>The congestion window when the window has slid; \<open>una0\<close> is \<open>snd_una\<close> before the packet. The
  divisor \<open>incr\<close> is zero only when \<open>mss\<close> is, which panics.\<close>

definition input_cwnd :: "u32 \<Rightarrow> KCP \<Rightarrow> KCP go" where
  "input_cwnd una0 k =
    (if k_nocwnd k = 0 \<and> itimediff (k_snd_una k) una0 > 0 \<and> k_cwnd k < k_rmt_wnd k then
       let mss = k_mss k in
       go_bind
        (if k_cwnd k < k_ssthresh k then Inr (k\<lparr>k_cwnd := k_cwnd k + 1, k_incr := k_incr k + mss\<rparr>)
         else let incr1 = (if k_incr k < mss then mss else k_incr k)
              in if incr1 = 0 then Inl DivByZero
                 else let incr2 = incr1 + ((mss * mss) div incr1 + mss div 16)
                      in Inr (if (k_cwnd k + 1) * mss \<le> incr2
                              then k\<lparr>k_incr := incr2,
                                     k_cwnd := (if mss > 0 then (incr2 + mss - 1) div mss else incr2 + mss - 1)\<rparr>
                              else k\<lparr>k_incr := incr2\<rparr>))
        (\<lambda>k1. Inr (if k_cwnd k1 > k_rmt_wnd k1
                   then k1\<lparr>k_cwnd := k_rmt_wnd k1, k_incr := k_rmt_wnd k1 * mss\<rparr> else k1))
     else Inr k)"

definition input_flush :: "bool \<Rightarrow> bool \<Rightarrow> KCP \<Rightarrow> KCP go" where
  "input_flush flushSegments ackNoDelay k =
    (if flushSegments then go_bind (flush IKCP_FLUSH_FULL k) (\<lambda>(_, k'). Inr k')
     else if length (k_acklist k) \<ge> unat (k_mtu k) div IKCP_OVERHEAD
     then go_bind (flush IKCP_FLUSH_ACKONLY k) (\<lambda>(_, k'). Inr k')
     else if ackNoDelay \<and> length (k_acklist k) > 0
     then go_bind (flush IKCP_FLUSH_ACKONLY k) (\<lambda>(_, k'). Inr k')
     else Inr k)"

definition Input :: "bytes \<Rightarrow> PacketType \<Rightarrow> bool \<Rightarrow> KCP \<Rightarrow> (int \<times> KCP) go" where
  "Input data pktType ackNoDelay k =
    (if length data < IKCP_OVERHEAD then Inr (-1, k)
     else go_bind (input_loop pktType data
                     \<lparr>is_k = k, is_latest = 0, is_updateRTT = False, is_inSegs = 0, is_flush = False\<rparr>) (\<lambda>(r, st).
       if r < 0 then Inr (r, is_k st)
       else let k1 = (is_k st)\<lparr>k_snmp := (k_snmp (is_k st))\<lparr>InSegs := InSegs (k_snmp (is_k st)) + is_inSegs st\<rparr>\<rparr>
            in go_bind (input_cwnd (k_snd_una k) (input_rtt pktType st k1)) (\<lambda>k2.
               go_bind (input_flush (is_flush st) ackNoDelay k2) (\<lambda>k3. Inr (0, k3)))))"


section \<open>Effect on the send side\<close>

text \<open>What an incoming segment leaves of the send side: the configuration, the queue and the next
  number stay; the segments still unacknowledged were so before, with the same contents.\<close>

definition live_segs :: "KCP \<Rightarrow> (u32 \<times> u8 \<times> bytes) set" where
  "live_segs k = (\<lambda>s. (seg_sn s, seg_frg s, seg_data s)) ` {s \<in> set (rb_list (k_snd_buf k)). seg_acked s \<noteq> 1}"

definition snd_kept :: "KCP \<Rightarrow> KCP \<Rightarrow> bool" where
  "snd_kept k k' \<longleftrightarrow> k_conv k' = k_conv k \<and> k_mtu k' = k_mtu k \<and> k_mss k' = k_mss k \<and> k_buffer k' = k_buffer k
     \<and> k_stream k' = k_stream k \<and> k_rcv_wnd k' = k_rcv_wnd k \<and> k_snd_queue k' = k_snd_queue k
     \<and> k_snd_nxt k' = k_snd_nxt k \<and> k_out k' = k_out k \<and> live_segs k' \<subseteq> live_segs k \<and> snd_side_ok k'"

text \<open>Updates of fields the send side does not depend on.\<close>

definition snd_same :: "KCP \<Rightarrow> KCP \<Rightarrow> bool" where
  "snd_same k k' \<longleftrightarrow> k_conv k' = k_conv k \<and> k_mtu k' = k_mtu k \<and> k_mss k' = k_mss k \<and> k_buffer k' = k_buffer k
     \<and> k_stream k' = k_stream k \<and> k_rcv_wnd k' = k_rcv_wnd k \<and> k_snd_queue k' = k_snd_queue k
     \<and> k_snd_nxt k' = k_snd_nxt k \<and> k_out k' = k_out k
     \<and> k_snd_buf k' = k_snd_buf k \<and> k_snd_una k' = k_snd_una k \<and> k_rmt_wnd k' = k_rmt_wnd k"

definition rcv_same :: "KCP \<Rightarrow> KCP \<Rightarrow> bool" where
  "rcv_same k k' \<longleftrightarrow> k_rcv_queue k' = k_rcv_queue k \<and> k_rcv_buf k' = k_rcv_buf k \<and> k_rcv_nxt k' = k_rcv_nxt k"

lemma snd_same_kept: "snd_same k k' \<Longrightarrow> snd_side_ok k \<Longrightarrow> snd_kept k k'"
  by (auto simp: snd_same_def snd_kept_def live_segs_def snd_side_ok_def snd_ok_def cfg_ok_def)

lemma snd_kept_trans: "snd_kept k k' \<Longrightarrow> snd_kept k' k'' \<Longrightarrow> snd_kept k k''"
  by (auto simp: snd_kept_def)

lemma rcv_same_ok: "rcv_same k k' \<Longrightarrow> rcv_ok k' = rcv_ok k"
  by (simp add: rcv_same_def rcv_ok_def)

lemma rcv_same_trans: "rcv_same k k' \<Longrightarrow> rcv_same k' k'' \<Longrightarrow> rcv_same k k''"
  by (simp add: rcv_same_def)

lemma kept_rmt_wnd:
  assumes "snd_side_ok k"
  shows "snd_kept k (k\<lparr>k_rmt_wnd := ucast (w :: u16)\<rparr>)" "rcv_same k (k\<lparr>k_rmt_wnd := ucast w\<rparr>)"
proof -
  have "unat (ucast w :: u32) < 2 ^ 16"
  proof -
    have w: "unat w < 2 ^ 16" using unsigned_less [of w] by simp
    then show ?thesis by (simp add: unsigned_ucast_eq take_bit_nat_eq_self)
  qed
  then show "snd_kept k (k\<lparr>k_rmt_wnd := ucast w\<rparr>)"
    using assms by (auto simp: snd_kept_def live_segs_def snd_side_ok_def snd_ok_def cfg_ok_def)
qed (simp add: rcv_same_def)

lemma snd_kept_bufI:
  assumes ok: "snd_side_ok k" and "snd_ok k'" and k': "k' = k\<lparr>k_snd_buf := b, k_snd_una := u\<rparr>"
    and l: "\<And>s'. s' \<in> set (rb_list b) \<Longrightarrow> \<exists>s \<in> set (rb_list (k_snd_buf k)).
      seg_conv s' = seg_conv s \<and> seg_cmd s' = seg_cmd s \<and> length (seg_data s') \<le> length (seg_data s)
      \<and> (seg_acked s' \<noteq> 1 \<longrightarrow> seg_acked s \<noteq> 1 \<and> seg_sn s' = seg_sn s \<and> seg_frg s' = seg_frg s \<and> seg_data s' = seg_data s)"
  shows "snd_kept k k'"
proof -
  have "\<forall>s' \<in> set (rb_list b). length (seg_data s') \<le> unat (k_mss k) \<and> seg_conv s' = k_conv k \<and> seg_cmd s' = IKCP_CMD_PUSH"
  proof
    fix s' assume "s' \<in> set (rb_list b)"
    from l [OF this] obtain s where "s \<in> set (rb_list (k_snd_buf k))" "seg_conv s' = seg_conv s"
        "seg_cmd s' = seg_cmd s" "length (seg_data s') \<le> length (seg_data s)" by blast
    moreover from this(1) have "length (seg_data s) \<le> unat (k_mss k) \<and> seg_conv s = k_conv k \<and> seg_cmd s = IKCP_CMD_PUSH"
      using ok by (simp add: snd_side_ok_def)
    ultimately show "length (seg_data s') \<le> unat (k_mss k) \<and> seg_conv s' = k_conv k \<and> seg_cmd s' = IKCP_CMD_PUSH"
      by simp
  qed
  moreover have "cfg_ok (k\<lparr>k_snd_buf := b, k_snd_una := u\<rparr>) = cfg_ok k" by (simp add: cfg_ok_def)
  ultimately have "snd_side_ok k'" using ok assms(2) by (simp add: snd_side_ok_def k')
  moreover have "live_segs k' \<subseteq> live_segs k"
  proof
    fix x assume "x \<in> live_segs k'"
    then obtain s' where s': "s' \<in> set (rb_list b)" "seg_acked s' \<noteq> 1" "x = (seg_sn s', seg_frg s', seg_data s')"
      by (auto simp: live_segs_def k')
    from l [OF s'(1)] s'(2) obtain s where "s \<in> set (rb_list (k_snd_buf k))" "seg_acked s \<noteq> 1"
        "seg_sn s' = seg_sn s" "seg_frg s' = seg_frg s" "seg_data s' = seg_data s" by auto
    then show "x \<in> live_segs k" using s'(3) by (auto simp: live_segs_def)
  qed
  ultimately show ?thesis by (simp add: snd_kept_def k')
qed

lemma kept_una:
  assumes ok: "snd_side_ok k"
  shows "\<exists>n k1. parse_una una k = (n, k1) \<and> snd_kept k (shrink_buf k1) \<and> rcv_same k (shrink_buf k1)"
proof -
  have so: "snd_ok k" using ok by (simp add: snd_side_ok_def)
  obtain b where b: "parse_una una k = (int (una_count una k), k\<lparr>k_snd_buf := b\<rparr>)"
      "rb_list b = drop (una_count una k) (rb_list (k_snd_buf k))"
      "shrink_buf (k\<lparr>k_snd_buf := b\<rparr>) = k\<lparr>k_snd_buf := b, k_snd_una := k_snd_una k + of_nat (una_count una k)\<rparr>"
      "snd_ok (k\<lparr>k_snd_buf := b, k_snd_una := k_snd_una k + of_nat (una_count una k)\<rparr>)"
    using una_shrink [OF so refl, of una] by blast
  have "snd_kept k (k\<lparr>k_snd_buf := b, k_snd_una := k_snd_una k + of_nat (una_count una k)\<rparr>)"
    by (rule snd_kept_bufI [OF ok b(4) refl]) (use b(2) in \<open>auto dest: in_set_dropD\<close>)
  with b(1,3) show ?thesis by (simp add: rcv_same_def)
qed

lemma kept_map:
  assumes ok: "snd_side_ok k" and "rb_inv b" and l: "rb_list b = map f (rb_list (k_snd_buf k))"
    and f: "\<And>s. seg_sn (f s) = seg_sn s \<and> seg_conv (f s) = seg_conv s \<and> seg_cmd (f s) = seg_cmd s
      \<and> length (seg_data (f s)) \<le> length (seg_data s)
      \<and> (seg_acked (f s) \<noteq> 1 \<longrightarrow> seg_acked s \<noteq> 1 \<and> seg_frg (f s) = seg_frg s \<and> seg_data (f s) = seg_data s)"
  shows "snd_kept k (k\<lparr>k_snd_buf := b\<rparr>)"
proof -
  have "snd_ok (k\<lparr>k_snd_buf := b\<rparr>)" using snd_ok_map [OF _ assms(2) l] ok f by (simp add: snd_side_ok_def)
  then show ?thesis
    by (rule snd_kept_bufI [OF ok, where b = b and u = "k_snd_una k"]) (use l f in auto)
qed

lemma kept_ack:
  assumes ok: "snd_side_ok k"
  shows "snd_kept k (parse_ack sn k)" "rcv_same k (parse_ack sn k)"
proof -
  have so: "snd_ok k" using ok by (simp add: snd_side_ok_def)
  obtain b where b: "parse_ack sn k = k\<lparr>k_snd_buf := b\<rparr>" "rb_inv b"
      "rb_list b = map (mark_acked sn) (rb_list (k_snd_buf k))"
    using parse_ack_list [OF so] by blast
  show "snd_kept k (parse_ack sn k)" unfolding b(1)
    by (rule kept_map [OF ok b(2,3)]) (simp add: mark_acked_def recycleSegment_def)
  show "rcv_same k (parse_ack sn k)" unfolding b(1) by (simp add: rcv_same_def)
qed

lemma kept_fastack:
  assumes ok: "snd_side_ok k" and p: "parse_fastack sn ts k = (r, k')"
  shows "snd_kept k k'" "rcv_same k k'"
proof -
  have so: "snd_ok k" using ok by (simp add: snd_side_ok_def)
  obtain b where b: "k' = k\<lparr>k_snd_buf := b\<rparr>" "rb_inv b"
      "rb_list b = rb_list (k_snd_buf k) \<or> rb_list b = map (bump_fastack sn ts) (rb_list (k_snd_buf k))"
    using parse_fastack_list [OF so, of sn ts] p by (auto split: if_splits)
  show "snd_kept k k'" using b(3)
  proof
    assume "rb_list b = rb_list (k_snd_buf k)"
    then have "rb_list b = map id (rb_list (k_snd_buf k))" by simp
    then show ?thesis unfolding b(1) by (rule kept_map [OF ok b(2)]) simp
  next
    assume "rb_list b = map (bump_fastack sn ts) (rb_list (k_snd_buf k))"
    then show ?thesis unfolding b(1) by (rule kept_map [OF ok b(2)]) (simp add: bump_fastack_def)
  qed
  show "rcv_same k k'" unfolding b(1) by (simp add: rcv_same_def)
qed


section \<open>Effect on the receive side\<close>

text \<open>What an incoming packet does to the receive side: segments in sequence move to the queue;
  they and what stays buffered come from the buffer and from the packet's data segments.\<close>

definition rcv_adv :: "segment set \<Rightarrow> KCP \<Rightarrow> KCP \<Rightarrow> bool" where
  "rcv_adv S k k' \<longleftrightarrow> rcv_ok k' \<and> (\<exists>moved. rb_list (k_rcv_queue k') = rb_list (k_rcv_queue k) @ moved
     \<and> sns_from (k_rcv_nxt k) moved \<and> k_rcv_nxt k' = k_rcv_nxt k + of_nat (length moved)
     \<and> set moved \<union> set (segments (k_rcv_buf k')) \<subseteq> set (segments (k_rcv_buf k)) \<union> S)"

lemma rcv_same_adv: "rcv_same k k' \<Longrightarrow> rcv_ok k \<Longrightarrow> rcv_adv S k k'"
  unfolding rcv_adv_def by (intro conjI exI [of _ "[]"]) (auto simp: rcv_same_def rcv_ok_def)

lemma rcv_adv_trans:
  assumes "rcv_adv S k k'" and "rcv_adv T k' k''"
  shows "rcv_adv (S \<union> T) k k''"
proof -
  obtain m1 where 1: "rb_list (k_rcv_queue k') = rb_list (k_rcv_queue k) @ m1" "sns_from (k_rcv_nxt k) m1"
      "k_rcv_nxt k' = k_rcv_nxt k + of_nat (length m1)"
      "set m1 \<union> set (segments (k_rcv_buf k')) \<subseteq> set (segments (k_rcv_buf k)) \<union> S"
    using assms(1) unfolding rcv_adv_def by blast
  obtain m2 where 2: "rb_list (k_rcv_queue k'') = rb_list (k_rcv_queue k') @ m2" "sns_from (k_rcv_nxt k') m2"
      "k_rcv_nxt k'' = k_rcv_nxt k' + of_nat (length m2)"
      "set m2 \<union> set (segments (k_rcv_buf k'')) \<subseteq> set (segments (k_rcv_buf k')) \<union> T" "rcv_ok k''"
    using assms(2) unfolding rcv_adv_def by blast
  show ?thesis
    unfolding rcv_adv_def using 1 2 by (intro conjI exI [of _ "m1 @ m2"]) auto
qed

lemma rcv_adv_mono: "rcv_adv S k k' \<Longrightarrow> S \<subseteq> T \<Longrightarrow> rcv_adv T k k'"
  unfolding rcv_adv_def by blast

lemma rcv_adv_same: "rcv_adv S k k' \<Longrightarrow> rcv_same k' k'' \<Longrightarrow> rcv_adv S k k''"
  unfolding rcv_adv_def by (auto simp: rcv_same_def rcv_ok_def)

lemma same_rcv_adv: "rcv_same k k' \<Longrightarrow> rcv_adv S k' k'' \<Longrightarrow> rcv_adv S k k''"
  unfolding rcv_adv_def by (auto simp: rcv_same_def)

lemma rcv_frame_snd_same: "rcv_frame k k' \<Longrightarrow> snd_same k k'"
  unfolding rcv_frame_def by (elim exE) (simp add: snd_same_def)

lemma snd_same_trans: "snd_same k k' \<Longrightarrow> snd_same k' k'' \<Longrightarrow> snd_same k k''"
  by (simp add: snd_same_def)

lemma parse_data_adv:
  assumes ok: "rcv_ok k" and len: "length (seg_data s) \<le> mtuLimit"
  shows "\<exists>r k'. parse_data s k = Inr (r, k') \<and> snd_same k k' \<and> rcv_adv {s} k k'"
proof (cases "in_rcv_window (seg_sn s) k")
  case False
  then show ?thesis
    using parse_data_outside [OF False] rcv_same_adv [of k k] ok by (auto simp: snd_same_def rcv_same_def)
next
  case True
  let ?dup = "seg_sn s \<in> seg_sn ` set (segments (k_rcv_buf k))"
  obtain mv k' where p: "parse_data s k = Inr (?dup, k')" "rcv_ok k'" "rcv_frame k k'"
      "rb_list (k_rcv_queue k') = rb_list (k_rcv_queue k) @ mv" "sns_from (k_rcv_nxt k) mv"
      "k_rcv_nxt k' = k_rcv_nxt k + of_nat (length mv)"
      "(if ?dup then mset (segments (k_rcv_buf k)) else add_mset s (mset (segments (k_rcv_buf k))))
        = mset mv + mset (segments (k_rcv_buf k'))"
    using parse_data_inside [OF ok True len] by blast
  have "set mv \<union> set (segments (k_rcv_buf k')) \<subseteq> set (segments (k_rcv_buf k)) \<union> {s}"
    using arg_cong [OF p(7), of set_mset] by (auto split: if_splits)
  then have "rcv_adv {s} k k'" unfolding rcv_adv_def using p by blast
  with p rcv_frame_snd_same show ?thesis by blast
qed

lemma input_push_adv:
  assumes ok: "rcv_ok k" and len: "length d \<le> mtuLimit"
  shows "\<exists>k'. input_push p conv h d k = Inr k' \<and> snd_same k k' \<and> rcv_adv {input_seg conv h d} k k'"
proof -
  let ?k1 = "ack_push (h_sn h) (h_ts h) k" and ?s = "input_seg conv h d"
  have k1: "snd_same k ?k1" "rcv_same k ?k1" "rcv_ok ?k1"
    using ok by (simp_all add: ack_push_def snd_same_def rcv_same_def rcv_ok_def)
  have "length (seg_data ?s) \<le> mtuLimit" using len by (simp add: input_seg_def)
  then obtain r k2 where p: "parse_data ?s ?k1 = Inr (r, k2)" "snd_same ?k1 k2" "rcv_adv {?s} ?k1 k2"
    using parse_data_adv [OF k1(3)] by blast
  have a2: "snd_same k k2" "rcv_adv {?s} k k2"
    using p k1 snd_same_trans same_rcv_adv by blast+
  have a1: "rcv_adv {?s} k ?k1" "rcv_adv {?s} k k" "snd_same k k"
    using rcv_same_adv ok k1(2) by (auto simp: rcv_same_def snd_same_def)
  let ?res = "if itimediff (h_sn h) (k_rcv_nxt k + k_rcv_wnd k) < 0
      then let k1 = ?k1 in if itimediff (h_sn h) (k_rcv_nxt k1) \<ge> 0 then parse_data ?s k1 else Inr (True, k1)
      else Inr (True, k)"
  have "\<exists>rep k3. ?res = Inr (rep, k3) \<and> snd_same k k3 \<and> rcv_adv {?s} k k3"
    using a1 a2 k1(1) p(1)
    by (cases "itimediff (h_sn h) (k_rcv_nxt k + k_rcv_wnd k) < 0";
        cases "itimediff (h_sn h) (k_rcv_nxt ?k1) \<ge> 0") (auto simp: Let_def)
  then obtain rep k3 where r: "?res = Inr (rep, k3)" "snd_same k k3" "rcv_adv {?s} k k3" by blast
  let ?k4 = "if p = IKCP_PACKET_REGULAR \<and> rep
      then k3\<lparr>k_snmp := (k_snmp k3)\<lparr>RepeatSegs := RepeatSegs (k_snmp k3) + 1\<rparr>\<rparr> else k3"
  have "input_push p conv h d k = Inr ?k4"
    unfolding input_push_def r(1) by simp
  moreover have "snd_same k3 ?k4" "rcv_same k3 ?k4" by (simp_all add: snd_same_def rcv_same_def)
  ultimately show ?thesis using r snd_same_trans rcv_adv_same by blast
qed


section \<open>One segment and the loop\<close>

definition conn_ok :: "KCP \<Rightarrow> bool" where
  "conn_ok k \<longleftrightarrow> snd_side_ok k \<and> rcv_ok k"

text \<open>The data segment a header stands for, if any.\<close>

definition push_set :: "u32 \<Rightarrow> seg_header \<Rightarrow> bytes \<Rightarrow> segment set" where
  "push_set conv h d = (if h_cmd h = IKCP_CMD_PUSH then {input_seg conv h d} else {})"

lemma input_segment_spec:
  assumes ok: "conn_ok (is_k st)" and len: "length d \<le> mtuLimit"
  shows "\<exists>st'. input_segment p conv h d st = Inr st' \<and> snd_kept (is_k st) (is_k st')
    \<and> rcv_adv (push_set conv h d) (is_k st) (is_k st')"
proof -
  let ?k = "is_k st"
  have so: "snd_side_ok ?k" and ro: "rcv_ok ?k" using ok by (simp_all add: conn_ok_def)
  define k1 where "k1 = (if p = IKCP_PACKET_REGULAR then ?k\<lparr>k_rmt_wnd := ucast (h_wnd h)\<rparr> else ?k)"
  have "snd_kept ?k ?k" "rcv_same ?k ?k"
    using snd_same_kept [of ?k ?k] so by (simp_all add: snd_same_def rcv_same_def)
  then have 1: "snd_kept ?k k1" "rcv_same ?k k1" using kept_rmt_wnd [OF so, of "h_wnd h"] by (auto simp: k1_def)
  have so1: "snd_side_ok k1" using 1(1) by (simp add: snd_kept_def)
  obtain n k2 where 2: "parse_una (h_una h) k1 = (n, k2)" "snd_kept k1 (shrink_buf k2)" "rcv_same k1 (shrink_buf k2)"
    using kept_una [OF so1] by blast
  define k3 where "k3 = shrink_buf k2"
  have k3: "snd_kept ?k k3" "rcv_same ?k k3" "snd_side_ok k3"
    using snd_kept_trans [OF 1(1)] rcv_same_trans [OF 1(2)] 2 by (auto simp: k3_def snd_kept_def)
  have ro3: "rcv_ok k3" using ro rcv_same_ok [OF k3(2)] by simp
  define st3 where "st3 = st\<lparr>is_k := k3, is_flush := is_flush st \<or> n > 0\<rparr>"
  have st3: "is_k st3 = k3" by (simp add: st3_def)
  have unf: "input_segment p conv h d st =
      (if h_cmd h = IKCP_CMD_ACK then
          (let k4 = parse_ack (h_sn h) k3; (r, k5) = parse_fastack (h_sn h) (h_ts h) k4
           in Inr (st3\<lparr>is_k := k5, is_flush := is_flush st3 \<or> r \<noteq> 0, is_updateRTT := True, is_latest := h_ts h\<rparr>))
        else if h_cmd h = IKCP_CMD_PUSH then
          go_bind (input_push p conv h d k3) (\<lambda>k4. Inr (st3\<lparr>is_k := k4\<rparr>))
        else if h_cmd h = IKCP_CMD_WASK then Inr (st3\<lparr>is_k := k3\<lparr>k_probe := k_probe k3 OR IKCP_ASK_TELL\<rparr>\<rparr>)
        else Inr st3)"
    unfolding input_segment_def Let_def k1_def [symmetric] 2(1) case_prod_conv k3_def [symmetric] st3_def ..
  consider (ack) "h_cmd h = IKCP_CMD_ACK" | (push) "h_cmd h = IKCP_CMD_PUSH"
    | (other) "h_cmd h \<noteq> IKCP_CMD_ACK" "h_cmd h \<noteq> IKCP_CMD_PUSH" by blast
  then show ?thesis
  proof cases
    case ack
    obtain r k5 where f: "parse_fastack (h_sn h) (h_ts h) (parse_ack (h_sn h) k3) = (r, k5)" by force
    note a = kept_ack [OF k3(3), of "h_sn h"]
    have so4: "snd_side_ok (parse_ack (h_sn h) k3)" using a(1) by (simp add: snd_kept_def)
    note b = kept_fastack [OF so4 f]
    have "snd_kept ?k k5" "rcv_same ?k k5" using a b k3 snd_kept_trans rcv_same_trans by blast+
    then show ?thesis using ack f ro rcv_same_adv unfolding unf by (simp add: Let_def)
  next
    case push
    obtain k4 where q: "input_push p conv h d k3 = Inr k4" "snd_same k3 k4" "rcv_adv {input_seg conv h d} k3 k4"
      using input_push_adv [OF ro3 len] by blast
    have "snd_kept ?k k4" using snd_kept_trans [OF k3(1) snd_same_kept [OF q(2) k3(3)]] .
    moreover have "rcv_adv (push_set conv h d) ?k k4"
      using same_rcv_adv [OF k3(2) q(3)] push by (simp add: push_set_def)
    moreover have "IKCP_CMD_PUSH \<noteq> IKCP_CMD_ACK" by (simp add: ikcp_consts)
    ultimately show ?thesis using push q(1) unfolding unf by simp
  next
    case other
    let ?k4 = "k3\<lparr>k_probe := k_probe k3 OR IKCP_ASK_TELL\<rparr>"
    have "snd_same k3 ?k4" "rcv_same k3 ?k4" by (simp_all add: snd_same_def rcv_same_def)
    then have "snd_kept ?k ?k4" "rcv_same ?k ?k4"
      using k3 snd_kept_trans snd_same_kept rcv_same_trans by blast+
    then show ?thesis using other k3 ro st3 rcv_same_adv unfolding unf by auto
  qed
qed


text \<open>The recursion equation once the header is known.\<close>

lemma input_loop_step:
  assumes "IKCP_OVERHEAD \<le> length data"
  shows "\<exists>conv h. ikcp_decode32u data = Inr (conv, drop 4 data)
    \<and> decode_header (drop 4 data) = Inr (h, drop 24 data)
    \<and> input_loop p data st =
      (if conv \<noteq> k_conv (is_k st) then Inr (-1, st)
       else if length data - 24 < unat (h_length h) then Inr (-2, st)
       else if h_cmd h \<noteq> IKCP_CMD_PUSH \<and> h_cmd h \<noteq> IKCP_CMD_ACK
             \<and> h_cmd h \<noteq> IKCP_CMD_WASK \<and> h_cmd h \<noteq> IKCP_CMD_WINS then Inr (-3, st)
       else go_bind (input_segment p conv h (take (unat (h_length h)) (drop 24 data)) st) (\<lambda>st'.
              input_loop p (drop (unat (h_length h)) (drop 24 data)) (st'\<lparr>is_inSegs := is_inSegs st' + 1\<rparr>)))"
proof -
  have l: "4 \<le> length data" "20 \<le> length (drop 4 data)" using assms by (simp_all add: IKCP_OVERHEAD_def)
  obtain conv where c: "ikcp_decode32u data = Inr (conv, drop 4 data)" using ikcp_decode32u_ok [OF l(1)] by blast
  obtain h where h: "decode_header (drop 4 data) = Inr (h, drop 24 data)"
    using decode_header_ok [OF l(2)] by auto
  show ?thesis
    by (rule exI [of _ conv], rule exI [of _ h], intro conjI, rule c, rule h)
      (subst input_loop.simps, use assms c h in \<open>simp add: go_bind_def not_less [symmetric] del: drop_drop\<close>)
qed

lemma input_loop_safe:
  assumes "conn_ok (is_k st)" and "length data \<le> mtuLimit + IKCP_OVERHEAD"
  shows "\<exists>r st'. input_loop p data st = Inr (r, st') \<and> r \<in> {0, -1, -2, -3}
    \<and> snd_kept (is_k st) (is_k st') \<and> rcv_adv UNIV (is_k st) (is_k st')"
  using assms
proof (induction "length data" arbitrary: data st rule: less_induct)
  case less
  have ok: "snd_side_ok (is_k st)" "rcv_ok (is_k st)" using less.prems(1) by (simp_all add: conn_ok_def)
  have rf: "snd_kept (is_k st) (is_k st)" "rcv_adv UNIV (is_k st) (is_k st)"
    using ok snd_same_kept rcv_same_adv by (auto simp: snd_same_def rcv_same_def)
  show ?case
  proof (cases "length data < IKCP_OVERHEAD")
    case True
    then show ?thesis using rf by (subst input_loop.simps) auto
  next
    case False
    then have len: "IKCP_OVERHEAD \<le> length data" by simp
    obtain conv h where e: "input_loop p data st =
      (if conv \<noteq> k_conv (is_k st) then Inr (-1, st)
       else if length data - 24 < unat (h_length h) then Inr (-2, st)
       else if h_cmd h \<noteq> IKCP_CMD_PUSH \<and> h_cmd h \<noteq> IKCP_CMD_ACK
             \<and> h_cmd h \<noteq> IKCP_CMD_WASK \<and> h_cmd h \<noteq> IKCP_CMD_WINS then Inr (-3, st)
       else go_bind (input_segment p conv h (take (unat (h_length h)) (drop 24 data)) st) (\<lambda>st'.
              input_loop p (drop (unat (h_length h)) (drop 24 data)) (st'\<lparr>is_inSegs := is_inSegs st' + 1\<rparr>)))"
      using input_loop_step [OF len, of p st] by blast
    let ?d = "take (unat (h_length h)) (drop 24 data)" and ?r = "drop (unat (h_length h)) (drop 24 data)"
    have "length ?d \<le> mtuLimit" using less.prems(2) by (auto simp: IKCP_OVERHEAD_def)
    then obtain st1 where s: "input_segment p conv h ?d st = Inr st1" "snd_kept (is_k st) (is_k st1)"
        "rcv_adv (push_set conv h ?d) (is_k st) (is_k st1)"
      using input_segment_spec [OF less.prems(1)] by blast
    let ?st = "st1\<lparr>is_inSegs := is_inSegs st1 + 1\<rparr>"
    have "conn_ok (is_k ?st)" using s by (simp add: conn_ok_def snd_kept_def rcv_adv_def)
    moreover have "length ?r < length data" "length ?r \<le> mtuLimit + IKCP_OVERHEAD"
      using len less.prems(2) by (auto simp: IKCP_OVERHEAD_def)
    ultimately obtain r st' where l: "input_loop p ?r ?st = Inr (r, st')" "r \<in> {0, -1, -2, -3}"
        "snd_kept (is_k ?st) (is_k st')" "rcv_adv UNIV (is_k ?st) (is_k st')"
      using less.hyps [of ?r ?st] by blast
    have "snd_kept (is_k st) (is_k st')" "rcv_adv UNIV (is_k st) (is_k st')"
      using snd_kept_trans [OF s(2), of "is_k st'"] rcv_adv_trans [OF s(3), of UNIV "is_k st'"] l(3,4)
      by simp_all
    with l(1,2) s(1) rf show ?thesis unfolding e by auto
  qed
qed

text \<open>On a packet of whole segments of this conversation, the loop handles every one of them.\<close>

definition cmd_ok :: "u8 \<Rightarrow> bool" where
  "cmd_ok c \<longleftrightarrow> c \<in> {IKCP_CMD_PUSH, IKCP_CMD_ACK, IKCP_CMD_WASK, IKCP_CMD_WINS}"

definition pushed :: "segment list \<Rightarrow> segment set" where
  "pushed ss = (\<lambda>s. input_seg (seg_conv s) (header_of s) (seg_data s)) ` {s \<in> set ss. seg_cmd s = IKCP_CMD_PUSH}"

lemma decode_wire:
  "ikcp_decode32u (wire s @ r) = Inr (seg_conv s, drop 4 (wire s @ r))"
  "decode_header (drop 4 (wire s @ r)) = Inr (header_of s, seg_data s @ r)"
proof -
  have b: "go_bind (ikcp_decode32u (wire s @ r)) (\<lambda>(conv, d). go_bind (decode_header d) (\<lambda>(h, d). Inr (conv, h, d)))
      = Inr (seg_conv s, header_of s, seg_data s @ r)"
    using decode_header_bytes [of s "seg_data s @ r"] by (simp add: wire_def)
  have "4 \<le> length (wire s @ r)" by (simp add: IKCP_OVERHEAD_def)
  then obtain c where c: "ikcp_decode32u (wire s @ r) = Inr (c, drop 4 (wire s @ r))"
    using ikcp_decode32u_ok by blast
  with b show "ikcp_decode32u (wire s @ r) = Inr (seg_conv s, drop 4 (wire s @ r))"
    and "decode_header (drop 4 (wire s @ r)) = Inr (header_of s, seg_data s @ r)"
    by (auto simp: go_bind_eq_Inr simp del: drop_append)
qed

lemma unat_h_length: "length (seg_data s) \<le> mtuLimit \<Longrightarrow> unat (h_length (header_of s)) = length (seg_data s)"
  by (simp add: header_of_def mtuLimit_def unat_of_nat_u32)

lemma input_loop_wires:
  assumes "conn_ok (is_k st)"
    and "\<forall>s \<in> set ss. seg_conv s = k_conv (is_k st) \<and> cmd_ok (seg_cmd s) \<and> length (seg_data s) \<le> mtuLimit"
  shows "\<exists>st'. input_loop p (wires ss) st = Inr (0, st')
    \<and> snd_kept (is_k st) (is_k st') \<and> rcv_adv (pushed ss) (is_k st) (is_k st')"
  using assms
proof (induction ss arbitrary: st)
  case Nil
  then have "snd_kept (is_k st) (is_k st)" "rcv_adv (pushed []) (is_k st) (is_k st)"
    using snd_same_kept rcv_same_adv by (auto simp: snd_same_def rcv_same_def conn_ok_def)
  then show ?case by (subst input_loop.simps) (auto simp: IKCP_OVERHEAD_def)
next
  case (Cons s ss)
  let ?h = "header_of s" and ?d = "seg_data s"
  have s: "seg_conv s = k_conv (is_k st)" "cmd_ok (seg_cmd s)" "length ?d \<le> mtuLimit" using Cons.prems(2) by auto
  obtain st1 where 1: "input_segment p (seg_conv s) ?h ?d st = Inr st1" "snd_kept (is_k st) (is_k st1)"
      "rcv_adv (push_set (seg_conv s) ?h ?d) (is_k st) (is_k st1)"
    using input_segment_spec [OF Cons.prems(1) s(3)] by blast
  let ?st = "st1\<lparr>is_inSegs := is_inSegs st1 + 1\<rparr>"
  have "conn_ok (is_k ?st)" and "k_conv (is_k ?st) = k_conv (is_k st)"
    using 1 by (simp_all add: conn_ok_def snd_kept_def rcv_adv_def)
  then obtain st' where 2: "input_loop p (wires ss) ?st = Inr (0, st')" "snd_kept (is_k ?st) (is_k st')"
      "rcv_adv (pushed ss) (is_k ?st) (is_k st')"
    using Cons.IH [of ?st] Cons.prems(2) by auto
  have c: "\<not> (h_cmd ?h \<noteq> IKCP_CMD_PUSH \<and> h_cmd ?h \<noteq> IKCP_CMD_ACK
      \<and> h_cmd ?h \<noteq> IKCP_CMD_WASK \<and> h_cmd ?h \<noteq> IKCP_CMD_WINS)"
    using s(2) by (auto simp: cmd_ok_def header_of_def)
  have dr: "drop (length ?d) (?d @ wires ss) = wires ss" by simp
  have "input_loop p (wires (s # ss)) st = Inr (0, st')"
    using s decode_wire [of s "wires ss"] c 1(1) 2(1) unat_h_length [OF s(3)]
    by (subst input_loop.simps) (simp add: dr del: drop_append)
  moreover have "push_set (seg_conv s) ?h ?d \<union> pushed ss \<subseteq> pushed (s # ss)"
    by (auto simp: push_set_def pushed_def header_of_def)
  ultimately show ?case
    using 1 2 snd_kept_trans rcv_adv_mono [OF rcv_adv_trans [OF 1(3)]] by auto
qed


section \<open>The whole of \<open>Input\<close>\<close>

lemma input_rtt_same: "snd_same k (input_rtt p st k)" "rcv_same k (input_rtt p st k)"
  by (auto simp: input_rtt_def currentMs_def update_ack_def snd_same_def rcv_same_def Let_def split: prod.splits)

lemma input_cwnd_ok:
  assumes "k_mss k \<noteq> 0"
  shows "\<exists>k'. input_cwnd una0 k = Inr k' \<and> snd_same k k' \<and> rcv_same k k'
    \<and> k_cwnd k' \<le> max (k_cwnd k) (k_rmt_wnd k)"
proof (cases "k_nocwnd k = 0 \<and> itimediff (k_snd_una k) una0 > 0 \<and> k_cwnd k < k_rmt_wnd k")
  case False
  then show ?thesis by (auto simp: input_cwnd_def snd_same_def rcv_same_def)
next
  case True
  let ?mss = "k_mss k"
  let ?i1 = "if k_incr k < ?mss then ?mss else k_incr k"
  have "?i1 \<noteq> 0" using assms by (auto simp: word_neq_0_conv)
  then have i1: "(if ?i1 = 0 then x else y) = y" for x y :: "KCP go" by simp
  define i2 where "i2 = ?i1 + ((?mss * ?mss) div ?i1 + ?mss div 16)"
  define c where "c = (if k_cwnd k < k_ssthresh k then k_cwnd k + 1
      else if (k_cwnd k + 1) * ?mss \<le> i2 then (if ?mss > 0 then (i2 + ?mss - 1) div ?mss else i2 + ?mss - 1)
      else k_cwnd k)"
  define i where "i = (if k_cwnd k < k_ssthresh k then k_incr k + ?mss else i2)"
  have m: "(if k_cwnd k < k_ssthresh k then Inr (k\<lparr>k_cwnd := k_cwnd k + 1, k_incr := k_incr k + ?mss\<rparr>)
         else let incr1 = ?i1
              in if incr1 = 0 then Inl DivByZero
                 else let incr2 = incr1 + ((?mss * ?mss) div incr1 + ?mss div 16)
                      in Inr (if (k_cwnd k + 1) * ?mss \<le> incr2
                              then k\<lparr>k_incr := incr2,
                                     k_cwnd := (if ?mss > 0 then (incr2 + ?mss - 1) div ?mss else incr2 + ?mss - 1)\<rparr>
                              else k\<lparr>k_incr := incr2\<rparr>)) = Inr (k\<lparr>k_cwnd := c, k_incr := i\<rparr>)"
    unfolding Let_def i1 i2_def [symmetric] by (simp add: c_def i_def)
  let ?k1 = "k\<lparr>k_cwnd := c, k_incr := i\<rparr>"
  let ?k2 = "if k_cwnd ?k1 > k_rmt_wnd ?k1 then ?k1\<lparr>k_cwnd := k_rmt_wnd ?k1, k_incr := k_rmt_wnd ?k1 * ?mss\<rparr> else ?k1"
  have "input_cwnd una0 k = Inr ?k2"
    unfolding input_cwnd_def using True by (simp only: simp_thms if_True Let_def [of ?mss] m go_bind_Inr)
  moreover have "snd_same k ?k2" "rcv_same k ?k2" by (simp_all add: snd_same_def rcv_same_def)
  moreover have "k_cwnd ?k2 \<le> max (k_cwnd k) (k_rmt_wnd k)" by (auto simp: max_def not_less)
  ultimately show ?thesis by blast
qed

lemma cfg_ok_mss: "cfg_ok k \<Longrightarrow> k_mss k \<noteq> 0"
  by (auto simp: cfg_ok_def IKCP_OVERHEAD_def)

lemma input_flush_cases:
  assumes "snd_side_ok k"
  shows "input_flush f a k = Inr k \<or> (\<exists>ft nx k'. flush ft k = Inr (nx, k') \<and> input_flush f a k = Inr k')"
proof -
  have "\<exists>nx k'. flush ft k = Inr (nx, k')" for ft
    using flush_spec [OF assms, of "\<lambda>_ _ _. True" ft] by (auto simp: sendable_def)
  then obtain n1 k1 n2 k2 where "flush IKCP_FLUSH_FULL k = Inr (n1, k1)" "flush IKCP_FLUSH_ACKONLY k = Inr (n2, k2)"
    by blast
  then show ?thesis by (auto simp: input_flush_def)
qed

text \<open>The three ways \<open>Input\<close> ends: at once, in the loop, or after the whole packet, possibly with
  a flush.\<close>

lemma Input_after_loop:
  assumes ok: "conn_ok k" and len: "IKCP_OVERHEAD \<le> length data"
    and loop: "input_loop p data \<lparr>is_k = k, is_latest = 0, is_updateRTT = False, is_inSegs = 0, is_flush = False\<rparr>
        = Inr (r, st)" and kept: "snd_kept k (is_k st)" "rcv_adv S k (is_k st)"
  shows "\<exists>k1 k'. Input data p a k = Inr (if r < 0 then r else 0, k') \<and> snd_kept k k1 \<and> rcv_adv S k k1
    \<and> (k' = k1 \<or> (\<exists>ft nx. flush ft k1 = Inr (nx, k')))"
proof (cases "r < 0")
  case True
  with assms show ?thesis by (auto simp: Input_def)
next
  case False
  let ?k1 = "(is_k st)\<lparr>k_snmp := (k_snmp (is_k st))\<lparr>InSegs := InSegs (k_snmp (is_k st)) + is_inSegs st\<rparr>\<rparr>"
  let ?k2 = "input_rtt p st ?k1"
  have 1: "snd_same (is_k st) ?k1" "rcv_same (is_k st) ?k1" by (simp_all add: snd_same_def rcv_same_def)
  have 2: "snd_same (is_k st) ?k2" "rcv_same (is_k st) ?k2"
    using 1 input_rtt_same snd_same_trans rcv_same_trans by blast+
  have so: "snd_side_ok (is_k st)" using kept(1) by (simp add: snd_kept_def)
  have "k_mss ?k2 \<noteq> 0" using so cfg_ok_mss 2(1) by (auto simp: snd_side_ok_def snd_same_def)
  then obtain k3 where 3: "input_cwnd (k_snd_una k) ?k2 = Inr k3" "snd_same ?k2 k3" "rcv_same ?k2 k3"
    using input_cwnd_ok by blast
  have k3: "snd_kept k k3" "rcv_adv S k k3"
    using snd_kept_trans [OF kept(1)] snd_same_kept [OF _ so] snd_same_trans [OF 2(1) 3(2)]
      rcv_adv_same [OF kept(2)] rcv_same_trans [OF 2(2) 3(3)] by blast+
  have so3: "snd_side_ok k3" using k3(1) by (simp add: snd_kept_def)
  obtain k4 where 4: "input_flush (is_flush st) a k3 = Inr k4" "k4 = k3 \<or> (\<exists>ft nx. flush ft k3 = Inr (nx, k4))"
    using input_flush_cases [OF so3, of "is_flush st" a] by blast
  have "Input data p a k = Inr (0, k4)"
    using False len loop 3(1) 4(1) by (simp add: Input_def Let_def)
  with False k3 4(2) show ?thesis by auto
qed


section \<open>Properties\<close>

lemma flush_conn_ok:
  assumes "conn_ok k" and "flush ft k = Inr (nx, k')"
  shows "conn_ok k'"
proof -
  have so: "snd_side_ok k" using assms(1) by (simp add: conn_ok_def)
  have "flushed k k'"
    using flush_spec [OF so, of "\<lambda>_ _ _. True" ft] assms(2) by (auto simp: sendable_def)
  then show ?thesis
    using assms(1) flushed_side_ok [OF so] by (auto simp: conn_ok_def rcv_ok_def flushed_def flush_frame_def)
qed

lemma kept_conn_ok: "snd_kept k k1 \<Longrightarrow> rcv_adv S k k1 \<Longrightarrow> conn_ok k1"
  by (simp add: conn_ok_def snd_kept_def rcv_adv_def)

lemma NewKCP_conn_ok: "conn_ok (NewKCP conv clock snmp)"
  by (simp add: conn_ok_def NewKCP_snd_side_ok NewKCP_rcv_ok)

lemma Input_any_bytes:
  assumes "conn_ok k" and "length data \<le> mtuLimit + IKCP_OVERHEAD"
  shows "\<exists>r k'. Input data p a k = Inr (r, k') \<and> r \<in> {0, -1, -2, -3} \<and> conn_ok k'
    \<and> (length data < IKCP_OVERHEAD \<longrightarrow> r = -1 \<and> k' = k)"
proof (cases "length data < IKCP_OVERHEAD")
  case True
  with assms(1) show ?thesis by (simp add: Input_def)
next
  case False
  let ?st = "\<lparr>is_k = k, is_latest = 0, is_updateRTT = False, is_inSegs = 0, is_flush = False\<rparr>"
  have k: "is_k ?st = k" by simp
  obtain r st where l: "input_loop p data ?st = Inr (r, st)" "r \<in> {0, -1, -2, -3}" "snd_kept k (is_k st)"
      "rcv_adv UNIV k (is_k st)"
    using input_loop_safe [of ?st data p] assms by auto
  then obtain k1 k' where i: "Input data p a k = Inr (if r < 0 then r else 0, k')" "snd_kept k k1" "rcv_adv UNIV k k1"
      "k' = k1 \<or> (\<exists>ft nx. flush ft k1 = Inr (nx, k'))"
    using Input_after_loop [OF assms(1) _ l(1,3,4), of a] False by auto
  have "conn_ok k'" using i(4) kept_conn_ok [OF i(2,3)] flush_conn_ok by blast
  with i(1) l(2) False show ?thesis by auto
qed

lemma Input_returns: "conn_ok k \<Longrightarrow> length data \<le> mtuLimit + IKCP_OVERHEAD \<Longrightarrow> \<exists>r. Input data p a k = Inr r"
  using Input_any_bytes [of k data p a] by blast

text \<open>C12: \<open>Input\<close> is safe on arbitrary bytes. Whatever packet of at most 1524 bytes arrives,
  \<open>Input\<close> on a consistent connection does not panic, returns 0 or one of the documented error
  codes, and leaves the connection consistent (so the next call is safe as well).\<close>

theorem input_safe_on_any_bytes:
  assumes "conn_ok k" and "length data \<le> mtuLimit + IKCP_OVERHEAD"
  shows "\<exists>r k'. Input data p a k = Inr (r, k') \<and> r \<in> {0, -1, -2, -3} \<and> conn_ok k'
    \<and> (length data < IKCP_OVERHEAD \<longrightarrow> r = -1 \<and> k' = k)"
  by (rule Input_any_bytes [OF assms])

theorem input_safe_on_any_bytes_witness:
  "\<exists>r k'. Input (replicate 40 0) IKCP_PACKET_REGULAR True (NewKCP 7 (\<lambda>_. 0) newSnmp) = Inr (r, k') \<and> conn_ok k'"
  using input_safe_on_any_bytes [OF NewKCP_conn_ok, of "replicate 40 0" IKCP_PACKET_REGULAR True 7 "\<lambda>_. 0" newSnmp]
  by (auto simp: mtuLimit_def IKCP_OVERHEAD_def)

text \<open>The receiver accepts what the sender emits. A packet made of whole encoded segments of
  the same conversation with known commands, as \<open>flush\<close> produces them, is processed to its end
  with result 0, and every data segment it delivers was in the packet or buffered before.\<close>

theorem input_accepts_wire_packets:
  assumes "conn_ok k" and "ss \<noteq> []"
    and "\<forall>s \<in> set ss. seg_conv s = k_conv k \<and> cmd_ok (seg_cmd s) \<and> length (seg_data s) \<le> mtuLimit"
  shows "\<exists>k'. Input (wires ss) p a k = Inr (0, k') \<and> conn_ok k'
    \<and> (\<exists>moved. rb_list (k_rcv_queue k') = rb_list (k_rcv_queue k) @ moved \<and> sns_from (k_rcv_nxt k) moved
         \<and> k_rcv_nxt k' = k_rcv_nxt k + of_nat (length moved)
         \<and> set moved \<subseteq> set (segments (k_rcv_buf k)) \<union> pushed ss)"
proof -
  let ?st = "\<lparr>is_k = k, is_latest = 0, is_updateRTT = False, is_inSegs = 0, is_flush = False\<rparr>"
  obtain st where l: "input_loop p (wires ss) ?st = Inr (0, st)" "snd_kept k (is_k st)" "rcv_adv (pushed ss) k (is_k st)"
    using input_loop_wires [of ?st ss p] assms by auto
  have len: "IKCP_OVERHEAD \<le> length (wires ss)" using assms(2) by (cases ss) auto
  obtain k1 k' where i: "Input (wires ss) p a k = Inr (0, k')" "snd_kept k k1" "rcv_adv (pushed ss) k k1"
      "k' = k1 \<or> (\<exists>ft nx. flush ft k1 = Inr (nx, k'))"
    using Input_after_loop [OF assms(1) len l(1-3), of a] by auto
  have c1: "conn_ok k1" by (rule kept_conn_ok [OF i(2,3)])
  then have "conn_ok k'" using i(4) flush_conn_ok by blast
  have "rcv_same k1 k'"
  proof -
    have "flushed k1 k'" if "flush ft k1 = Inr (nx, k')" for ft nx
      using flush_spec [of k1 "\<lambda>_ _ _. True" ft] c1 that by (auto simp: sendable_def conn_ok_def)
    then show ?thesis using i(4) by (auto simp: rcv_same_def flushed_def flush_frame_def)
  qed
  from rcv_adv_same [OF i(3) this] show ?thesis using i(1) \<open>conn_ok k'\<close> unfolding rcv_adv_def by blast
qed

theorem input_accepts_wire_packets_witness:
  "\<exists>k'. Input (wires [zero_segment\<lparr>seg_conv := 7, seg_cmd := IKCP_CMD_PUSH, seg_data := [1, 2]\<rparr>])
      IKCP_PACKET_REGULAR False (NewKCP 7 (\<lambda>_. 0) newSnmp) = Inr (0, k') \<and> conn_ok k'"
  using input_accepts_wire_packets [OF NewKCP_conn_ok,
      of "[zero_segment\<lparr>seg_conv := 7, seg_cmd := IKCP_CMD_PUSH, seg_data := [1, 2]\<rparr>]" 7 "\<lambda>_. 0" newSnmp
        IKCP_PACKET_REGULAR False]
  by (auto simp: mtuLimit_def cmd_ok_def NewKCP_def)

text \<open>C25: an oversized data segment crashes the receiver. A packet of this conversation carrying a
  new in-window data segment with more than 1500 payload bytes makes \<open>parse_data\<close> re-slice a pool
  buffer beyond its capacity: \<open>Input\<close> panics.\<close>

theorem input_oversize_panics:
  assumes "conn_ok k" and "seg_conv s = k_conv k" and "seg_cmd s = IKCP_CMD_PUSH"
    and "in_rcv_window (seg_sn s) k" and "seg_sn s \<notin> seg_sn ` set (segments (k_rcv_buf k))"
    and "mtuLimit < length (seg_data s)" and "length (seg_data s) < 2 ^ 32"
  shows "Input (wire s) p a k = Inl SliceBounds"
proof -
  let ?h = "header_of s" and ?d = "seg_data s"
  let ?st = "\<lparr>is_k = k, is_latest = 0, is_updateRTT = False, is_inSegs = 0, is_flush = False\<rparr>"
  have so: "snd_side_ok k" using assms(1) by (simp add: conn_ok_def)
  define k1 where "k1 = (if p = IKCP_PACKET_REGULAR then k\<lparr>k_rmt_wnd := ucast (h_wnd ?h)\<rparr> else k)"
  have 1: "rcv_same k k1" "snd_side_ok k1" "k_rcv_wnd k1 = k_rcv_wnd k"
    using kept_rmt_wnd [OF so, of "h_wnd ?h"] so by (auto simp: k1_def snd_kept_def rcv_same_def)
  obtain n k2 where 2: "parse_una (h_una ?h) k1 = (n, k2)" "snd_kept k1 (shrink_buf k2)" "rcv_same k1 (shrink_buf k2)"
    using kept_una [OF 1(2)] by blast
  define k3 where "k3 = shrink_buf k2"
  have k3: "rcv_same k k3" "k_rcv_wnd k3 = k_rcv_wnd k"
    using rcv_same_trans [OF 1(1) 2(3)] 2(2) 1(3) by (simp_all add: k3_def snd_kept_def)
  have ro: "rcv_ok (ack_push (h_sn ?h) (h_ts ?h) k3)"
    using assms(1) k3 by (simp add: conn_ok_def rcv_ok_def rcv_same_def ack_push_def)
  have "\<not> segmentHeap_Has (seg_sn s) (k_rcv_buf k3)"
    using rcv_buf_Has [OF ro] assms(5) k3(1) by (simp add: ack_push_def rcv_same_def)
  then have "input_push p (seg_conv s) ?h ?d k3 = Inl SliceBounds"
    using assms(4,6) k3
    by (simp add: input_push_def parse_data_def ack_push_def input_seg_def header_of_def in_rcv_window_def
        rcv_same_def Let_def)
  then have "input_segment p (seg_conv s) ?h ?d ?st = Inl SliceBounds"
    using assms(3) 2(1) by (cases "p = IKCP_PACKET_REGULAR")
      (simp_all add: input_segment_def k1_def k3_def header_of_def Let_def ikcp_consts)
  moreover have "unat (h_length ?h) = length ?d" using assms(7) by (simp add: header_of_def unat_of_nat_u32)
  ultimately have "input_loop p (wire s) ?st = Inl SliceBounds"
    using decode_wire [of s "[]"] assms(2,3)
    by (subst input_loop.simps) (simp add: header_of_def)
  then show ?thesis by (simp add: Input_def)
qed

theorem input_oversize_panics_witness:
  "Input (wire (zero_segment\<lparr>seg_conv := 7, seg_cmd := IKCP_CMD_PUSH, seg_data := replicate 1501 0\<rparr>))
     IKCP_PACKET_REGULAR False (NewKCP 7 (\<lambda>_. 0) newSnmp) = Inl SliceBounds"
  by (rule input_oversize_panics [OF NewKCP_conn_ok])
    (simp_all add: NewKCP_def in_rcv_window_def itimediff_def zero_segment_def newSegmentHeap_def ikcp_consts
      mtuLimit_def)

end
