(* ===== verification/Kcp_Update.thy ===== *)
theory Kcp_Update
  imports Kcp_Input
begin

text \<open>
  The timer interface and the configuration of \<open>src/kcp/ikcp.go\<close>: what \<open>Update\<close> and \<open>Check\<close>
  schedule, which settings of \<open>SetMtu\<close>, \<open>NoDelay\<close> and \<open>WndSize\<close> keep a connection consistent,
  and the window that \<open>wnd_unused\<close> advertises.
\<close>

section \<open>The timer loop\<close>

text \<open>\<open>flush_due now k\<close>: \<open>Update\<close> at clock reading \<open>now\<close> runs a flush.\<close>

definition flush_due :: "u32 \<Rightarrow> KCP \<Rightarrow> bool" where
  "flush_due now k \<longleftrightarrow> k_updated k = 0 \<or> itimediff now (k_ts_flush k) \<ge> 0 \<or> itimediff now (k_ts_flush k) < - 10000"

lemma conn_ok_timer_fields [simp]:
  "conn_ok (k\<lparr>k_reads := n\<rparr>) = conn_ok k"
  "conn_ok (k\<lparr>k_updated := u\<rparr>) = conn_ok k"
  "conn_ok (k\<lparr>k_ts_flush := t\<rparr>) = conn_ok k"
  by (simp_all add: conn_ok_def snd_side_ok_def rcv_ok_def cfg_ok_def snd_ok_def)

lemma sint_eq_uint:
  assumes "uint (a :: u32) < 2 ^ 31"
  shows "sint a = uint a"
proof -
  have "int (unat a) < int (2 ^ 31)" using assms by simp
  then have "unat a < 2 ^ 31" by (simp only: of_nat_less_iff)
  then show ?thesis by (simp add: sint_u32_low)
qed

text \<open>The next flush time \<open>Update\<close> computes from a due one: in the future, at most one interval
  away.\<close>

lemma next_flush_time:
  fixes now ts iv :: u32
  assumes "0 \<le> itimediff now ts" and "itimediff now ts < 10000" and "0 < uint iv" and "uint iv \<le> 5000"
  shows "0 < itimediff (if itimediff now (ts + iv) \<ge> 0 then now + iv else ts + iv) now"
    and "itimediff (if itimediff now (ts + iv) \<ge> 0 then now + iv else ts + iv) now \<le> uint iv"
proof -
  let ?d = "now - ts"
  have d: "0 \<le> sint ?d" "sint ?d < 10000" using assms(1,2) by (simp_all add: itimediff_def)
  have iv: "sint iv = uint iv" using assms(4) by (intro sint_eq_uint) simp
  have p: "(2 :: int) ^ 31 = 2147483648" by simp
  have 1: "sint (?d - iv) = sint ?d - sint iv" by (rule sint_diff_exact) (use d iv assms p in linarith)+
  have 2: "sint (iv - ?d) = sint iv - sint ?d" by (rule sint_diff_exact) (use d iv assms p in linarith)+
  have e: "now - (ts + iv) = ?d - iv" "(ts + iv) - now = iv - ?d" "(now + iv) - now = iv"
    by (simp_all add: algebra_simps)
  have "0 < itimediff (ts + iv) now \<and> itimediff (ts + iv) now \<le> uint iv" if "\<not> itimediff now (ts + iv) \<ge> 0"
    using that d iv 1 2 unfolding itimediff_def e by linarith
  moreover have "itimediff (now + iv) now = uint iv" unfolding itimediff_def e by (rule iv)
  ultimately show "0 < itimediff (if itimediff now (ts + iv) \<ge> 0 then now + iv else ts + iv) now"
    and "itimediff (if itimediff now (ts + iv) \<ge> 0 then now + iv else ts + iv) now \<le> uint iv"
    using assms(3) by simp_all
qed

lemma itimediff_refl [simp]: "itimediff t t = 0"
  by (simp add: itimediff_def)

text \<open>\<open>Update\<close> as two cases: nothing but the clock reading when no flush is due; otherwise a full
  flush after the next flush time is set.\<close>

lemma Update_not_due:
  assumes "\<not> flush_due (k_clock k (k_reads k)) k"
  shows "Update k = Inr (k\<lparr>k_reads := Suc (k_reads k)\<rparr>)"
  using assms by (auto simp: Update_def currentMs_def flush_due_def Let_def)

lemma Update_due:
  assumes "flush_due (k_clock k (k_reads k)) k" and "0 < uint (k_interval k)" and "uint (k_interval k) \<le> 5000"
  obtains t u where "Update k = go_bind (flush IKCP_FLUSH_FULL
      (k\<lparr>k_reads := Suc (k_reads k), k_updated := u, k_ts_flush := t\<rparr>)) (\<lambda>(nx, k'). Inr k')"
    and "u \<noteq> 0" and "0 < itimediff t (k_clock k (k_reads k))"
    and "itimediff t (k_clock k (k_reads k)) \<le> uint (k_interval k)"
proof -
  let ?now = "k_clock k (k_reads k)"
  define u where "u = (if k_updated k = 0 then 1 else k_updated k)"
  define s where "s = (if k_updated k = 0 \<or> \<not> (- 10000 \<le> itimediff ?now (k_ts_flush k) \<and> itimediff ?now (k_ts_flush k) < 10000)
      then ?now else k_ts_flush k)"
  have s: "0 \<le> itimediff ?now s" "itimediff ?now s < 10000"
    using assms(1) by (auto simp: s_def flush_due_def)
  define t where "t = (if itimediff ?now (s + k_interval k) \<ge> 0 then ?now + k_interval k else s + k_interval k)"
  have run: "Update k = go_bind (flush IKCP_FLUSH_FULL
      (k\<lparr>k_reads := Suc (k_reads k), k_updated := u, k_ts_flush := t\<rparr>)) (\<lambda>(nx, k'). Inr k')"
  proof (cases "k_updated k = 0")
    case True
    then show ?thesis by (simp add: Update_def currentMs_def Let_def u_def t_def s_def)
  next
    case False
    have u: "k\<lparr>k_reads := n, k_updated := u\<rparr> = k\<lparr>k_reads := n\<rparr>" for n using False by (simp add: u_def)
    show ?thesis
    proof (cases "- 10000 \<le> itimediff ?now (k_ts_flush k) \<and> itimediff ?now (k_ts_flush k) < 10000")
      case True
      then have d: "(itimediff ?now (k_ts_flush k) \<ge> 10000 \<or> itimediff ?now (k_ts_flush k) < - 10000) = False"
        "0 \<le> itimediff ?now (k_ts_flush k)" "s = k_ts_flush k"
        using False assms(1) by (auto simp: s_def flush_due_def)
      show ?thesis
        unfolding u Update_def currentMs_def t_def d(3) Let_def using False d(1,2) by simp
    next
      case out: False
      then have d: "(itimediff ?now (k_ts_flush k) \<ge> 10000 \<or> itimediff ?now (k_ts_flush k) < - 10000) = True"
        "s = ?now" by (auto simp: s_def)
      show ?thesis
        unfolding u Update_def currentMs_def t_def d(2) Let_def using False d(1) by simp
    qed
  qed
  show ?thesis
    using that [OF run] next_flush_time [OF s assms(2,3)] by (simp add: t_def u_def)
qed

text \<open>\<open>Update\<close> on a consistent connection never panics and keeps it consistent. When no flush
  is due it only reads the clock; when one is due it flushes (no acknowledgement stays pending)
  and the next flush time lies in the future, at most one interval away. Afterwards no flush
  is due at the same clock reading.\<close>

theorem update_schedules_next_flush:
  assumes "conn_ok k" and "0 < uint (k_interval k)" and "uint (k_interval k) \<le> 5000"
  shows "\<exists>k'. Update k = Inr k' \<and> conn_ok k' \<and> \<not> flush_due (k_clock k (k_reads k)) k'
    \<and> (if flush_due (k_clock k (k_reads k)) k
       then 0 < itimediff (k_ts_flush k') (k_clock k (k_reads k))
         \<and> itimediff (k_ts_flush k') (k_clock k (k_reads k)) \<le> uint (k_interval k) \<and> k_acklist k' = []
       else k' = k\<lparr>k_reads := Suc (k_reads k)\<rparr>)"
proof (cases "flush_due (k_clock k (k_reads k)) k")
  case False
  then show ?thesis using assms(1) by (simp add: Update_not_due flush_due_def)
next
  case True
  let ?now = "k_clock k (k_reads k)"
  obtain t u where U: "Update k = go_bind (flush IKCP_FLUSH_FULL
      (k\<lparr>k_reads := Suc (k_reads k), k_updated := u, k_ts_flush := t\<rparr>)) (\<lambda>(nx, k'). Inr k')"
    and u: "u \<noteq> 0" and t: "0 < itimediff t ?now" "itimediff t ?now \<le> uint (k_interval k)"
    using Update_due [OF True assms(2,3)] by blast
  let ?k = "k\<lparr>k_reads := Suc (k_reads k), k_updated := u, k_ts_flush := t\<rparr>"
  have ok: "conn_ok ?k" using assms(1) by simp
  obtain nx k' where f: "flush IKCP_FLUSH_FULL ?k = Inr (nx, k')" "flushed ?k k'" "k_acklist k' = []"
    using flush_spec [of ?k "\<lambda>_ _ _. True" IKCP_FLUSH_FULL] ok by (auto simp: sendable_def conn_ok_def)
  have k': "k_ts_flush k' = t" "k_updated k' = u" using f(2) by (simp_all add: flushed_def flush_frame_def)
  have "itimediff ?now t = - itimediff t ?now"
  proof -
    have "sint (- (t - ?now)) = - sint (t - ?now)"
      by (rule sint_uminus_exact) (use t in \<open>simp add: itimediff_def\<close>)
    then show ?thesis by (simp add: itimediff_def)
  qed
  then have "\<not> flush_due ?now k'" using t u k' assms(3) by (auto simp: flush_due_def)
  then show ?thesis using True U f t k' flush_conn_ok [OF ok f(1)] by simp
qed

theorem update_schedules_next_flush_witness:
  "\<exists>k'. Update (NewKCP 7 (\<lambda>_. 5) newSnmp) = Inr k' \<and> conn_ok k' \<and> 0 < itimediff (k_ts_flush k') 5
     \<and> itimediff (k_ts_flush k') 5 \<le> 100"
proof -
  let ?k = "NewKCP 7 (\<lambda>_. 5) newSnmp"
  have "0 < uint (k_interval ?k)" "uint (k_interval ?k) \<le> 5000" "flush_due (k_clock ?k (k_reads ?k)) ?k"
    "k_clock ?k (k_reads ?k) = 5" "uint (k_interval ?k) = 100"
    by (simp_all add: NewKCP_def ikcp_consts flush_due_def)
  with update_schedules_next_flush [OF NewKCP_conn_ok, of 7 "\<lambda>_. 5" newSnmp] show ?thesis by auto
qed

text \<open>The loop of \<open>Check\<close> over the send buffer.\<close>

lemma check_fn_Some:
  "check_fn now s (Some t) =
    (if itimediff (seg_resendts s) now \<le> 0 then (s, None, False)
     else (s, Some (min (itimediff (seg_resendts s) now) t), True))"
  by (simp add: check_fn_def Let_def min_def)

lemma check_loop:
  assumes "list_iter (check_fn now) xs (Some t) = (ys, r, c)"
  shows "(r = None \<longleftrightarrow> (\<exists>s \<in> set xs. itimediff (seg_resendts s) now \<le> 0))
    \<and> (\<forall>t'. r = Some t' \<longrightarrow> t' \<le> t \<and> (\<forall>s \<in> set xs. t' \<le> itimediff (seg_resendts s) now) \<and> (0 < t \<longrightarrow> 0 < t'))"
  using assms
proof (induction xs arbitrary: t ys)
  case (Cons s xs)
  show ?case
  proof (cases "itimediff (seg_resendts s) now \<le> 0")
    case True
    then show ?thesis using Cons.prems by (auto simp: check_fn_Some)
  next
    case False
    let ?t = "min (itimediff (seg_resendts s) now) t"
    obtain zs where "list_iter (check_fn now) xs (Some ?t) = (zs, r, c)"
      using Cons.prems False by (auto simp: check_fn_Some split: prod.splits)
    from Cons.IH [OF this] False show ?thesis by fastforce
  qed
qed auto

text \<open>C28: the time \<open>Check\<close> returns is never in the past and at most one interval ahead, never
  later than the scheduled flush, never later than a pending segment's retransmission time,
  and it is now when a flush is due or a retransmission time has passed. \<open>Check\<close> changes nothing
  but the number of clock readings.\<close>

theorem check_never_late:
  assumes "conn_ok k" and "0 < uint (k_interval k)" and "uint (k_interval k) \<le> 5000" and "Check k = (c, k')"
  shows "k' = k\<lparr>k_reads := Suc (k_reads k)\<rparr>
    \<and> 0 \<le> itimediff c (k_clock k (k_reads k))
    \<and> itimediff c (k_clock k (k_reads k)) \<le> uint (k_interval k)
    \<and> (flush_due (k_clock k (k_reads k)) k \<longrightarrow> c = k_clock k (k_reads k))
    \<and> (\<not> flush_due (k_clock k (k_reads k)) k \<longrightarrow>
         itimediff c (k_clock k (k_reads k)) \<le> itimediff (k_ts_flush k) (k_clock k (k_reads k))
         \<and> (\<forall>s \<in> set (rb_list (k_snd_buf k)). itimediff c (k_clock k (k_reads k))
               \<le> max 0 (itimediff (seg_resendts s) (k_clock k (k_reads k)))))"
proof -
  let ?now = "k_clock k (k_reads k)" and ?k1 = "k\<lparr>k_reads := Suc (k_reads k)\<rparr>"
  show ?thesis
  proof (cases "flush_due ?now k")
    case True
    then show ?thesis using assms(4) by (auto simp: Check_def currentMs_def flush_due_def Let_def split: if_splits)
  next
    case False
    then have u: "k_updated k \<noteq> 0" and d: "- 10000 \<le> itimediff ?now (k_ts_flush k)" "itimediff ?now (k_ts_flush k) < 0"
      by (simp_all add: flush_due_def)
    let ?f = "itimediff (k_ts_flush k) ?now"
    have "sint (- (?now - k_ts_flush k)) = - sint (?now - k_ts_flush k)"
      by (rule sint_uminus_exact) (use d in \<open>simp add: itimediff_def\<close>)
    then have f: "0 < ?f" "?f \<le> 10000" using d by (simp_all add: itimediff_def)
    obtain b r where it: "RingBuffer_ForEach (check_fn ?now) (k_snd_buf k) (Some 0x7fffffff) = (b, r)"
      by (cases "RingBuffer_ForEach (check_fn ?now) (k_snd_buf k) (Some 0x7fffffff)")
    have "rb_inv (k_snd_buf k)" using assms(1) by (simp add: conn_ok_def snd_side_ok_def snd_ok_inv)
    then obtain cc where l: "list_iter (check_fn ?now) (rb_list (k_snd_buf k)) (Some 0x7fffffff) = (rb_list b, r, cc)"
      using RingBuffer_ForEach_spec(2) [OF _ it] by blast
    note sp = check_loop [OF l]
    show ?thesis
    proof (cases r)
      case None
      then have "c = ?now" "k' = ?k1" using assms(4) u d it by (auto simp: Check_def currentMs_def Let_def)
      then show ?thesis using False f by simp
    next
      case (Some tp)
      with sp have tp: "0 < tp" "\<forall>s \<in> set (rb_list (k_snd_buf k)). tp \<le> itimediff (seg_resendts s) ?now" by simp_all
      define mn where "mn = min tp ?f"
      have mn: "0 < mn" "mn \<le> 10000" using f tp by (auto simp: mn_def)
      have w: "uint (word_of_int mn :: u32) = mn" using mn by (simp add: unsigned_of_int take_bit_int_eq_self)
      define m' where "m' = min (word_of_int mn) (k_interval k)"
      have c: "c = ?now + m'" "k' = ?k1"
        using assms(4) u d it Some
        by (auto simp: Check_def currentMs_def Let_def m'_def mn_def min_def not_le not_less split: if_splits)
      have "uint m' \<le> mn" "uint m' \<le> uint (k_interval k)"
        unfolding m'_def using w by (simp_all add: min_def word_le_def)
      moreover have "sint m' = uint m'"
        using \<open>uint m' \<le> mn\<close> mn by (intro sint_eq_uint) simp
      ultimately show ?thesis using False f c tp by (auto simp: itimediff_def mn_def)
    qed
  qed
qed

theorem check_never_late_witness:
  "0 \<le> itimediff (fst (Check ((NewKCP 7 (\<lambda>_. 5) newSnmp)\<lparr>k_updated := 1, k_ts_flush := 50\<rparr>))) 5
   \<and> itimediff (fst (Check ((NewKCP 7 (\<lambda>_. 5) newSnmp)\<lparr>k_updated := 1, k_ts_flush := 50\<rparr>))) 5 \<le> 45"
proof -
  let ?k = "(NewKCP 7 (\<lambda>_. 5) newSnmp)\<lparr>k_updated := 1, k_ts_flush := 50\<rparr>"
  have "conn_ok ?k" "0 < uint (k_interval ?k)" "uint (k_interval ?k) \<le> 5000"
    using NewKCP_conn_ok by simp_all (simp_all add: NewKCP_def ikcp_consts)
  moreover have "\<not> flush_due (k_clock ?k (k_reads ?k)) ?k" "k_clock ?k (k_reads ?k) = 5"
      "itimediff (k_ts_flush ?k) 5 = 45"
    by (simp_all add: NewKCP_def flush_due_def itimediff_def)
  ultimately show ?thesis using check_never_late [of ?k "fst (Check ?k)" "snd (Check ?k)"] by auto
qed


section \<open>Configuration\<close>

lemma NoDelay_WndSize_ok:
  "conn_ok k \<Longrightarrow> conn_ok (snd (NoDelay nd iv rs nc k))" "conn_ok k \<Longrightarrow> conn_ok (snd (WndSize sw rw k))"
  by (auto simp: NoDelay_def WndSize_def Let_def conn_ok_def snd_side_ok_def rcv_ok_def cfg_ok_def snd_ok_def)

lemma SetMtu_ok:
  assumes "conn_ok k" and "50 \<le> mtu" and "mtu < 2 ^ 32"
    and q: "\<forall>s \<in> set (rb_list (k_snd_queue k)) \<union> set (rb_list (k_snd_buf k)).
      int (length (seg_data s)) \<le> mtu - int IKCP_OVERHEAD"
  shows "fst (SetMtu mtu k) = 0" and "conn_ok (snd (SetMtu mtu k))" and "uint (k_mtu (snd (SetMtu mtu k))) = mtu"
    and "unat (k_mss (snd (SetMtu mtu k))) = nat mtu - IKCP_OVERHEAD"
proof -
  let ?k = "snd (SetMtu mtu k)"
  show u: "uint (k_mtu ?k) = mtu" "fst (SetMtu mtu k) = 0"
    using assms(2,3) by (simp_all add: SetMtu_def Let_def unsigned_of_int take_bit_int_eq_self IKCP_OVERHEAD_def)
  have un: "unat (k_mtu ?k) = nat mtu" using u(1) by (metis nat_int uint_nat)
  show ms: "unat (k_mss ?k) = nat mtu - IKCP_OVERHEAD"
    using un assms(2) by (auto simp: SetMtu_def Let_def IKCP_OVERHEAD_def unat_sub_if' word_le_nat_alt)
  have bf: "unat (k_mtu ?k) \<le> k_buffer ?k" using assms(2) un by (auto simp: SetMtu_def Let_def IKCP_OVERHEAD_def)
  have len: "length (seg_data s) \<le> nat mtu - IKCP_OVERHEAD"
    if "s \<in> set (rb_list (k_snd_queue k)) \<union> set (rb_list (k_snd_buf k))" for s
  proof -
    have "int (length (seg_data s)) \<le> mtu - int IKCP_OVERHEAD" using q that by blast
    then show ?thesis by linarith
  qed
  have same: "k_snd_queue ?k = k_snd_queue k" "k_snd_buf ?k = k_snd_buf k" "k_conv ?k = k_conv k"
    "snd_ok ?k = snd_ok k" "k_rmt_wnd ?k = k_rmt_wnd k" "rcv_ok ?k = rcv_ok k"
    using assms(2) by (simp_all add: SetMtu_def Let_def snd_ok_def rcv_ok_def)
  have "cfg_ok ?k" using assms(2) un ms bf unfolding cfg_ok_def by auto
  then show "conn_ok ?k"
    using assms(1) len unfolding conn_ok_def snd_side_ok_def same ms by blast
qed

text \<open>Configuring a consistent connection keeps it consistent. \<open>NoDelay\<close> and \<open>WndSize\<close> do so for
  all arguments, and \<open>NoDelay\<close> clamps the interval to 10..5000 ms; \<open>SetMtu\<close> rejects values below
  50 without effect, and keeps the connection consistent when the queued segments fit into
  the new segment size.\<close>

theorem configuration_keeps_connection:
  assumes "conn_ok k"
  shows "conn_ok (snd (NoDelay nd iv rs nc k)) \<and> fst (NoDelay nd iv rs nc k) = 0
    \<and> (0 \<le> iv \<longrightarrow> uint (k_interval (snd (NoDelay nd iv rs nc k))) = max 10 (min 5000 iv))
    \<and> conn_ok (snd (WndSize sw rw k)) \<and> fst (WndSize sw rw k) = 0
    \<and> (mtu < 50 \<longrightarrow> SetMtu mtu k = (-1, k))
    \<and> (50 \<le> mtu \<and> mtu < 2 ^ 32 \<and> (\<forall>s \<in> set (rb_list (k_snd_queue k)) \<union> set (rb_list (k_snd_buf k)).
          int (length (seg_data s)) \<le> mtu - int IKCP_OVERHEAD)
        \<longrightarrow> fst (SetMtu mtu k) = 0 \<and> conn_ok (snd (SetMtu mtu k)) \<and> uint (k_mtu (snd (SetMtu mtu k))) = mtu)"
proof (intro conjI impI)
  show "conn_ok (snd (NoDelay nd iv rs nc k))" "conn_ok (snd (WndSize sw rw k))"
    using assms by (rule NoDelay_WndSize_ok)+
  show "fst (NoDelay nd iv rs nc k) = 0" "fst (WndSize sw rw k) = 0"
    by (simp_all add: NoDelay_def WndSize_def Let_def)
  show "uint (k_interval (snd (NoDelay nd iv rs nc k))) = max 10 (min 5000 iv)" if "0 \<le> iv"
    using that by (simp add: NoDelay_def Let_def unsigned_of_int take_bit_int_eq_self)
  show "SetMtu mtu k = (-1, k)" if "mtu < 50" using that by (simp add: SetMtu_def)
qed (use SetMtu_ok [OF assms] in blast)+

theorem configuration_keeps_connection_witness:
  "conn_ok (snd (NoDelay 1 1 2 1 (NewKCP 7 (\<lambda>_. 0) newSnmp)))
   \<and> conn_ok (snd (SetMtu 1400 (NewKCP 7 (\<lambda>_. 0) newSnmp)))"
proof -
  have "rb_list (k_snd_queue (NewKCP 7 (\<lambda>_. 0) newSnmp)) = []" "rb_list (k_snd_buf (NewKCP 7 (\<lambda>_. 0) newSnmp)) = []"
    by (simp_all add: NewKCP_def)
  then show ?thesis
    using configuration_keeps_connection [OF NewKCP_conn_ok, of 1 1 2 1 7 "\<lambda>_. 0" newSnmp 1 1 1400] by simp
qed

text \<open>The advertised window. For a receive window below 65536 segments \<open>wnd_unused\<close> is the free
  room of the receive queue; a receive window of exactly 65536 with an empty queue is
  advertised as 0, since the difference is truncated to 16 bits.\<close>

theorem wnd_unused_advertises:
  "(unat (k_rcv_wnd k) < 2 ^ 16 \<longrightarrow> unat (wnd_unused k) = unat (k_rcv_wnd k) - RingBuffer_Len (k_rcv_queue k))
   \<and> (unat (k_rcv_wnd k) = 2 ^ 16 \<and> RingBuffer_Len (k_rcv_queue k) = 0 \<longrightarrow> wnd_unused k = 0)"
  by (auto simp: wnd_unused_def unat_of_nat take_bit_nat_eq_self simp del: of_nat_diff)

theorem wnd_unused_advertises_witness:
  "wnd_unused (snd (WndSize 32 65536 (NewKCP 7 (\<lambda>_. 0) newSnmp))) = 0 \<and> unat (wnd_unused (NewKCP 7 (\<lambda>_. 0) newSnmp)) = 32"
  using wnd_unused_advertises [of "snd (WndSize 32 65536 (NewKCP 7 (\<lambda>_. 0) newSnmp))"]
    wnd_unused_advertises [of "NewKCP 7 (\<lambda>_. 0) newSnmp"]
  by (simp add: WndSize_def NewKCP_def ikcp_consts RingBuffer_Len_def NewRingBuffer_def)

end
