(* ===== verification/Kcp_Net.thy ===== *)
theory Kcp_Net
  imports Kcp_Update "HOL-Library.Sublist"
begin

text \<open>
  Two KCP endpoints over an unreliable datagram network. A packet handed to \<open>output\<close> may be
  delivered to the peer at any later time, any number of times, in any order, or never. The
  step relation interleaves all operations of both endpoints; the theory shows that in every
  reachable state each side has received a prefix of the messages its peer has sent, and
  that no operation panics.

  The argument is split by role. The \<^emph>\<open>frames\<close> of an endpoint are the (\<open>frg\<close>, \<open>data\<close>) pairs of
  everything it has sent, in order; \<open>tx_ok\<close> says that its send queue, its send buffer and all
  packets it has output carry the frames that belong to their sequence numbers, and \<open>rx_ok\<close>
  that a receiver holds and has delivered a prefix of its peer's frames.
\<close>

section \<open>The network\<close>

record endpoint =
  ep_k :: KCP
  ep_sent :: "bytes list"
  ep_got :: "bytes list"

inductive ep_step :: "bytes set \<Rightarrow> endpoint \<Rightarrow> endpoint \<Rightarrow> bool" for net where
  ep_send: "Send msg (ep_k e) = Inr (r, k') \<Longrightarrow>
     ep_step net e (e\<lparr>ep_k := k', ep_sent := (if r = 0 then ep_sent e @ [msg] else ep_sent e)\<rparr>)"
| ep_recv: "Recv room (ep_k e) = Inr (r, d, k') \<Longrightarrow>
     ep_step net e (e\<lparr>ep_k := k', ep_got := (if 0 \<le> r then ep_got e @ [d] else ep_got e)\<rparr>)"
| ep_input: "p \<in> net \<Longrightarrow> Input p pt ack (ep_k e) = Inr (r, k') \<Longrightarrow> ep_step net e (e\<lparr>ep_k := k'\<rparr>)"
| ep_update: "Update (ep_k e) = Inr k' \<Longrightarrow> ep_step net e (e\<lparr>ep_k := k'\<rparr>)"
| ep_flush: "flush ft (ep_k e) = Inr (nx, k') \<Longrightarrow> ep_step net e (e\<lparr>ep_k := k'\<rparr>)"

inductive_cases ep_stepE: "ep_step net e e'"

inductive net_step :: "endpoint \<times> endpoint \<Rightarrow> endpoint \<times> endpoint \<Rightarrow> bool" where
  net_left: "ep_step (set (k_out (ep_k b))) a a' \<Longrightarrow> net_step (a, b) (a', b)"
| net_right: "ep_step (set (k_out (ep_k a))) b b' \<Longrightarrow> net_step (a, b) (a, b')"

inductive_cases net_stepE: "net_step s s'"

text \<open>A configured endpoint before any traffic.\<close>

record kcp_conf =
  cf_mtu :: int
  cf_nodelay :: int
  cf_interval :: int
  cf_resend :: int
  cf_nc :: int
  cf_sndwnd :: int
  cf_rcvwnd :: int

definition start :: "u32 \<Rightarrow> kcp_conf \<Rightarrow> (nat \<Rightarrow> u32) \<Rightarrow> endpoint" where
  "start conv cf clock =
    \<lparr>ep_k = snd (WndSize (cf_sndwnd cf) (cf_rcvwnd cf)
       (snd (NoDelay (cf_nodelay cf) (cf_interval cf) (cf_resend cf) (cf_nc cf)
         (snd (SetMtu (cf_mtu cf) (NewKCP conv clock newSnmp)))))),
     ep_sent = [], ep_got = []\<rparr>"


section \<open>Frames\<close>

abbreviation frame :: "segment \<Rightarrow> u8 \<times> bytes" where
  "frame s \<equiv> (seg_frg s, seg_data s)"

definition msg_frames :: "nat \<Rightarrow> bytes \<Rightarrow> (u8 \<times> bytes) list" where
  "msg_frames m b = map frame (frag_segs True (chunks m b))"

abbreviation all_frames :: "nat \<Rightarrow> bytes list \<Rightarrow> (u8 \<times> bytes) list" where
  "all_frames m sent \<equiv> concat (map (msg_frames m) sent)"

definition numbered :: "(u8 \<times> bytes) list \<Rightarrow> u32 \<Rightarrow> u8 \<Rightarrow> bytes \<Rightarrow> bool" where
  "numbered fs sn f d \<longleftrightarrow> unat sn < length fs \<and> fs ! unat sn = (f, d)"

definition sent_ok :: "nat \<Rightarrow> bytes list \<Rightarrow> bool" where
  "sent_ok m sent \<longleftrightarrow> (\<forall>b \<in> set sent. b \<noteq> [] \<and> length (chunks m b) \<le> 255)"

lemma numbered_append: "numbered fs sn f d \<Longrightarrow> numbered (fs @ gs) sn f d"
  by (simp add: numbered_def nth_append)

lemma length_msg_frames [simp]: "length (msg_frames m b) = length (chunks m b)"
  by (simp add: msg_frames_def)

lemma frames_le: "0 < m \<Longrightarrow> (f, d) \<in> set (all_frames m sent) \<Longrightarrow> length d \<le> m"
  by (auto simp: msg_frames_def intro: frag_segs_le)

lemma numbered_le: "0 < m \<Longrightarrow> numbered (all_frames m sent) sn f d \<Longrightarrow> length d \<le> m"
  unfolding numbered_def using nth_mem [of "unat sn" "all_frames m sent"] frames_le [of m f d sent] by presburger

text \<open>A run of consecutively numbered segments reads off consecutive frames; it cannot run past
  the end of the frames.\<close>

lemma run_frames:
  "sns_from (of_nat n) ss \<Longrightarrow> \<forall>s \<in> set ss. numbered fs (seg_sn s) (seg_frg s) (seg_data s) \<Longrightarrow>
     n \<le> length fs \<Longrightarrow> length fs < 2 ^ 32 \<Longrightarrow>
     n + length ss \<le> length fs \<and> map frame ss = take (length ss) (drop n fs)"
proof (induction ss arbitrary: n)
  case (Cons s ss)
  have "unat (seg_sn s) = n" using Cons.prems by (simp add: unat_of_nat_u32)
  then have n: "n < length fs" "fs ! n = frame s" using Cons.prems(2) by (auto simp: numbered_def)
  have "sns_from (of_nat (Suc n)) ss" using Cons.prems(1) by (simp add: add.commute)
  with Cons.IH [of "Suc n"] Cons.prems n
  have "Suc n + length ss \<le> length fs \<and> map frame ss = take (length ss) (drop (Suc n) fs)" by simp
  with n show ?case by (simp add: Cons_nth_drop_Suc [symmetric])
qed simp

text \<open>Conversely, segments stamped with consecutive numbers are numbered by their frames.\<close>

lemma stamp_numbered:
  assumes "map frame xs = take (length xs) (drop n fs)" and "n + length xs \<le> length fs" and "length fs < 2 ^ 32"
    and "s \<in> set (stamp c (of_nat n) xs)"
  shows "numbered fs (seg_sn s) (seg_frg s) (seg_data s)"
  using assms
proof (induction xs arbitrary: n)
  case (Cons x xs)
  have n: "n < length fs" "fs ! n = frame x" using Cons.prems(1,2) by (simp_all add: Cons_nth_drop_Suc [symmetric])
  have m: "map frame xs = take (length xs) (drop (Suc n) fs)"
    using Cons.prems(1) n(1) by (simp add: Cons_nth_drop_Suc [symmetric])
  have e: "(of_nat n :: u32) + 1 = of_nat (Suc n)" by simp
  consider "s = x\<lparr>seg_conv := c, seg_cmd := IKCP_CMD_PUSH, seg_sn := of_nat n\<rparr>" | "s \<in> set (stamp c (of_nat (Suc n)) xs)"
    using Cons.prems(4) unfolding stamp.simps e by auto
  then show ?case
  proof cases
    case 1
    then show ?thesis using n Cons.prems(3) by (simp add: numbered_def unat_of_nat_u32)
  next
    case 2
    then show ?thesis using Cons.IH [OF m] Cons.prems(2,3) by simp
  qed
qed simp


section \<open>The sending role\<close>

definition packet_ok :: "u32 \<Rightarrow> (u8 \<times> bytes) list \<Rightarrow> bytes \<Rightarrow> bool" where
  "packet_ok c fs p \<longleftrightarrow> (\<exists>ss. p = wires ss \<and> ss \<noteq> [] \<and> (\<forall>s \<in> set ss. wireQ c (numbered fs) s))"

definition tx_ok :: "nat \<Rightarrow> (u8 \<times> bytes) list \<Rightarrow> KCP \<Rightarrow> bool" where
  "tx_ok m fs k \<longleftrightarrow> snd_side_ok k \<and> k_stream k = 0 \<and> unat (k_mss k) = m
     \<and> (\<exists>n. n \<le> length fs \<and> k_snd_nxt k = of_nat n \<and> map frame (rb_list (k_snd_queue k)) = drop n fs)
     \<and> (\<forall>(sn, f, d) \<in> live_segs k. numbered fs sn f d)
     \<and> (\<forall>p \<in> set (k_out k). packet_ok (k_conv k) fs p)"

lemma packet_ok_append: "packet_ok c fs p \<Longrightarrow> packet_ok c (fs @ gs) p"
  unfolding packet_ok_def wireQ_def using numbered_append by blast

lemma tx_kept:
  assumes "tx_ok m fs k" and "snd_kept k k'"
  shows "tx_ok m fs k'"
  using assms unfolding tx_ok_def snd_kept_def by (elim conjE) (simp, blast)

lemma tx_side: "tx_ok m fs k \<Longrightarrow> snd_side_ok k"
  by (simp add: tx_ok_def)

lemma tx_same: "tx_ok m fs k \<Longrightarrow> snd_same k k' \<Longrightarrow> tx_ok m fs k'"
  by (rule tx_kept [OF _ snd_same_kept [OF _ tx_side]])

lemma tx_sendable:
  assumes "tx_ok m fs k" and "length fs < 2 ^ 32"
  shows "sendable (numbered fs) k"
proof -
  obtain n where n: "n \<le> length fs" "k_snd_nxt k = of_nat n" "map frame (rb_list (k_snd_queue k)) = drop n fs"
    using assms(1) by (auto simp: tx_ok_def)
  let ?xs = "take (win_count k) (rb_list (k_snd_queue k))"
  have len: "length fs - n = RingBuffer_Len (k_snd_queue k)" using arg_cong [OF n(3), of length] by simp
  have m: "map frame ?xs = take (length ?xs) (drop n fs)"
    using n(3) by (simp add: take_map [symmetric] win_count_def)
  have "numbered fs (seg_sn s) (seg_frg s) (seg_data s)" if "s \<in> set (stamp (k_conv k) (k_snd_nxt k) ?xs)" for s
    by (rule stamp_numbered [OF m _ assms(2) that [unfolded n(2)]]) (use n(1) len in simp)
  moreover have "numbered fs (seg_sn s) (seg_frg s) (seg_data s)"
    if "s \<in> set (rb_list (k_snd_buf k))" "seg_acked s \<noteq> 1" for s
    using assms(1) that by (auto simp: tx_ok_def live_segs_def)
  ultimately show ?thesis unfolding sendable_def by auto
qed

lemma tx_flush:
  assumes tx: "tx_ok m fs k" and l: "length fs < 2 ^ 32" and f: "flush ft k = Inr (nx, k')"
  shows "tx_ok m fs k'" and "rcv_same k k'" and "k_conv k' = k_conv k"
proof -
  have so: "snd_side_ok k" using tx by (simp add: tx_ok_def)
  obtain ps where fl: "flushed k k'" and out: "k_out k' = k_out k @ map wires ps"
      "\<forall>p \<in> set ps. p \<noteq> [] \<and> length (wires p) \<le> unat (k_mtu k) \<and> (\<forall>s \<in> set p. wireQ (k_conv k) (numbered fs) s)"
    using flush_spec [OF so tx_sendable [OF tx l], of ft] f by auto
  note fr = fl [unfolded flushed_def flush_frame_def]
  show "rcv_same k k'" and c: "k_conv k' = k_conv k" using fr by (simp_all add: rcv_same_def)
  obtain n where n: "n \<le> length fs" "k_snd_nxt k = of_nat n" "map frame (rb_list (k_snd_queue k)) = drop n fs"
    using tx by (auto simp: tx_ok_def)
  have len: "length fs - n = RingBuffer_Len (k_snd_queue k)" using arg_cong [OF n(3), of length] by simp
  have "n + win_count k \<le> length fs" using n(1) len by (simp add: win_count_def)
  moreover have "k_snd_nxt k' = of_nat (n + win_count k)" using fr n(2) by simp
  moreover have "map frame (rb_list (k_snd_queue k')) = drop (n + win_count k) fs"
    using fr n(3) by (simp add: drop_map [symmetric] add.commute)
  ultimately have q: "\<exists>n. n \<le> length fs \<and> k_snd_nxt k' = of_nat n \<and> map frame (rb_list (k_snd_queue k')) = drop n fs"
    by blast
  have lv: "numbered fs (seg_sn s) (seg_frg s) (seg_data s)"
    if s: "s \<in> set (rb_list (k_snd_buf k'))" "seg_acked s \<noteq> 1" for s
  proof -
    obtain t where "t \<in> set (rb_list (k_snd_buf k)
        @ stamp (k_conv k) (k_snd_nxt k) (take (win_count k) (rb_list (k_snd_queue k))))" "same_seg t s"
      using same_seg_from [OF _ s(1)] fr by blast
    with tx_sendable [OF tx l] s(2) show ?thesis unfolding sendable_def same_seg_def by metis
  qed
  have "\<forall>p \<in> set (k_out k'). packet_ok (k_conv k') fs p"
    using tx out c unfolding tx_ok_def packet_ok_def by auto
  with q lv show "tx_ok m fs k'"
    using flushed_side_ok [OF so fl] fr tx unfolding tx_ok_def live_segs_def by auto
qed

lemma tx_send:
  assumes tx: "tx_ok m fs k" and m: "0 < m" "m \<le> mtuLimit" and s: "Send b k = Inr (r, k')"
  shows "rcv_same k k' \<and> k_conv k' = k_conv k
    \<and> (r = 0 \<and> b \<noteq> [] \<and> length (chunks m b) \<le> 255 \<and> tx_ok m (fs @ msg_frames m b) k' \<or> r < 0 \<and> k' = k)"
proof (cases "b = [] \<or> 255 < length (chunks m b)")
  case True
  have "Send b k = Inr (if b = [] then -1 else -2, k)"
    using True tx m Send_message(1) [of k b] by (auto simp: tx_ok_def snd_side_ok_def Send_def)
  then show ?thesis using s by (auto simp: rcv_same_def)
next
  case False
  then obtain q where q: "Send b k = Inr (0, k\<lparr>k_snd_queue := q\<rparr>)" "rb_inv q"
      "rb_list q = rb_list (k_snd_queue k) @ frag_segs True (chunks m b)"
    using Send_message(2) [of k b] tx m by (auto simp: tx_ok_def snd_side_ok_def)
  then have k': "k' = k\<lparr>k_snd_queue := q\<rparr>" "r = 0" using s by simp_all
  have ac: "seg_acked x = 0" if "x \<in> set (frag_segs True cs)" for x cs
    using that by (induction cs) (auto simp: zero_segment_def)
  have "snd_side_ok k'"
    using tx q frag_segs_le [of _ True m b] m ac [of _ "chunks m b"] unfolding k' tx_ok_def snd_side_ok_def
    by (auto simp: cfg_ok_def snd_ok_def)
  moreover obtain n where "n \<le> length fs" "k_snd_nxt k = of_nat n" "map frame (rb_list (k_snd_queue k)) = drop n fs"
    using tx by (auto simp: tx_ok_def)
  then have "\<exists>n. n \<le> length (fs @ msg_frames m b) \<and> k_snd_nxt k' = of_nat n
      \<and> map frame (rb_list (k_snd_queue k')) = drop n (fs @ msg_frames m b)"
    by (intro exI [of _ n]) (simp add: k' q msg_frames_def)
  moreover have "live_segs k' = live_segs k" by (simp add: k' live_segs_def)
  ultimately have "tx_ok m (fs @ msg_frames m b) k'"
    using tx unfolding tx_ok_def by (auto simp: k' intro: numbered_append packet_ok_append)
  with False k' show ?thesis by (simp add: rcv_same_def)
qed

lemma tx_send_returns:
  assumes "tx_ok m fs k" and "0 < m" and "m \<le> mtuLimit"
  shows "\<exists>r. Send b k = Inr r"
proof (cases "b = []")
  case True
  then show ?thesis by (simp add: Send_def)
next
  case False
  have k: "k_stream k = 0" "unat (k_mss k) = m" "rb_inv (k_snd_queue k)"
    using assms(1) by (simp_all add: tx_ok_def snd_side_ok_def)
  note S = Send_message [of k b, OF k(1) False, unfolded k(2), OF assms(2,3) k(3)]
  show ?thesis using S by (cases "255 < length (chunks m b)") (blast, metis not_less)
qed


section \<open>The receiving role\<close>

definition rx_ok :: "nat \<Rightarrow> bytes list \<Rightarrow> bytes list \<Rightarrow> KCP \<Rightarrow> bool" where
  "rx_ok m sent got k \<longleftrightarrow> rcv_ok k
     \<and> (\<exists>n j. n \<le> length (all_frames m sent) \<and> k_rcv_nxt k = of_nat n \<and> j \<le> length sent \<and> got = take j sent
          \<and> take n (all_frames m sent) = all_frames m (take j sent) @ map frame (rb_list (k_rcv_queue k)))
     \<and> (\<forall>s \<in> set (segments (k_rcv_buf k)). numbered (all_frames m sent) (seg_sn s) (seg_frg s) (seg_data s))"

lemma rx_same: "rx_ok m sent got k \<Longrightarrow> rcv_same k k' \<Longrightarrow> rx_ok m sent got k'"
  by (simp add: rx_ok_def rcv_same_def rcv_ok_def)

lemma rx_more:
  assumes "rx_ok m sent got k"
  shows "rx_ok m (sent @ [b]) got k"
proof -
  obtain n j where "n \<le> length (all_frames m sent)" "k_rcv_nxt k = of_nat n" "j \<le> length sent" "got = take j sent"
    "take n (all_frames m sent) = all_frames m (take j sent) @ map frame (rb_list (k_rcv_queue k))"
    using assms by (auto simp: rx_ok_def)
  then have "\<exists>n j. n \<le> length (all_frames m (sent @ [b])) \<and> k_rcv_nxt k = of_nat n \<and> j \<le> length (sent @ [b])
      \<and> got = take j (sent @ [b]) \<and> take n (all_frames m (sent @ [b]))
          = all_frames m (take j (sent @ [b])) @ map frame (rb_list (k_rcv_queue k))"
    by (intro exI [of _ n] exI [of _ j]) simp
  then show ?thesis using assms unfolding rx_ok_def by (simp add: numbered_append)
qed

lemma rx_adv:
  assumes rx: "rx_ok m sent got k" and adv: "rcv_adv S k k'" and l: "length (all_frames m sent) < 2 ^ 32"
    and S: "\<forall>s \<in> S. numbered (all_frames m sent) (seg_sn s) (seg_frg s) (seg_data s)"
  shows "rx_ok m sent got k'"
proof -
  let ?fs = "all_frames m sent"
  obtain n j where n: "n \<le> length ?fs" "k_rcv_nxt k = of_nat n" and j: "j \<le> length sent" "got = take j sent"
    and q: "take n ?fs = all_frames m (take j sent) @ map frame (rb_list (k_rcv_queue k))"
    and b: "\<forall>s \<in> set (segments (k_rcv_buf k)). numbered ?fs (seg_sn s) (seg_frg s) (seg_data s)"
    using rx by (auto simp: rx_ok_def)
  obtain mv where mv: "rcv_ok k'" "rb_list (k_rcv_queue k') = rb_list (k_rcv_queue k) @ mv"
      "sns_from (k_rcv_nxt k) mv" "k_rcv_nxt k' = k_rcv_nxt k + of_nat (length mv)"
      "set mv \<union> set (segments (k_rcv_buf k')) \<subseteq> set (segments (k_rcv_buf k)) \<union> S"
    using adv unfolding rcv_adv_def by blast
  have nb: "\<forall>s \<in> set mv \<union> set (segments (k_rcv_buf k')). numbered ?fs (seg_sn s) (seg_frg s) (seg_data s)"
    using mv(5) b S by blast
  have r: "n + length mv \<le> length ?fs" "map frame mv = take (length mv) (drop n ?fs)"
    using run_frames [of n mv ?fs] mv(3) nb n l by auto
  have "take (n + length mv) ?fs = all_frames m (take j sent) @ map frame (rb_list (k_rcv_queue k'))"
    unfolding take_add mv(2) q r(2) [symmetric] by simp
  moreover have "k_rcv_nxt k' = of_nat (n + length mv)" using mv(4) n(2) by simp
  ultimately show ?thesis unfolding rx_ok_def using mv(1) nb r(1) j by blast
qed

lemma moved_rcv_adv: "moved_to k mv k' \<Longrightarrow> rcv_adv {} k k'"
proof -
  assume mv: "moved_to k mv k'"
  then have "mset (segments (k_rcv_buf k)) = mset mv + mset (segments (k_rcv_buf k'))" by (simp add: moved_to_def)
  from arg_cong [OF this, of set_mset] have "set mv \<union> set (segments (k_rcv_buf k')) \<subseteq> set (segments (k_rcv_buf k)) \<union> {}"
    by simp
  with mv show ?thesis unfolding rcv_adv_def moved_to_def by blast
qed

text \<open>When the receive queue holds a complete message, that is the next message of the peer.\<close>

lemma next_message:
  assumes q: "map frame qs = take (length qs) (all_frames m rest)" and rdy: "msg_ready qs" and ok: "sent_ok m rest"
  obtains b rest' qs1 qs2 where "rest = b # rest'" and "qs = qs1 @ qs2" and "take_msg qs = (qs1, qs2)"
    and "payload qs1 = b" and "map frame qs1 = msg_frames m b"
proof -
  have "qs \<noteq> []" using rdy by auto
  then obtain s ss where s: "qs = s # ss" by (cases qs) auto
  have "rest \<noteq> []" using q s by auto
  then obtain b rest' where r: "rest = b # rest'" by (cases rest) auto
  let ?cs = "chunks m b"
  obtain c cs where c: "?cs = c # cs" using chunks_ne [of m b] by (cases ?cs) auto
  have lc: "length ?cs \<le> 255" using ok r by (simp add: sent_ok_def)
  have fr: "seg_frg s = of_nat (length cs)" using q s r c by (simp add: msg_frames_def)
  have "unat (seg_frg s) = length cs"
    using lc c fr by (simp add: unat_of_nat take_bit_nat_eq_self)
  moreover have "unat (seg_frg s + 1) = Suc (unat (seg_frg s))"
    using lc c calculation by (simp add: unat_word_ariths)
  ultimately have len: "length ?cs \<le> length qs"
    using rdy s c fr by (cases "cs = []") auto
  let ?qs1 = "take (length ?cs) qs" and ?qs2 = "drop (length ?cs) qs"
  have m: "map frame ?qs1 = msg_frames m b"
    using q len r by (simp add: take_map [symmetric])
  have "map seg_frg ?qs1 = map fst (map frame ?qs1)" by simp
  then have f: "map seg_frg ?qs1 = map seg_frg (frag_segs True ?cs)"
    unfolding m msg_frames_def by simp
  have "map seg_data ?qs1 = map snd (map frame ?qs1)" by simp
  then have d: "payload ?qs1 = b" unfolding m msg_frames_def by (simp add: comp_def)
  have t: "take_msg (?qs1 @ ?qs2) = (?qs1, ?qs2)" by (rule take_msg_frags [OF f]) (use lc in simp_all)
  show ?thesis by (rule that [OF r _ _ d m]) (use t in simp_all)
qed

lemma append_eq_take:
  assumes "xs @ ys = take n (xs @ zs)"
  shows "ys = take (length ys) zs"
proof -
  have "length xs \<le> n" using arg_cong [OF assms, of length] by simp
  with assms have "ys = take (n - length xs) zs" by simp
  then show ?thesis by (metis length_take min.commute take_all_iff take_take nle_le)
qed

lemma rx_pop:
  assumes rx: "rx_ok m sent got k" and ok: "sent_ok m sent" and rdy: "msg_ready (rb_list (k_rcv_queue k))"
    and k1: "k1 = k\<lparr>k_rcv_queue := q\<rparr>" "rb_inv q" "rb_list q = snd (take_msg (rb_list (k_rcv_queue k)))"
  shows "rx_ok m sent (got @ [payload (fst (take_msg (rb_list (k_rcv_queue k))))]) k1"
proof -
  let ?fs = "all_frames m sent" and ?qs = "rb_list (k_rcv_queue k)"
  obtain n j where n: "n \<le> length ?fs" "k_rcv_nxt k = of_nat n" and j: "j \<le> length sent" "got = take j sent"
    and t: "take n ?fs = all_frames m (take j sent) @ map frame ?qs"
    using rx by (auto simp: rx_ok_def)
  have sp: "?fs = all_frames m (take j sent) @ all_frames m (drop j sent)"
    by (simp flip: concat_append map_append)
  have q: "map frame ?qs = take (length ?qs) (all_frames m (drop j sent))"
    using append_eq_take [OF t [unfolded sp, symmetric]] by simp
  have "sent_ok m (drop j sent)" using ok by (auto simp: sent_ok_def dest: in_set_dropD)
  then obtain b rest qs1 qs2 where b: "drop j sent = b # rest" "?qs = qs1 @ qs2" "take_msg ?qs = (qs1, qs2)"
      "payload qs1 = b" "map frame qs1 = msg_frames m b"
    by (rule next_message [OF q rdy])
  have "j < length sent" using b(1) by (metis drop_all list.discI not_less)
  then have j': "take (Suc j) sent = take j sent @ [b]"
    using b(1) by (simp add: take_Suc_conv_app_nth nth_via_drop)
  have "take n ?fs = all_frames m (take (Suc j) sent) @ map frame (rb_list (k_rcv_queue k1))"
    using t b k1 unfolding j' by simp
  moreover have "rcv_ok k1" using rx k1 by (simp add: rx_ok_def rcv_ok_def)
  ultimately show ?thesis
    unfolding rx_ok_def using rx n j' j \<open>j < length sent\<close> b(3,4) k1(1)
    by (intro conjI exI [of _ n] exI [of _ "Suc j"]) (simp_all add: rx_ok_def)
qed

lemma Recv_returns:
  assumes "rcv_ok k"
  shows "\<exists>r. Recv room k = Inr r"
proof -
  have "rb_inv (k_rcv_queue k)" using assms by (simp add: rcv_ok_def)
  from Recv_error [OF this, of room] Recv_message [OF assms, of room] show ?thesis
    by (cases "msg_ready (rb_list (k_rcv_queue k))";
        cases "room < length (payload (fst (take_msg (rb_list (k_rcv_queue k)))))") (auto simp: not_less)
qed

lemma rx_recv:
  assumes rx: "rx_ok m sent got k" and ok: "sent_ok m sent" and l: "length (all_frames m sent) < 2 ^ 32"
    and r: "Recv room k = Inr (r, d, k')"
  shows "rx_ok m sent (if 0 \<le> r then got @ [d] else got) k' \<and> snd_same k k'"
proof -
  let ?qs = "rb_list (k_rcv_queue k)"
  have ro: "rcv_ok k" using rx by (simp add: rx_ok_def)
  then have inv: "rb_inv (k_rcv_queue k)" by (simp add: rcv_ok_def)
  show ?thesis
  proof (cases "msg_ready ?qs \<and> length (payload (fst (take_msg ?qs))) \<le> room")
    case False
    then have "r < 0 \<and> k' = k" using r Recv_error [OF inv, of room] by (cases "msg_ready ?qs") auto
    then show ?thesis using rx by (simp add: snd_same_def)
  next
    case True
    then obtain mv k1 k2 q where R: "Recv room k = Inr (int (length (payload (fst (take_msg ?qs)))),
          payload (fst (take_msg ?qs)), k2)"
        and k1: "k1 = k\<lparr>k_rcv_queue := q\<rparr>" "rb_list (k_rcv_queue k1) = snd (take_msg ?qs)"
        and mv: "moved_to k1 mv (k2\<lparr>k_probe := k_probe k\<rparr>)" and iq: "rb_inv q"
      using Recv_message [OF ro, of room] by blast
    have k2: "k' = k2" "0 \<le> r" "d = payload (fst (take_msg ?qs))" using R r by simp_all
    have "rx_ok m sent (got @ [d]) k1"
      unfolding k2(3) by (rule rx_pop [OF rx ok _ k1(1) iq]) (use True k1 in simp_all)
    moreover have "rcv_adv {} k1 (k2\<lparr>k_probe := k_probe k\<rparr>)" by (rule moved_rcv_adv [OF mv])
    ultimately have "rx_ok m sent (got @ [d]) (k2\<lparr>k_probe := k_probe k\<rparr>)" using rx_adv l by blast
    then have "rx_ok m sent (got @ [d]) k2" by (rule rx_same) (simp add: rcv_same_def)
    moreover have "rcv_frame k1 (k2\<lparr>k_probe := k_probe k\<rparr>)" using mv by (simp add: moved_to_def)
    then have "snd_same k1 (k2\<lparr>k_probe := k_probe k\<rparr>)" by (rule rcv_frame_snd_same)
    then have "snd_same k k2" by (simp add: snd_same_def k1)
    ultimately show ?thesis using k2 by simp
  qed
qed


section \<open>One endpoint\<close>

lemma packet_accepted:
  assumes "packet_ok c (all_frames m sent) p" and "0 < m" and "m \<le> mtuLimit"
  obtains ss where "p = wires ss" and "ss \<noteq> []"
    and "\<forall>s \<in> set ss. seg_conv s = c \<and> cmd_ok (seg_cmd s) \<and> length (seg_data s) \<le> mtuLimit"
    and "\<forall>s \<in> pushed ss. numbered (all_frames m sent) (seg_sn s) (seg_frg s) (seg_data s)"
proof -
  obtain ss where ss: "p = wires ss" "ss \<noteq> []" "\<forall>s \<in> set ss. wireQ c (numbered (all_frames m sent)) s"
    using assms(1) by (auto simp: packet_ok_def)
  have "seg_conv s = c \<and> cmd_ok (seg_cmd s) \<and> length (seg_data s) \<le> mtuLimit" if "s \<in> set ss" for s
  proof (cases "ctl_seg c s")
    case True
    then show ?thesis by (auto simp: ctl_seg_def cmd_ok_def)
  next
    case False
    then have "seg_conv s = c" "seg_cmd s = IKCP_CMD_PUSH" "numbered (all_frames m sent) (seg_sn s) (seg_frg s) (seg_data s)"
      using ss(3) that by (auto simp: wireQ_def)
    with numbered_le [OF assms(2) this(3)] assms(3) show ?thesis by (simp add: cmd_ok_def)
  qed
  moreover have "numbered (all_frames m sent) (seg_sn s) (seg_frg s) (seg_data s)" if sp: "s \<in> pushed ss" for s
  proof -
    obtain t where t: "t \<in> set ss" "seg_cmd t = IKCP_CMD_PUSH" "s = input_seg (seg_conv t) (header_of t) (seg_data t)"
      using sp by (auto simp: pushed_def)
    then have "numbered (all_frames m sent) (seg_sn t) (seg_frg t) (seg_data t)"
      using ss(3) by (auto simp: wireQ_def ctl_seg_def ikcp_consts)
    then show ?thesis by (simp add: t(3) input_seg_def header_of_def)
  qed
  ultimately show ?thesis using that [OF ss(1,2)] by blast
qed

lemma after_flush:
  assumes "tx_ok m fs k1" and "length fs < 2 ^ 32" and "rx_ok m' sent got k1"
    and "k' = k1 \<or> (\<exists>ft nx. flush ft k1 = Inr (nx, k'))"
  shows "tx_ok m fs k' \<and> rx_ok m' sent got k' \<and> k_conv k' = k_conv k1"
  using assms tx_flush [OF assms(1,2)] rx_same by blast

lemma conn_okI: "tx_ok m fs k \<Longrightarrow> rx_ok m' sent got k \<Longrightarrow> conn_ok k"
  by (simp add: tx_ok_def rx_ok_def conn_ok_def)

lemma role_input:
  assumes tx: "tx_ok m fs k" and lf: "length fs < 2 ^ 32" and rx: "rx_ok m' sent got k"
    and ls: "length (all_frames m' sent) < 2 ^ 32" and m': "0 < m'" "m' \<le> mtuLimit"
    and p: "packet_ok (k_conv k) (all_frames m' sent) p"
  shows "\<exists>k'. Input p pt ack k = Inr (0, k') \<and> tx_ok m fs k' \<and> rx_ok m' sent got k' \<and> k_conv k' = k_conv k"
proof -
  let ?st = "\<lparr>is_k = k, is_latest = 0, is_updateRTT = False, is_inSegs = 0, is_flush = False\<rparr>"
  have ok: "conn_ok k" by (rule conn_okI [OF tx rx])
  obtain ss where ss: "p = wires ss" "ss \<noteq> []"
      "\<forall>s \<in> set ss. seg_conv s = k_conv k \<and> cmd_ok (seg_cmd s) \<and> length (seg_data s) \<le> mtuLimit"
      "\<forall>s \<in> pushed ss. numbered (all_frames m' sent) (seg_sn s) (seg_frg s) (seg_data s)"
    by (rule packet_accepted [OF p m'])
  obtain st where l: "input_loop pt p ?st = Inr (0, st)" "snd_kept k (is_k st)" "rcv_adv (pushed ss) k (is_k st)"
    using input_loop_wires [of ?st ss pt] ok ss by auto
  have len: "IKCP_OVERHEAD \<le> length p" using ss(1,2) by (cases ss) auto
  obtain k1 k' where i: "Input p pt ack k = Inr (0, k')" "snd_kept k k1" "rcv_adv (pushed ss) k k1"
      "k' = k1 \<or> (\<exists>ft nx. flush ft k1 = Inr (nx, k'))"
    using Input_after_loop [OF ok len l(1-3), of ack] by auto
  have "k_conv k1 = k_conv k" using i(2) by (simp add: snd_kept_def)
  then show ?thesis
    using after_flush [OF tx_kept [OF tx i(2)] lf rx_adv [OF rx i(3) ls ss(4)] i(4)] i(1) by auto
qed

lemma Update_shape:
  "\<exists>k1. snd_same k k1 \<and> rcv_same k k1
     \<and> (Update k = Inr k1 \<or> Update k = go_bind (flush IKCP_FLUSH_FULL k1) (\<lambda>(nx, k'). Inr k'))"
proof -
  define now where "now = k_clock k (k_reads k)"
  define k2 where "k2 = (if k_updated k = 0 then k\<lparr>k_reads := Suc (k_reads k), k_updated := 1, k_ts_flush := now\<rparr>
      else k\<lparr>k_reads := Suc (k_reads k)\<rparr>)"
  define c where "c = (itimediff now (k_ts_flush k2) \<ge> 10000 \<or> itimediff now (k_ts_flush k2) < - 10000)"
  define k3 where "k3 = (if c then k2\<lparr>k_ts_flush := now\<rparr> else k2)"
  define sl where "sl = (if c then 0 else itimediff now (k_ts_flush k2))"
  define k4 where "k4 = k3\<lparr>k_ts_flush := k_ts_flush k3 + k_interval k3\<rparr>"
  define k5 where "k5 = (if itimediff now (k_ts_flush k4) \<ge> 0 then k4\<lparr>k_ts_flush := now + k_interval k4\<rparr> else k4)"
  have U: "Update k = (if sl \<ge> 0 then go_bind (flush IKCP_FLUSH_FULL k5) (\<lambda>(nx, k'). Inr k') else Inr k3)"
    unfolding Update_def currentMs_def Let_def case_prod_conv
    by (simp add: now_def [symmetric] k5_def k4_def k3_def sl_def c_def k2_def)
  have "snd_same k k3 \<and> rcv_same k k3 \<and> snd_same k k5 \<and> rcv_same k k5"
    by (simp add: k5_def k4_def k3_def k2_def snd_same_def rcv_same_def)
  then show ?thesis unfolding U by (cases "sl \<ge> 0") auto
qed

lemma role_update:
  assumes tx: "tx_ok m fs k" and lf: "length fs < 2 ^ 32" and rx: "rx_ok m' sent got k"
  shows "\<exists>k'. Update k = Inr k' \<and> tx_ok m fs k' \<and> rx_ok m' sent got k' \<and> k_conv k' = k_conv k"
proof -
  obtain k1 where k1: "snd_same k k1" "rcv_same k k1"
      "Update k = Inr k1 \<or> Update k = go_bind (flush IKCP_FLUSH_FULL k1) (\<lambda>(nx, k'). Inr k')"
    using Update_shape by blast
  have t1: "tx_ok m fs k1" and r1: "rx_ok m' sent got k1" using tx_same [OF tx k1(1)] rx_same [OF rx k1(2)] by auto
  obtain nx k2 where f: "flush IKCP_FLUSH_FULL k1 = Inr (nx, k2)"
    using flush_spec [OF tx_side [OF t1] tx_sendable [OF t1 lf]] by blast
  have "k_conv k1 = k_conv k" using k1(1) by (simp add: snd_same_def)
  then show ?thesis using k1(3) f t1 r1 after_flush [OF t1 lf r1, of k2] by auto
qed

text \<open>The invariant of one endpoint: what it sends and what it receives.\<close>

definition ep_ok :: "u32 \<Rightarrow> nat \<Rightarrow> nat \<Rightarrow> bytes list \<Rightarrow> endpoint \<Rightarrow> bool" where
  "ep_ok c m m' sent e \<longleftrightarrow> k_conv (ep_k e) = c \<and> sent_ok m (ep_sent e) \<and> sent_ok m' sent
     \<and> tx_ok m (all_frames m (ep_sent e)) (ep_k e) \<and> rx_ok m' sent (ep_got e) (ep_k e)"

lemma ep_ok_more: "ep_ok c m m' sent e \<Longrightarrow> sent_ok m' (sent @ [b]) \<Longrightarrow> ep_ok c m m' (sent @ [b]) e"
  using rx_more by (auto simp: ep_ok_def)

definition small :: "nat \<Rightarrow> bytes list \<Rightarrow> bool" where
  "small m sent \<longleftrightarrow> length (all_frames m sent) < 2 ^ 32"

lemma ep_step_ok:
  assumes step: "ep_step net e e'" and ok: "ep_ok c m m' sent e" and m: "0 < m" "m \<le> mtuLimit" "0 < m'" "m' \<le> mtuLimit"
    and lf: "small m (ep_sent e)" and ls: "small m' sent"
    and net: "\<forall>p \<in> net. packet_ok c (all_frames m' sent) p"
  shows "ep_ok c m m' sent e' \<and> (ep_sent e' = ep_sent e \<or> (\<exists>b. ep_sent e' = ep_sent e @ [b]))"
proof -
  have k: "k_conv (ep_k e) = c" "sent_ok m (ep_sent e)" "sent_ok m' sent"
    and tx: "tx_ok m (all_frames m (ep_sent e)) (ep_k e)" and rx: "rx_ok m' sent (ep_got e) (ep_k e)"
    using ok by (simp_all add: ep_ok_def)
  note l1 = lf [unfolded small_def] and l2 = ls [unfolded small_def]
  from step show ?thesis
  proof cases
    case (ep_send msg r k')
    note t = tx_send [OF tx m(1,2) ep_send(2)]
    have r: "rx_ok m' sent (ep_got e) k'" "k_conv k' = c" using t rx_same [OF rx, of k'] k by simp_all
    from t consider "r = 0" "msg \<noteq> []" "length (chunks m msg) \<le> 255"
        "tx_ok m (all_frames m (ep_sent e) @ msg_frames m msg) k'" | "r < 0" "k' = ep_k e" by blast
    then show ?thesis
      using r k tx rx unfolding ep_send(1) ep_ok_def by cases (simp_all add: sent_ok_def)
  next
    case (ep_recv room r d k')
    have r: "rx_ok m' sent (if 0 \<le> r then ep_got e @ [d] else ep_got e) k'" "snd_same (ep_k e) k'"
      using rx_recv [OF rx k(3) l2 ep_recv(2)] by simp_all
    have "k_conv k' = c" using r(2) k(1) by (simp add: snd_same_def)
    with r tx_same [OF tx r(2)] k show ?thesis unfolding ep_recv(1) ep_ok_def by simp
  next
    case (ep_input p pt ack r k')
    from role_input [OF tx l1 rx l2 m(3,4), of p pt ack] net ep_input(2,3) k
    show ?thesis unfolding ep_input(1) ep_ok_def by auto
  next
    case (ep_update k')
    from role_update [OF tx l1 rx] ep_update(2) k show ?thesis unfolding ep_update(1) ep_ok_def by auto
  next
    case (ep_flush ft nx k')
    from after_flush [OF tx l1 rx, of k'] ep_flush(2) k show ?thesis unfolding ep_flush(1) ep_ok_def by auto
  qed
qed


section \<open>Both endpoints\<close>

lemma start_ok:
  assumes "50 \<le> cf_mtu cf" and "cf_mtu cf \<le> int (mtuLimit + IKCP_OVERHEAD)"
  shows "ep_ok c (nat (cf_mtu cf) - IKCP_OVERHEAD) m' [] (start c cf clock)"
proof -
  let ?new = "NewKCP c clock newSnmp" and ?k = "ep_k (start c cf clock)"
  let ?mtu = "snd (SetMtu (cf_mtu cf) ?new)"
  have e: "rb_list (k_snd_queue ?new) = []" "rb_list (k_snd_buf ?new) = []" by (simp_all add: NewKCP_def)
  have mtu: "50 \<le> cf_mtu cf" "cf_mtu cf < 2 ^ 32" using assms by (simp_all add: mtuLimit_def IKCP_OVERHEAD_def)
  have 1: "conn_ok ?mtu" "unat (k_mss ?mtu) = nat (cf_mtu cf) - IKCP_OVERHEAD"
    using SetMtu_ok(2,4) [OF NewKCP_conn_ok mtu] e by simp_all
  have ok: "conn_ok ?k" using NoDelay_WndSize_ok 1(1) by (simp add: start_def)
  have f: "k_mss ?k = k_mss ?mtu" "k_conv ?k = c" "k_stream ?k = 0" "k_snd_nxt ?k = 0" "k_rcv_nxt ?k = 0" "k_out ?k = []"
    "rb_list (k_snd_queue ?k) = []" "rb_list (k_snd_buf ?k) = []" "rb_list (k_rcv_queue ?k) = []"
    "segments (k_rcv_buf ?k) = []"
    using mtu(1) by (simp_all add: start_def NoDelay_def WndSize_def SetMtu_def Let_def NewKCP_def newSegmentHeap_def)
  show ?thesis
    using ok f 1(2) by (simp add: ep_ok_def sent_ok_def tx_ok_def rx_ok_def conn_ok_def live_segs_def start_def)
qed

definition net_ok :: "u32 \<Rightarrow> nat \<Rightarrow> nat \<Rightarrow> endpoint \<times> endpoint \<Rightarrow> bool" where
  "net_ok c ma mb s \<longleftrightarrow> ep_ok c ma mb (ep_sent (snd s)) (fst s) \<and> ep_ok c mb ma (ep_sent (fst s)) (snd s)"

lemma small_prefix: "small m (xs @ [b]) \<Longrightarrow> small m xs"
  by (simp add: small_def)

lemma ep_ok_packets: "ep_ok c m m' sent e \<Longrightarrow> \<forall>p \<in> set (k_out (ep_k e)). packet_ok c (all_frames m (ep_sent e)) p"
  by (auto simp: ep_ok_def tx_ok_def)

lemma ep_ok_sent: "ep_ok c m m' sent e \<Longrightarrow> sent_ok m (ep_sent e)"
  by (simp add: ep_ok_def)

lemma net_step_ok:
  assumes "net_step s s'" and "net_ok c ma mb s" and m: "0 < ma" "ma \<le> mtuLimit" "0 < mb" "mb \<le> mtuLimit"
    and sm: "small ma (ep_sent (fst s))" "small mb (ep_sent (snd s))"
  shows "net_ok c ma mb s'"
  using assms(1)
proof cases
  case (net_left b a a')
  with assms(2) have a: "ep_ok c ma mb (ep_sent b) a" and b: "ep_ok c mb ma (ep_sent a) b" by (simp_all add: net_ok_def)
  from ep_step_ok [OF net_left(3) a m _ _ ep_ok_packets [OF b]] sm net_left(1)
  have a': "ep_ok c ma mb (ep_sent b) a'" "ep_sent a' = ep_sent a \<or> (\<exists>x. ep_sent a' = ep_sent a @ [x])" by simp_all
  then have "ep_ok c mb ma (ep_sent a') b" using b ep_ok_more ep_ok_sent by metis
  with a'(1) net_left(2) show ?thesis by (simp add: net_ok_def)
next
  case (net_right a b b')
  with assms(2) have a: "ep_ok c ma mb (ep_sent b) a" and b: "ep_ok c mb ma (ep_sent a) b" by (simp_all add: net_ok_def)
  from ep_step_ok [OF net_right(3) b m(3,4,1,2) _ _ ep_ok_packets [OF a]] sm net_right(1)
  have b': "ep_ok c mb ma (ep_sent a) b'" "ep_sent b' = ep_sent b \<or> (\<exists>x. ep_sent b' = ep_sent b @ [x])" by simp_all
  then have "ep_ok c ma mb (ep_sent b') a" using a ep_ok_more ep_ok_sent by metis
  with b'(1) net_right(2) show ?thesis by (simp add: net_ok_def)
qed

text \<open>Nothing is ever removed from the history of sent messages, so the bound on the number of
  fragments at the end of a run holds throughout it.\<close>

lemma ep_step_sent: "ep_step net e e' \<Longrightarrow> ep_sent e' = ep_sent e \<or> (\<exists>b. ep_sent e' = ep_sent e @ [b])"
  by (elim ep_stepE) simp_all

lemma net_step_small:
  assumes "net_step s s'" and "small ma (ep_sent (fst s'))" and "small mb (ep_sent (snd s'))"
  shows "small ma (ep_sent (fst s))" and "small mb (ep_sent (snd s))"
  using assms ep_step_sent small_prefix by (auto elim!: net_stepE) (metis ep_step_sent small_prefix)+

lemma net_reach_ok:
  assumes "rtranclp net_step s s'" and "net_ok c ma mb s"
    and "0 < ma" "ma \<le> mtuLimit" "0 < mb" "mb \<le> mtuLimit"
    and "small ma (ep_sent (fst s'))" and "small mb (ep_sent (snd s'))"
  shows "net_ok c ma mb s'"
  using assms
proof (induction rule: rtranclp_induct)
  case (step t u)
  then show ?case using net_step_small [OF step.hyps(2)] net_step_ok [OF step.hyps(2)] by blast
qed

text \<open>A run of the protocol between two configured endpoints.\<close>

definition run_ok :: "u32 \<Rightarrow> kcp_conf \<Rightarrow> kcp_conf \<Rightarrow> (nat \<Rightarrow> u32) \<Rightarrow> (nat \<Rightarrow> u32) \<Rightarrow> endpoint \<times> endpoint \<Rightarrow> bool" where
  "run_ok c ca cb ka kb s \<longleftrightarrow>
     50 \<le> cf_mtu ca \<and> cf_mtu ca \<le> int (mtuLimit + IKCP_OVERHEAD) \<and>
     50 \<le> cf_mtu cb \<and> cf_mtu cb \<le> int (mtuLimit + IKCP_OVERHEAD) \<and>
     rtranclp net_step (start c ca ka, start c cb kb) s \<and>
     small (nat (cf_mtu ca) - IKCP_OVERHEAD) (ep_sent (fst s)) \<and> small (nat (cf_mtu cb) - IKCP_OVERHEAD) (ep_sent (snd s))"

lemma run_net_ok:
  assumes "run_ok c ca cb ka kb s"
  shows "net_ok c (nat (cf_mtu ca) - IKCP_OVERHEAD) (nat (cf_mtu cb) - IKCP_OVERHEAD) s"
proof (rule net_reach_ok)
  let ?init = "(start c ca ka, start c cb kb)"
  show "rtranclp net_step ?init s" using assms by (simp add: run_ok_def)
  show "net_ok c (nat (cf_mtu ca) - IKCP_OVERHEAD) (nat (cf_mtu cb) - IKCP_OVERHEAD) ?init"
    using assms start_ok [of ca c "nat (cf_mtu cb) - IKCP_OVERHEAD" ka]
      start_ok [of cb c "nat (cf_mtu ca) - IKCP_OVERHEAD" kb]
    by (simp add: net_ok_def run_ok_def start_def)
qed (use assms in \<open>auto simp: run_ok_def IKCP_OVERHEAD_def mtuLimit_def\<close>)


section \<open>Properties\<close>

text \<open>A first run: the left endpoint sends one short message.\<close>

definition demo_conf :: kcp_conf where
  "demo_conf = \<lparr>cf_mtu = 1400, cf_nodelay = 1, cf_interval = 10, cf_resend = 2, cf_nc = 1, cf_sndwnd = 32, cf_rcvwnd = 32\<rparr>"

lemma demo_run:
  "\<exists>a. run_ok 7 demo_conf demo_conf (\<lambda>_. 0) (\<lambda>_. 0) (a, start 7 demo_conf (\<lambda>_. 0)) \<and> ep_sent a = [[1, 2, 3]]"
proof -
  let ?e = "start 7 demo_conf (\<lambda>_. 0)"
  let ?m = "nat (cf_mtu demo_conf) - IKCP_OVERHEAD"
  have m: "?m = 1376" by (simp add: demo_conf_def IKCP_OVERHEAD_def)
  have "ep_ok 7 ?m ?m [] ?e" by (rule start_ok) (simp_all add: demo_conf_def mtuLimit_def)
  then have tx: "tx_ok ?m [] (ep_k ?e)" by (simp add: ep_ok_def start_def)
  have "unat (k_mss (ep_k ?e)) = ?m" "k_stream (ep_k ?e) = 0" "rb_inv (k_snd_queue (ep_k ?e))"
    using tx by (simp_all add: tx_ok_def snd_side_ok_def)
  then obtain k' where S: "Send [1, 2, 3] (ep_k ?e) = Inr (0, k')"
    using Send_message(2) [of "ep_k ?e" "[1, 2, 3]"] by (auto simp: m mtuLimit_def chunks_small)
  define a where "a = ?e\<lparr>ep_k := k', ep_sent := (if (0 :: int) = 0 then ep_sent ?e @ [[1, 2, 3]] else ep_sent ?e)\<rparr>"
  have "net_step (?e, ?e) (a, ?e)" unfolding a_def by (rule net_left, rule ep_send, rule S)
  then have "rtranclp net_step (?e, ?e) (a, ?e)" by blast
  moreover have "ep_sent a = [[1, 2, 3]]" by (simp add: a_def start_def)
  moreover have "small ?m [[1, 2, 3]]" "small ?m []" by (simp_all add: small_def m chunks_small)
  ultimately show ?thesis
    by (intro exI [of _ a]) (simp add: run_ok_def demo_conf_def mtuLimit_def start_def)
qed

text \<open>C1: reliable, ordered delivery. Two endpoints of one conversation run over a network that may
  lose, duplicate, delay and reorder packets arbitrarily; as long as fewer than \<open>2 ^ 32\<close>
  fragments have been sent, the messages each side has received are a prefix of the messages
  its peer has sent: no message is lost in the middle, duplicated, reordered or corrupted.\<close>

theorem kcp_delivers_in_order:
  assumes "run_ok c ca cb ka kb (a, b)"
  shows "prefix (ep_got b) (ep_sent a) \<and> prefix (ep_got a) (ep_sent b)"
  using run_net_ok [OF assms] by (auto simp: net_ok_def ep_ok_def rx_ok_def take_is_prefix)

theorem kcp_delivers_in_order_witness:
  "\<exists>a b. run_ok 7 demo_conf demo_conf (\<lambda>_. 0) (\<lambda>_. 0) (a, b) \<and> ep_sent a = [[1, 2, 3]] \<and> prefix (ep_got b) [[1, 2, 3]]"
  using demo_run kcp_delivers_in_order by metis

text \<open>C2: no operation of a running endpoint panics. In every state such a run reaches, \<open>Send\<close>,
  \<open>Recv\<close>, \<open>Update\<close> and \<open>flush\<close> return normally with any arguments, \<open>Input\<close> returns normally on any
  datagram of at most 1524 bytes, and on any packet the peer ever output it returns 0.\<close>

theorem kcp_run_never_panics:
  assumes "run_ok c ca cb ka kb (a, b)"
  shows "(\<exists>r. Send msg (ep_k a) = Inr r) \<and> (\<exists>r. Recv room (ep_k a) = Inr r) \<and> (\<exists>r. Update (ep_k a) = Inr r)
    \<and> (\<exists>r. flush ft (ep_k a) = Inr r)
    \<and> (length d \<le> mtuLimit + IKCP_OVERHEAD \<longrightarrow> (\<exists>r. Input d pt ack (ep_k a) = Inr r))
    \<and> (p \<in> set (k_out (ep_k b)) \<longrightarrow> (\<exists>k. Input p pt ack (ep_k a) = Inr (0, k)))"
proof (intro conjI impI)
  let ?ma = "nat (cf_mtu ca) - IKCP_OVERHEAD" and ?mb = "nat (cf_mtu cb) - IKCP_OVERHEAD" and ?k = "ep_k a"
  have m: "0 < ?ma" "?ma \<le> mtuLimit" "0 < ?mb" "?mb \<le> mtuLimit"
    and sm: "small ?ma (ep_sent a)" "small ?mb (ep_sent b)"
    using assms by (auto simp: run_ok_def IKCP_OVERHEAD_def mtuLimit_def)
  have A: "ep_ok c ?ma ?mb (ep_sent b) a" and B: "ep_ok c ?mb ?ma (ep_sent a) b"
    using run_net_ok [OF assms] by (simp_all add: net_ok_def)
  have tx: "tx_ok ?ma (all_frames ?ma (ep_sent a)) ?k" and rx: "rx_ok ?mb (ep_sent b) (ep_got a) ?k"
    and c: "k_conv ?k = c"
    using A by (simp_all add: ep_ok_def)
  note l1 = sm(1) [unfolded small_def] and l2 = sm(2) [unfolded small_def]
  have ok: "conn_ok ?k" by (rule conn_okI [OF tx rx])
  show "\<exists>r. Send msg ?k = Inr r" by (rule tx_send_returns [OF tx m(1,2)])
  show "\<exists>r. Recv room ?k = Inr r" using ok by (intro Recv_returns) (simp add: conn_ok_def)
  show "\<exists>r. Update ?k = Inr r" using role_update [OF tx l1 rx] by blast
  show "\<exists>r. flush ft ?k = Inr r" using flush_spec [OF tx_side [OF tx] tx_sendable [OF tx l1], of ft] by blast
  show "\<exists>r. Input d pt ack ?k = Inr r" if "length d \<le> mtuLimit + IKCP_OVERHEAD"
    by (rule Input_returns [OF ok that])
  show "\<exists>k. Input p pt ack ?k = Inr (0, k)" if "p \<in> set (k_out (ep_k b))"
    using role_input [OF tx l1 rx l2 m(3,4), of p pt ack] ep_ok_packets [OF B] that c by blast
qed


theorem kcp_run_never_panics_witness:
  "\<exists>a b. run_ok 7 demo_conf demo_conf (\<lambda>_. 0) (\<lambda>_. 0) (a, b) \<and> ep_sent a = [[1, 2, 3]]
     \<and> (\<exists>r. Update (ep_k a) = Inr r) \<and> (\<exists>r. Input (replicate 30 0) IKCP_PACKET_REGULAR False (ep_k a) = Inr r)"
proof -
  obtain a where a: "run_ok 7 demo_conf demo_conf (\<lambda>_. 0) (\<lambda>_. 0) (a, start 7 demo_conf (\<lambda>_. 0))"
    "ep_sent a = [[1, 2, 3]]" using demo_run by blast
  then show ?thesis
    using kcp_run_never_panics [OF a(1), of "[]" 0 IKCP_FLUSH_FULL "replicate 30 0" IKCP_PACKET_REGULAR False]
    by (auto simp: mtuLimit_def IKCP_OVERHEAD_def)
qed

end
