(* ===== verification/Skip_List.thy ===== *)
theory Skip_List
  imports Prelude
begin

text \<open>
  The skip list of \<open>src/ds/skiplist/skiplist.go\<close>, with its nodes on an explicit heap: \<open>sl_store\<close> maps
  addresses (list indices) to nodes, the header has address 0 and a pointer is an address or
  \<open>None\<close> for \<open>nil\<close>. A node removed from the list stays on the heap unreachable, as under Go's
  garbage collector. \<open>Compare\<close> is the method of the element type, a parameter \<open>cmp\<close>; the random
  source is a stream of the outcomes of \<open>r.Float32() < skipListP\<close>.

  Every loop that follows \<open>next\<close> pointers gets the number of heap cells as its bound, which the
  lemmas show to be enough. The theory shows that the heap always represents a strictly sorted
  list with exact spans, and that the operations act on it as their list counterparts do.
\<close>

section \<open>Data\<close>

definition maxLevel :: nat where
  "maxLevel = 32"

record skiplistLevel =
  lv_next :: "nat option"
  lv_span :: int

record 'a Node =
  n_data :: 'a
  n_level :: "skiplistLevel list"

record 'a SkipList =
  sl_store :: "'a Node list"
  sl_level :: nat
  sl_length :: int
  sl_rand :: "nat \<Rightarrow> bool"
  sl_draws :: nat

type_synonym 'a compare = "'a \<Rightarrow> 'a \<Rightarrow> int"

text \<open>\<open>randomLevel\<close>: \<open>draws\<close> counts the values taken from the random source. The source is asked
  before the level is compared with \<open>maxLevel\<close>.\<close>

function level_loop :: "(nat \<Rightarrow> bool) \<Rightarrow> nat \<Rightarrow> nat \<Rightarrow> nat \<times> nat" where
  "level_loop rnd level draws =
    (if rnd draws \<and> level < maxLevel then level_loop rnd (level + 1) (draws + 1) else (level, draws + 1))"
  by pat_completeness auto
termination
  by (relation "measure (\<lambda>(rnd, level, draws). maxLevel - level)") auto

declare level_loop.simps [simp del]

definition randomLevel :: "(nat \<Rightarrow> bool) \<Rightarrow> nat \<Rightarrow> nat \<times> nat" where
  "randomLevel rnd draws = level_loop rnd 1 draws"

definition NewSkipList :: "'a \<Rightarrow> (nat \<Rightarrow> bool) \<Rightarrow> 'a SkipList" where
  "NewSkipList zero rnd =
    \<lparr>sl_store = [\<lparr>n_data = zero, n_level = replicate maxLevel \<lparr>lv_next = None, lv_span = 0\<rparr>\<rparr>],
     sl_level = 1, sl_length = 0, sl_rand = rnd, sl_draws = 0\<rparr>"

text \<open>Reading and writing \<open>x.level[i]\<close>.\<close>

definition level_at :: "'a Node list \<Rightarrow> nat \<Rightarrow> nat \<Rightarrow> skiplistLevel go" where
  "level_at st x i =
    (if \<not> x < length st then Inl NilDeref
     else if i < length (n_level (st ! x)) then Inr (n_level (st ! x) ! i) else Inl IndexRange)"

definition set_level :: "'a Node list \<Rightarrow> nat \<Rightarrow> nat \<Rightarrow> skiplistLevel \<Rightarrow> 'a Node list" where
  "set_level st x i l = st[x := (st ! x)\<lparr>n_level := (n_level (st ! x))[i := l]\<rparr>]"


section \<open>Searching\<close>

text \<open>The inner loop of all searches: follow level \<open>i\<close> from \<open>x\<close> while there is a next node and the
  condition \<open>go_on\<close> holds of it and of the rank reached there.\<close>

fun walk :: "nat \<Rightarrow> (nat \<Rightarrow> int \<Rightarrow> bool) \<Rightarrow> nat \<Rightarrow> 'a Node list \<Rightarrow> nat \<Rightarrow> int \<Rightarrow> (nat \<times> int) go" where
  "walk 0 go_on i st x rank = Inl NoReturn"
| "walk (Suc fuel) go_on i st x rank =
    go_bind (level_at st x i) (\<lambda>l.
      case lv_next l of
        None \<Rightarrow> Inr (x, rank)
      | Some y \<Rightarrow> if go_on y (rank + lv_span l) then walk fuel go_on i st y (rank + lv_span l) else Inr (x, rank))"

text \<open>The outer loop, from level \<open>n - 1\<close> down to 0. It returns the node and the rank reached and the
  arrays \<open>update\<close> and \<open>rank\<close> as a list of pairs, index 0 first.\<close>

fun search :: "(nat \<Rightarrow> int \<Rightarrow> bool) \<Rightarrow> 'a Node list \<Rightarrow> nat \<Rightarrow> nat \<Rightarrow> int \<Rightarrow> (nat \<times> int) list
    \<Rightarrow> (nat \<times> int \<times> (nat \<times> int) list) go" where
  "search go_on st 0 x rank acc = Inr (x, rank, acc)"
| "search go_on st (Suc i) x rank acc =
    go_bind (walk (length st) go_on i st x rank) (\<lambda>(x', rank').
      search go_on st i x' rank' ((x', rank') # acc))"

definition before :: "'a compare \<Rightarrow> 'a \<Rightarrow> 'a Node list \<Rightarrow> nat \<Rightarrow> int \<Rightarrow> bool" where
  "before cmp data st y rank \<longleftrightarrow> cmp (n_data (st ! y)) data < 0"

abbreviation search_data :: "'a compare \<Rightarrow> 'a \<Rightarrow> 'a SkipList \<Rightarrow> (nat \<times> int \<times> (nat \<times> int) list) go" where
  "search_data cmp data sl \<equiv> search (before cmp data (sl_store sl)) (sl_store sl) (sl_level sl) 0 0 []"


section \<open>Insertion\<close>

text \<open>The loops of \<open>Insert\<close>: raising the level of the list, linking the new node \<open>x\<close> into the levels
  it has, and widening the spans above it.\<close>

definition raise_header :: "int \<Rightarrow> nat \<Rightarrow> 'a Node list \<Rightarrow> 'a Node list go" where
  "raise_header len i st = go_bind (level_at st 0 i) (\<lambda>l. Inr (set_level st 0 i (l\<lparr>lv_span := len\<rparr>)))"

definition link_level :: "nat \<Rightarrow> (nat \<times> int) list \<Rightarrow> nat \<Rightarrow> 'a Node list \<Rightarrow> 'a Node list go" where
  "link_level x upd i st =
    go_bind (level_at st (fst (upd ! i)) i) (\<lambda>l.
    go_bind (level_at st x i) (\<lambda>_.
      let d = snd (upd ! 0) - snd (upd ! i);
          st1 = set_level st x i \<lparr>lv_next = lv_next l, lv_span = lv_span l - d\<rparr>
      in Inr (set_level st1 (fst (upd ! i)) i \<lparr>lv_next = Some x, lv_span = d + 1\<rparr>)))"

definition widen_level :: "(nat \<times> int) list \<Rightarrow> nat \<Rightarrow> 'a Node list \<Rightarrow> 'a Node list go" where
  "widen_level upd i st =
    go_bind (level_at st (fst (upd ! i)) i) (\<lambda>l.
      Inr (set_level st (fst (upd ! i)) i (l\<lparr>lv_span := lv_span l + 1\<rparr>)))"

definition Insert :: "'a compare \<Rightarrow> 'a \<Rightarrow> 'a SkipList \<Rightarrow> (int \<times> 'a SkipList) go" where
  "Insert cmp data sl =
    go_bind (search_data cmp data sl) (\<lambda>(y, r, upd).
      let (level, draws) = randomLevel (sl_rand sl) (sl_draws sl);
          upd' = upd @ replicate (level - sl_level sl) (0, 0);
          level' = max level (sl_level sl)
      in go_bind (go_for (raise_header (sl_length sl)) [sl_level sl ..< level] (sl_store sl)) (\<lambda>st1.
         let x = length st1;
             st2 = st1 @ [\<lparr>n_data = data, n_level = replicate level \<lparr>lv_next = None, lv_span = 0\<rparr>\<rparr>]
         in go_bind (go_for (link_level x upd') [0 ..< level] st2) (\<lambda>st3.
            go_bind (go_for (widen_level upd') [level ..< sl_level sl] st3) (\<lambda>st4.
              Inr (snd (upd' ! 0) + 1,
                   sl\<lparr>sl_store := st4, sl_level := level', sl_length := sl_length sl + 1, sl_draws := draws\<rparr>)))))"


section \<open>Removal\<close>

definition unlink_level :: "nat \<Rightarrow> (nat \<times> int) list \<Rightarrow> nat \<Rightarrow> 'a Node list \<Rightarrow> 'a Node list go" where
  "unlink_level x upd i st =
    go_bind (level_at st (fst (upd ! i)) i) (\<lambda>l.
      if lv_next l = Some x
      then go_bind (level_at st x i) (\<lambda>lx.
             Inr (set_level st (fst (upd ! i)) i \<lparr>lv_next = lv_next lx, lv_span = lv_span l + (lv_span lx - 1)\<rparr>))
      else Inr (set_level st (fst (upd ! i)) i (l\<lparr>lv_span := lv_span l - 1\<rparr>)))"

text \<open>\<open>for sl.level > 1 && sl.header.level[sl.level-1].next == nil\<close>.\<close>

fun lower :: "'a Node list \<Rightarrow> nat \<Rightarrow> nat go" where
  "lower st 0 = Inr 0"
| "lower st (Suc l) =
    (if 0 < l then go_bind (level_at st 0 l) (\<lambda>lv. if lv_next lv = None then lower st l else Inr (Suc l))
     else Inr (Suc l))"

definition delete_node :: "nat \<Rightarrow> (nat \<times> int) list \<Rightarrow> 'a SkipList \<Rightarrow> 'a SkipList go" where
  "delete_node x upd sl =
    go_bind (go_for (unlink_level x upd) [0 ..< sl_level sl] (sl_store sl)) (\<lambda>st.
    go_bind (lower st (sl_level sl)) (\<lambda>level.
      Inr (sl\<lparr>sl_store := st, sl_level := level, sl_length := sl_length sl - 1\<rparr>)))"

definition Remove :: "'a compare \<Rightarrow> 'a \<Rightarrow> 'a SkipList \<Rightarrow> (bool \<times> 'a SkipList) go" where
  "Remove cmp data sl =
    go_bind (search_data cmp data sl) (\<lambda>(y, r, upd).
    go_bind (level_at (sl_store sl) y 0) (\<lambda>l.
      case lv_next l of
        None \<Rightarrow> Inr (False, sl)
      | Some x \<Rightarrow>
          if cmp (n_data (sl_store sl ! x)) data = 0
          then go_bind (delete_node x upd sl) (\<lambda>sl'. Inr (True, sl'))
          else Inr (False, sl)))"


section \<open>Queries and updates\<close>

definition Contains :: "'a compare \<Rightarrow> 'a \<Rightarrow> 'a SkipList \<Rightarrow> bool go" where
  "Contains cmp data sl =
    go_bind (search_data cmp data sl) (\<lambda>(y, r, upd).
    go_bind (level_at (sl_store sl) y 0) (\<lambda>l.
      Inr (case lv_next l of None \<Rightarrow> False | Some x \<Rightarrow> cmp (n_data (sl_store sl ! x)) data = 0)))"

text \<open>\<open>Update\<close> dereferences the node found without a check: it panics when there is none.\<close>

definition SkipList_Update :: "'a compare \<Rightarrow> 'a \<Rightarrow> 'a \<Rightarrow> 'a SkipList \<Rightarrow> (int \<times> 'a SkipList) go" where
  "SkipList_Update cmp old data sl =
    go_bind (search_data cmp old sl) (\<lambda>(prev, r, upd).
    go_bind (level_at (sl_store sl) prev 0) (\<lambda>l.
      let in_place = (\<lambda>x. go_bind (level_at (sl_store sl) x 0) (\<lambda>lx.
            Inr (case lv_next lx of None \<Rightarrow> True | Some z \<Rightarrow> cmp (n_data (sl_store sl ! z)) data > 0)))
      in if prev = 0 \<or> cmp (n_data (sl_store sl ! prev)) data < 0
         then (case lv_next l of
                 None \<Rightarrow> Inl NilDeref
               | Some x \<Rightarrow>
                   go_bind (in_place x) (\<lambda>same.
                     if same
                     then Inr (0, sl\<lparr>sl_store := (sl_store sl)[x := (sl_store sl ! x)\<lparr>n_data := data\<rparr>]\<rparr>)
                     else go_bind (delete_node x upd sl) (Insert cmp data)))
         else (case lv_next l of
                 None \<Rightarrow> Inl NilDeref
               | Some x \<Rightarrow> go_bind (delete_node x upd sl) (Insert cmp data))))"

definition SkipList_GetRank :: "'a compare \<Rightarrow> 'a \<Rightarrow> 'a SkipList \<Rightarrow> int go" where
  "SkipList_GetRank cmp data sl =
    go_bind (search_data cmp data sl) (\<lambda>(y, rank, upd).
    go_bind (level_at (sl_store sl) y 0) (\<lambda>l.
      Inr (case lv_next l of
             None \<Rightarrow> -1
           | Some x \<Rightarrow> if cmp (n_data (sl_store sl ! x)) data = 0 then rank + 1 else -1)))"

fun getNode_loop :: "int \<Rightarrow> 'a Node list \<Rightarrow> nat \<Rightarrow> nat \<Rightarrow> int \<Rightarrow> nat option go" where
  "getNode_loop rank st 0 x visited = Inr None"
| "getNode_loop rank st (Suc i) x visited =
    go_bind (walk (length st) (\<lambda>y v. v \<le> rank) i st x visited) (\<lambda>(x', visited').
      if visited' = rank then Inr (Some x') else getNode_loop rank st i x' visited')"

definition getNodeByRank :: "int \<Rightarrow> 'a SkipList \<Rightarrow> nat option go" where
  "getNodeByRank rank sl = getNode_loop rank (sl_store sl) (sl_level sl) 0 0"

definition SearchByRank :: "'a \<Rightarrow> int \<Rightarrow> 'a SkipList \<Rightarrow> ('a \<times> bool) go" where
  "SearchByRank zero rank sl =
    go_bind (getNodeByRank rank sl) (\<lambda>node.
      Inr (case node of Some x \<Rightarrow> (n_data (sl_store sl ! x), True) | None \<Rightarrow> (zero, False)))"

fun collect :: "nat \<Rightarrow> 'a Node list \<Rightarrow> int \<Rightarrow> int \<Rightarrow> nat option \<Rightarrow> 'a list \<Rightarrow> 'a list go" where
  "collect 0 st mn mx x res = Inl NoReturn"
| "collect (Suc fuel) st mn mx x res =
    (case x of
       Some y \<Rightarrow>
         if mn \<le> mx
         then go_bind (level_at st y 0) (\<lambda>l. collect fuel st (mn + 1) mx (lv_next l) (res @ [n_data (st ! y)]))
         else Inr res
     | None \<Rightarrow> Inr res)"

text \<open>\<open>None\<close> is the \<open>nil\<close> result.\<close>

definition SearchByRankRange :: "int \<Rightarrow> int \<Rightarrow> 'a SkipList \<Rightarrow> 'a list option go" where
  "SearchByRankRange mn mx sl =
    go_bind (getNodeByRank mn sl) (\<lambda>st.
      case st of
        None \<Rightarrow> Inr None
      | Some x \<Rightarrow> go_bind (collect (Suc (length (sl_store sl))) (sl_store sl) mn mx (Some x) []) (\<lambda>res. Inr (Some res)))"

text \<open>\<open>Foreach\<close> with a callback that gets the element, its rank and the caller's state.\<close>

fun foreach_loop :: "nat \<Rightarrow> ('a \<Rightarrow> int \<Rightarrow> 's \<Rightarrow> 's \<times> bool) \<Rightarrow> 'a Node list \<Rightarrow> nat option \<Rightarrow> int \<Rightarrow> 's \<Rightarrow> 's go" where
  "foreach_loop 0 f st x rank s = Inl NoReturn"
| "foreach_loop (Suc fuel) f st x rank s =
    (case x of
       None \<Rightarrow> Inr s
     | Some y \<Rightarrow>
         let (s', c) = f (n_data (st ! y)) rank s
         in if c then go_bind (level_at st y 0) (\<lambda>l. foreach_loop fuel f st (lv_next l) (rank + 1) s')
            else Inr s')"

definition SkipList_Foreach :: "('a \<Rightarrow> int \<Rightarrow> 's \<Rightarrow> 's \<times> bool) \<Rightarrow> 'a SkipList \<Rightarrow> 's \<Rightarrow> 's go" where
  "SkipList_Foreach f sl s =
    go_bind (level_at (sl_store sl) 0 0) (\<lambda>l.
      foreach_loop (Suc (length (sl_store sl))) f (sl_store sl) (lv_next l) 1 s)"

definition clear_level :: "nat \<Rightarrow> 'a Node list \<Rightarrow> 'a Node list go" where
  "clear_level i st = go_bind (level_at st 0 i) (\<lambda>_. Inr (set_level st 0 i \<lparr>lv_next = None, lv_span = 0\<rparr>))"

definition SkipList_Clear :: "'a SkipList \<Rightarrow> 'a SkipList go" where
  "SkipList_Clear sl =
    go_bind (go_for clear_level [0 ..< maxLevel] (sl_store sl)) (\<lambda>st.
      Inr (sl\<lparr>sl_store := st, sl_level := 1, sl_length := 0\<rparr>))"

definition SkipList_Len :: "'a SkipList \<Rightarrow> int" where
  "SkipList_Len sl = sl_length sl"


section \<open>The heap invariant\<close>

abbreviation ht :: "'a Node list \<Rightarrow> nat \<Rightarrow> nat" where
  "ht st a \<equiv> length (n_level (st ! a))"

abbreviation lv :: "'a Node list \<Rightarrow> nat \<Rightarrow> nat \<Rightarrow> skiplistLevel" where
  "lv st a i \<equiv> n_level (st ! a) ! i"

text \<open>The level-\<open>i\<close> entry of a node that is followed by the given nodes: the next node that is at
  least \<open>i + 1\<close> levels high and the distance to it, or to the end.\<close>

fun next_from :: "(nat \<Rightarrow> nat) \<Rightarrow> nat \<Rightarrow> nat list \<Rightarrow> skiplistLevel" where
  "next_from h i [] = \<lparr>lv_next = None, lv_span = 0\<rparr>"
| "next_from h i (a # as) =
    (if i < h a then \<lparr>lv_next = Some a, lv_span = 1\<rparr>
     else (next_from h i as)\<lparr>lv_span := lv_span (next_from h i as) + 1\<rparr>)"

definition links :: "'a Node list \<Rightarrow> nat \<Rightarrow> nat list \<Rightarrow> bool" where
  "links st L P \<longleftrightarrow> (\<forall>p a w. P = p @ a # w \<longrightarrow> (\<forall>i < min L (ht st a). lv st a i = next_from (ht st) i w))"

definition chain :: "'a Node list \<Rightarrow> nat \<Rightarrow> nat list \<Rightarrow> bool" where
  "chain st L xs \<longleftrightarrow> distinct (0 # xs) \<and> (\<forall>a \<in> set (0 # xs). a < length st) \<and> ht st 0 = maxLevel
     \<and> (\<forall>a \<in> set xs. 1 \<le> ht st a \<and> ht st a \<le> L) \<and> 1 \<le> L \<and> L \<le> maxLevel \<and> links st L (0 # xs)
     \<and> (\<forall>i. L \<le> i \<and> i < maxLevel \<longrightarrow> lv_next (lv st 0 i) = None)"

text \<open>\<open>sl\<close> represents the strictly sorted list \<open>ds\<close>.\<close>

definition sl_rel :: "'a compare \<Rightarrow> 'a SkipList \<Rightarrow> 'a list \<Rightarrow> bool" where
  "sl_rel cmp sl ds \<longleftrightarrow> (\<exists>xs. chain (sl_store sl) (sl_level sl) xs \<and> ds = map (\<lambda>a. n_data (sl_store sl ! a)) xs
     \<and> sorted_wrt (\<lambda>x y. cmp x y < 0) ds \<and> sl_length sl = int (length xs))"

text \<open>What the element type's \<open>Compare\<close> must satisfy: the sign of a total preorder.\<close>

definition compare_ok :: "'a compare \<Rightarrow> bool" where
  "compare_ok cmp \<longleftrightarrow> (\<forall>x y. sgn (cmp y x) = - sgn (cmp x y))
     \<and> (\<forall>x y z. cmp x y \<le> 0 \<longrightarrow> cmp y z \<le> 0 \<longrightarrow> cmp x z \<le> 0)"


section \<open>Lists of nodes\<close>

lemma split_mid:
  "P @ b # zs = p @ a # w \<Longrightarrow>
     (\<exists>v. P = p @ a # v \<and> w = v @ b # zs) \<or> (p = P \<and> a = b \<and> w = zs) \<or> (\<exists>v. zs = v @ a # w \<and> p = P @ b # v)"
proof (induction P arbitrary: p)
  case Nil
  then show ?case by (cases p) auto
next
  case (Cons x P)
  then show ?case by (cases p) auto
qed

lemma split_two: "P @ zs = p @ a # w \<Longrightarrow> (\<exists>v. P = p @ a # v \<and> w = v @ zs) \<or> (\<exists>v. zs = v @ a # w \<and> p = P @ v)"
proof (induction P arbitrary: p)
  case (Cons x P)
  then show ?case by (cases p) auto
qed simp

lemma split_unique:
  assumes "distinct P" and "P = p @ a # w" and "P = p' @ a # w'"
  shows "p = p' \<and> w = w'"
proof -
  have "a \<notin> set p" "a \<notin> set w" using assms(1,2) by auto
  then show ?thesis using assms(2,3) append_Cons_eq_iff [of a p w p' w'] by simp
qed

lemma next_from_skip:
  "\<forall>a \<in> set v. h a \<le> i \<Longrightarrow>
     next_from h i (v @ w) = (next_from h i w)\<lparr>lv_span := int (length v) + lv_span (next_from h i w)\<rparr>"
  by (induction v) auto

lemma next_from_hit:
  "\<forall>a \<in> set v. h a \<le> i \<Longrightarrow> i < h y \<Longrightarrow> next_from h i (v @ y # w) = \<lparr>lv_next = Some y, lv_span = int (length v) + 1\<rparr>"
  by (simp add: next_from_skip)

lemma next_from_none: "\<forall>a \<in> set w. h a \<le> i \<Longrightarrow> next_from h i w = \<lparr>lv_next = None, lv_span = int (length w)\<rparr>"
  using next_from_skip [of w h i "[]"] by simp

lemma next_from_cases:
  obtains "\<forall>a \<in> set w. h a \<le> i" "next_from h i w = \<lparr>lv_next = None, lv_span = int (length w)\<rparr>"
  | v y w' where "w = v @ y # w'" "\<forall>a \<in> set v. h a \<le> i" "i < h y"
      "next_from h i w = \<lparr>lv_next = Some y, lv_span = int (length v) + 1\<rparr>"
proof (cases "\<forall>a \<in> set w. h a \<le> i")
  case True
  then show ?thesis using that(1) next_from_none by blast
next
  case False
  then have "\<exists>a \<in> set w. i < h a" by (auto simp: not_le)
  then obtain v y w' where "w = v @ y # w'" "i < h y" "\<forall>a \<in> set v. \<not> i < h a"
    using split_list_first_prop [of w "\<lambda>c. i < h c"] by blast
  then show ?thesis using that(2) next_from_hit by (metis not_less)
qed

lemma next_from_indep:
  assumes "c \<in> set w" and "i < h c"
  shows "next_from h i (w @ z) = next_from h i w"
proof -
  obtain v y w' where w: "w = v @ y # w'" "i < h y" "\<forall>a \<in> set v. h a \<le> i"
    using split_list_first_prop [of w "\<lambda>c. i < h c"] assms by (auto simp: not_less)
  then show ?thesis by (simp add: next_from_hit)
qed

lemma next_from_cong: "\<forall>a \<in> set w. h a = h' a \<Longrightarrow> next_from h i w = next_from h' i w"
  by (induction w) auto

lemma links_tail: "links st L (p @ w) \<Longrightarrow> links st L w"
  unfolding links_def by (metis append.assoc)

lemma links_at: "links st L (p @ a # w) \<Longrightarrow> i < L \<Longrightarrow> i < ht st a \<Longrightarrow> lv st a i = next_from (ht st) i w"
  unfolding links_def by simp

lemma links_in:
  assumes "links st L (P @ zs)" and "P = p @ a # v" and "i < L" and "i < ht st a"
  shows "lv st a i = next_from (ht st) i (v @ zs)"
  using links_at [of st L p a "v @ zs" i] assms by simp


section \<open>Searching\<close>

lemma level_at_eq: "x < length st \<Longrightarrow> i < ht st x \<Longrightarrow> level_at st x i = Inr (lv st x i)"
  by (simp add: level_at_def)

lemma walk_spec:
  assumes "links st L (x # u @ zs)" and "\<forall>a \<in> set (x # u @ zs). a < length st" and "i < L" and "i < ht st x"
    and "\<forall>v y w. u @ zs = v @ y # w \<longrightarrow> go_on y (r + int (length v) + 1) = (length v < length u)"
    and "length u < fuel"
  shows "\<exists>p y w. x # u = p @ y # w \<and> walk fuel go_on i st x r = Inr (y, r + int (length p)) \<and> i < ht st y
    \<and> (\<forall>a \<in> set w. ht st a \<le> i)"
  using assms
proof (induction fuel arbitrary: x u r)
  case (Suc fuel)
  have l: "level_at st x i = Inr (next_from (ht st) i (u @ zs))"
    using Suc.prems links_at [of st L "[]" x "u @ zs"] by (simp add: level_at_eq)
  show ?case
  proof (cases rule: next_from_cases [of "u @ zs" "ht st" i])
    case 1
    then show ?thesis using l Suc.prems(4) by (intro exI [of _ "[]"] exI [of _ x] exI [of _ u]) simp
  next
    case (2 v y w')
    have g: "go_on y (r + (int (length v) + 1)) = (length v < length u)"
      using Suc.prems(5) 2(1) by (simp add: add.assoc)
    show ?thesis
    proof (cases "length v < length u")
      case False
      then have "set u \<subseteq> set v" using 2(1) by (metis append_eq_append_conv_if not_le_imp_less set_take_subset)
      then have "\<forall>a \<in> set u. ht st a \<le> i" using 2(2) by auto
      then show ?thesis using l 2 g False Suc.prems(4)
        by (intro exI [of _ "[]"] exI [of _ x] exI [of _ u]) simp
    next
      case True
      from split_two [OF 2(1)] obtain u' where u: "u = v @ y # u'" "w' = u' @ zs"
        using True by auto
      have "links st L (y # u' @ zs)" using links_tail [of st L "x # v" "y # u' @ zs"] Suc.prems(1) u by simp
      moreover have "\<forall>v2 y2 w2. u' @ zs = v2 @ y2 # w2 \<longrightarrow>
          go_on y2 (r + int (length v) + 1 + int (length v2) + 1) = (length v2 < length u')"
      proof (intro allI impI)
        fix v2 y2 w2 assume "u' @ zs = v2 @ y2 # w2"
        then have "u @ zs = (v @ y # v2) @ y2 # w2" using u by simp
        with Suc.prems(5) have "go_on y2 (r + int (length (v @ y # v2)) + 1) = (length (v @ y # v2) < length u)" by blast
        then show "go_on y2 (r + int (length v) + 1 + int (length v2) + 1) = (length v2 < length u')"
          using u by (simp add: algebra_simps)
      qed
      ultimately obtain p z w where "y # u' = p @ z # w"
          "walk fuel go_on i st y (r + int (length v) + 1) = Inr (z, r + int (length v) + 1 + int (length p))"
          "i < ht st z" "\<forall>a \<in> set w. ht st a \<le> i"
        using Suc.IH [of y u' "r + int (length v) + 1"] Suc.prems(2,3,6) 2(3) u by auto
      then show ?thesis using l 2 g True u
        by (intro exI [of _ "x # v @ p"] exI [of _ z] exI [of _ w]) (simp add: add_ac)
    qed
  qed
qed simp

text \<open>What the arrays \<open>update\<close> and \<open>rank\<close> hold at index \<open>i\<close>: the last node of the given prefix that is
  higher than \<open>i\<close>, and its position.\<close>

definition pred_at :: "(nat \<Rightarrow> nat) \<Rightarrow> nat list \<Rightarrow> nat \<Rightarrow> nat \<times> int \<Rightarrow> bool" where
  "pred_at h P i ur \<longleftrightarrow> (\<exists>p w. P = p @ fst ur # w \<and> snd ur = int (length p) \<and> i < h (fst ur) \<and> (\<forall>a \<in> set w. h a \<le> i))"

lemma walk_chain:
  assumes ch: "chain st L (ys @ zs)" and i: "i < L" "i < ht st x" and px: "0 # ys = p @ x # u"
    and go: "\<forall>v y w. ys @ zs = v @ y # w \<longrightarrow> go_on y (int (length v) + 1) = (length v < length ys)"
  obtains q y w where "0 # ys = q @ y # w" and "walk (length st) go_on i st x (int (length p)) = Inr (y, int (length q))"
    and "i < ht st y" and "\<forall>a \<in> set w. ht st a \<le> i"
proof -
  have sp: "0 # ys @ zs = p @ x # u @ zs" using px by (metis append_Cons append_assoc)
  have lk: "links st L (x # u @ zs)" using ch links_tail [of st L p] sp by (simp add: chain_def)
  have "set (0 # ys @ zs) = set (p @ x # u @ zs)" unfolding sp ..
  then have st: "\<forall>a \<in> set (x # u @ zs). a < length st" using ch by (auto simp: chain_def)
  have "distinct (0 # ys @ zs)" using ch by (simp add: chain_def)
  then have "card (set (0 # ys @ zs)) = length (0 # ys @ zs)" by (rule distinct_card)
  moreover have "set (0 # ys @ zs) \<subseteq> {..<length st}" using ch by (auto simp: chain_def)
  then have "card (set (0 # ys @ zs)) \<le> length st" by (metis card_lessThan card_mono finite_lessThan)
  ultimately have fuel: "length u < length st" using arg_cong [OF sp, of length] by simp
  have g: "\<forall>v y w. u @ zs = v @ y # w \<longrightarrow> go_on y (int (length p) + int (length v) + 1) = (length v < length u)"
  proof (intro allI impI)
    fix v y w assume uz: "u @ zs = v @ y # w"
    have "0 # ys @ zs = (p @ x # v) @ y # w" using sp uz by simp
    then obtain v' where v': "p @ x # v = 0 # v'" "ys @ zs = v' @ y # w" by (cases "p @ x # v") auto
    then have "go_on y (int (length v') + 1) = (length v' < length ys)" using go by blast
    moreover have "length v' = length p + length v" using arg_cong [OF v'(1), of length] by simp
    moreover have "length ys = length p + length u" using arg_cong [OF px, of length] by simp
    ultimately show "go_on y (int (length p) + int (length v) + 1) = (length v < length u)" by simp
  qed
  obtain q y w where w: "x # u = q @ y # w"
      "walk (length st) go_on i st x (int (length p)) = Inr (y, int (length p) + int (length q))" "i < ht st y"
      "\<forall>a \<in> set w. ht st a \<le> i"
    using walk_spec [OF lk st i g fuel] by blast
  have "0 # ys = (p @ q) @ y # w" using px w(1) by simp
  from that [OF this _ w(3,4)] w(2) show ?thesis by simp
qed

lemma search_spec:
  assumes ch: "chain st L (ys @ zs)" and "n \<le> L" and "0 # ys = p @ x # u" and "n \<le> ht st x"
    and go: "\<forall>v y w. ys @ zs = v @ y # w \<longrightarrow> go_on y (int (length v) + 1) = (length v < length ys)"
  shows "\<exists>upd y r. search go_on st n x (int (length p)) acc = Inr (y, r, upd @ acc) \<and> length upd = n
    \<and> (\<forall>i < n. pred_at (ht st) (0 # ys) i (upd ! i)) \<and> (0 < n \<longrightarrow> (y, r) = upd ! 0)"
  using assms(2-4)
proof (induction n arbitrary: x p u acc)
  case (Suc n)
  have "n < L" "n < ht st x" using Suc.prems by simp_all
  then obtain q y w where w: "0 # ys = q @ y # w" "walk (length st) go_on n st x (int (length p)) = Inr (y, int (length q))"
      "n < ht st y" "\<forall>a \<in> set w. ht st a \<le> n"
    by (rule walk_chain [OF ch _ _ Suc.prems(2) go])
  obtain upd z r where IH: "search go_on st n y (int (length q)) ((y, int (length q)) # acc)
        = Inr (z, r, upd @ (y, int (length q)) # acc)" "length upd = n"
      "\<forall>i < n. pred_at (ht st) (0 # ys) i (upd ! i)" "0 < n \<longrightarrow> (z, r) = upd ! 0"
    using Suc.IH [OF _ w(1), of "(y, int (length q)) # acc"] Suc.prems(1) w(3) by auto
  have "pred_at (ht st) (0 # ys) n (y, int (length q))"
    unfolding pred_at_def using w(1,3,4) by (intro exI [of _ q] exI [of _ w]) simp
  moreover have "n = 0 \<Longrightarrow> (z, r) = (y, int (length q))" using IH(1) by simp
  ultimately show ?case
    using w(2) IH
    by (intro exI [of _ "upd @ [(y, int (length q))]"] exI [of _ z] exI [of _ r]) (auto simp: nth_append less_Suc_eq)
qed simp


section \<open>Mutation\<close>

definition same_shape :: "'a Node list \<Rightarrow> 'a Node list \<Rightarrow> bool" where
  "same_shape st st' \<longleftrightarrow> length st' = length st \<and> (\<forall>a. ht st' a = ht st a) \<and> (\<forall>a. n_data (st' ! a) = n_data (st ! a))"

lemma same_shape_refl [simp]: "same_shape st st"
  by (simp add: same_shape_def)

lemma same_shape_trans: "same_shape a b \<Longrightarrow> same_shape b c \<Longrightarrow> same_shape a c"
  by (simp add: same_shape_def)

lemma set_level_shape [simp]: "x < length st \<Longrightarrow> same_shape st (set_level st x i l)"
  by (auto simp: same_shape_def set_level_def nth_list_update)

lemma set_level_lv:
  "x < length st \<Longrightarrow> i < ht st x \<Longrightarrow> lv (set_level st x i l) a j = (if a = x \<and> j = i then l else lv st a j)"
  by (auto simp: set_level_def nth_list_update)

lemma same_shape_ht: "same_shape st st' \<Longrightarrow> ht st' a = ht st a"
  by (simp add: same_shape_def)

text \<open>A loop whose round \<open>i\<close> rewrites level-\<open>i\<close> entries only: \<open>g\<close> says what they become.\<close>

lemma level_rounds:
  assumes "\<And>i st'. m \<le> i \<Longrightarrow> i < n \<Longrightarrow> same_shape st st' \<Longrightarrow> \<forall>a. lv st' a i = lv st a i \<Longrightarrow>
      \<exists>st''. f i st' = Inr st'' \<and> same_shape st st'' \<and> (\<forall>a j. lv st'' a j = (if j = i then g a i else lv st' a j))"
  shows "\<exists>st'. go_for f [m ..< n] st = Inr st' \<and> same_shape st st'
    \<and> (\<forall>a j. lv st' a j = (if m \<le> j \<and> j < n then g a j else lv st a j))"
  using assms
proof (induction n)
  case (Suc n)
  show ?case
  proof (cases "m \<le> n")
    case True
    obtain st1 where 1: "go_for f [m ..< n] st = Inr st1" "same_shape st st1"
        "\<forall>a j. lv st1 a j = (if m \<le> j \<and> j < n then g a j else lv st a j)"
      using Suc.IH Suc.prems less_SucI by blast
    have "\<forall>a. lv st1 a n = lv st a n" using 1(3) by simp
    from Suc.prems [OF True lessI 1(2) this] obtain st2 where 2: "f n st1 = Inr st2" "same_shape st st2"
        "\<forall>a j. lv st2 a j = (if j = n then g a n else lv st1 a j)" by blast
    have "go_for f [m ..< Suc n] st = Inr st2" using True 1(1) 2(1) by (simp add: go_for_append)
    moreover have "\<forall>a j. lv st2 a j = (if m \<le> j \<and> j < Suc n then g a j else lv st a j)"
      using 1(3) 2(3) True by (auto simp: less_Suc_eq)
    ultimately show ?thesis using 2(2) by blast
  qed auto
qed simp

lemma pred_at_mem: "pred_at h P i ur \<Longrightarrow> fst ur \<in> set P \<and> i < h (fst ur)"
  by (auto simp: pred_at_def)

lemma raise_rounds:
  assumes "0 < length st" and "n \<le> ht st 0"
  shows "\<exists>st'. go_for (raise_header len) [m ..< n] st = Inr st' \<and> same_shape st st'
    \<and> (\<forall>a j. lv st' a j = (if m \<le> j \<and> j < n then if a = 0 then (lv st a j)\<lparr>lv_span := len\<rparr> else lv st a j else lv st a j))"
proof (rule level_rounds)
  fix i st' assume i: "m \<le> i" "i < n" and sh: "same_shape st st'" and l: "\<forall>a. lv st' a i = lv st a i"
  have "0 < length st'" "i < ht st' 0" using assms i sh by (simp_all add: same_shape_def)
  then show "\<exists>st''. raise_header len i st' = Inr st'' \<and> same_shape st st''
      \<and> (\<forall>a j. lv st'' a j = (if j = i then if a = 0 then (lv st a i)\<lparr>lv_span := len\<rparr> else lv st a i else lv st' a j))"
    using l same_shape_trans [OF sh set_level_shape]
    by (simp add: raise_header_def level_at_eq set_level_lv)
qed

lemma link_rounds:
  assumes upd: "\<forall>i < n. fst (upd ! i) < length st \<and> i < ht st (fst (upd ! i)) \<and> fst (upd ! i) \<noteq> x"
    and x: "x < length st" "n \<le> ht st x"
  shows "\<exists>st'. go_for (link_level x upd) [0 ..< n] st = Inr st' \<and> same_shape st st'
    \<and> (\<forall>a j. lv st' a j = (if 0 \<le> j \<and> j < n
         then if a = x then \<lparr>lv_next = lv_next (lv st (fst (upd ! j)) j),
                             lv_span = lv_span (lv st (fst (upd ! j)) j) - (snd (upd ! 0) - snd (upd ! j))\<rparr>
              else if a = fst (upd ! j) then \<lparr>lv_next = Some x, lv_span = snd (upd ! 0) - snd (upd ! j) + 1\<rparr>
              else lv st a j
         else lv st a j))"
proof (rule level_rounds)
  fix i st' assume i: "0 \<le> i" "i < n" and sh: "same_shape st st'" and l: "\<forall>a. lv st' a i = lv st a i"
  let ?u = "fst (upd ! i)" and ?d = "snd (upd ! 0) - snd (upd ! i)"
  have u: "?u < length st'" "i < ht st' ?u" "?u \<noteq> x" "x < length st'" "i < ht st' x"
    using upd x i(2) sh by (auto simp: same_shape_def)
  let ?s1 = "set_level st' x i \<lparr>lv_next = lv_next (lv st' ?u i), lv_span = lv_span (lv st' ?u i) - ?d\<rparr>"
  have s1: "same_shape st' ?s1" using u(4) by simp
  then have u1: "?u < length ?s1" "i < ht ?s1 ?u" using u by (simp_all add: same_shape_def)
  have "link_level x upd i st' = Inr (set_level ?s1 ?u i \<lparr>lv_next = Some x, lv_span = ?d + 1\<rparr>)"
    using u by (simp add: link_level_def level_at_eq Let_def)
  moreover have "same_shape st (set_level ?s1 ?u i \<lparr>lv_next = Some x, lv_span = ?d + 1\<rparr>)"
    using same_shape_trans [OF same_shape_trans [OF sh s1] set_level_shape [OF u1(1)]] .
  ultimately show "\<exists>st''. link_level x upd i st' = Inr st'' \<and> same_shape st st''
      \<and> (\<forall>a j. lv st'' a j = (if j = i
         then if a = x then \<lparr>lv_next = lv_next (lv st (fst (upd ! i)) i),
                             lv_span = lv_span (lv st (fst (upd ! i)) i) - (snd (upd ! 0) - snd (upd ! i))\<rparr>
              else if a = fst (upd ! i) then \<lparr>lv_next = Some x, lv_span = snd (upd ! 0) - snd (upd ! i) + 1\<rparr>
              else lv st a i
         else lv st' a j))"
    using u u1 l by (auto simp: set_level_lv)
qed

lemma widen_rounds:
  assumes upd: "\<forall>i < n. fst (upd ! i) < length st \<and> i < ht st (fst (upd ! i))"
  shows "\<exists>st'. go_for (widen_level upd) [m ..< n] st = Inr st' \<and> same_shape st st'
    \<and> (\<forall>a j. lv st' a j = (if m \<le> j \<and> j < n
         then if a = fst (upd ! j) then (lv st a j)\<lparr>lv_span := lv_span (lv st a j) + 1\<rparr> else lv st a j
         else lv st a j))"
proof (rule level_rounds)
  fix i st' assume i: "m \<le> i" "i < n" and sh: "same_shape st st'" and l: "\<forall>a. lv st' a i = lv st a i"
  have "fst (upd ! i) < length st'" "i < ht st' (fst (upd ! i))" using upd i sh by (simp_all add: same_shape_def)
  then show "\<exists>st''. widen_level upd i st' = Inr st'' \<and> same_shape st st'' \<and> (\<forall>a j. lv st'' a j = (if j = i
         then if a = fst (upd ! i) then (lv st a i)\<lparr>lv_span := lv_span (lv st a i) + 1\<rparr> else lv st a i
         else lv st' a j))"
    using l same_shape_trans [OF sh set_level_shape]
    by (simp add: widen_level_def level_at_eq set_level_lv)
qed

lemma unlink_rounds:
  assumes upd: "\<forall>i < n. fst (upd ! i) < length st \<and> i < ht st (fst (upd ! i))" and x: "x < length st"
    and nx: "\<forall>i < n. lv_next (lv st (fst (upd ! i)) i) = Some x \<longrightarrow> i < ht st x"
  shows "\<exists>st'. go_for (unlink_level x upd) [0 ..< n] st = Inr st' \<and> same_shape st st'
    \<and> (\<forall>a j. lv st' a j = (if 0 \<le> j \<and> j < n
         then if a = fst (upd ! j)
              then if lv_next (lv st a j) = Some x
                   then \<lparr>lv_next = lv_next (lv st x j), lv_span = lv_span (lv st a j) + (lv_span (lv st x j) - 1)\<rparr>
                   else (lv st a j)\<lparr>lv_span := lv_span (lv st a j) - 1\<rparr>
              else lv st a j
         else lv st a j))"
proof (rule level_rounds)
  fix i st' assume i: "0 \<le> i" "i < n" and sh: "same_shape st st'" and l: "\<forall>a. lv st' a i = lv st a i"
  have u: "fst (upd ! i) < length st'" "i < ht st' (fst (upd ! i))" "x < length st'"
    and nx': "lv_next (lv st' (fst (upd ! i)) i) = Some x \<Longrightarrow> i < ht st' x"
    using upd nx x i sh l by (simp_all add: same_shape_def)
  then show "\<exists>st''. unlink_level x upd i st' = Inr st'' \<and> same_shape st st'' \<and> (\<forall>a j. lv st'' a j = (if j = i
         then if a = fst (upd ! i)
              then if lv_next (lv st a i) = Some x
                   then \<lparr>lv_next = lv_next (lv st x i), lv_span = lv_span (lv st a i) + (lv_span (lv st x i) - 1)\<rparr>
                   else (lv st a i)\<lparr>lv_span := lv_span (lv st a i) - 1\<rparr>
              else lv st a i
         else lv st' a j))"
    using l same_shape_trans [OF sh set_level_shape]
    by (cases "lv_next (lv st' (fst (upd ! i)) i) = Some x")
      (simp_all add: unlink_level_def level_at_eq set_level_lv)
qed


section \<open>Insertion and removal in the chain\<close>

lemma pred_at_split:
  assumes "distinct P" and "pred_at h P i ur" and "P = p @ a # w" and "i < h a"
  shows "a = fst ur \<Longrightarrow> (\<forall>c \<in> set w. h c \<le> i) \<and> snd ur = int (length p)"
    and "a \<noteq> fst ur \<Longrightarrow> \<exists>c \<in> set w. i < h c"
proof -
  obtain p' w' where u: "P = p' @ fst ur # w'" "snd ur = int (length p')" "i < h (fst ur)" "\<forall>c \<in> set w'. h c \<le> i"
    using assms(2) by (auto simp: pred_at_def)
  show "(\<forall>c \<in> set w. h c \<le> i) \<and> snd ur = int (length p)" if "a = fst ur"
    using split_unique [OF assms(1,3), of p' w'] u that by simp
  show "\<exists>c \<in> set w. i < h c" if "a \<noteq> fst ur"
  proof -
    have "a \<in> set p'"
    proof (rule ccontr)
      assume "a \<notin> set p'"
      moreover have "a \<in> set P" using assms(3) by simp
      ultimately have "a \<in> set w'" using u(1) that by simp
      with u(4) assms(4) show False by fastforce
    qed
    then obtain q v where "p' = q @ a # v" by (auto dest: split_list)
    then have "P = q @ a # (v @ fst ur # w')" using u(1) by simp
    with split_unique [OF assms(1,3) this] u(3) show ?thesis by auto
  qed
qed

lemma chainD:
  assumes "chain st L xs"
  shows "distinct (0 # xs)" "\<forall>a \<in> set (0 # xs). a < length st" "ht st 0 = maxLevel"
    "\<forall>a \<in> set xs. 1 \<le> ht st a \<and> ht st a \<le> L" "1 \<le> L" "L \<le> maxLevel" "links st L (0 # xs)"
    "\<forall>i. L \<le> i \<and> i < maxLevel \<longrightarrow> lv_next (lv st 0 i) = None"
  using assms unfolding chain_def by blast+

lemma chain_raise:
  assumes ch: "chain st L xs" and n: "n \<le> maxLevel" and sh: "same_shape st st'"
    and l: "\<forall>a j. lv st' a j = (if L \<le> j \<and> j < n
        then if a = 0 then (lv st a j)\<lparr>lv_span := int (length xs)\<rparr> else lv st a j else lv st a j)"
  shows "chain st' (max L n) xs"
proof -
  note c = chainD [OF ch] and h = same_shape_ht [OF sh]
  have "links st' (max L n) (0 # xs)"
    unfolding links_def h
  proof (intro allI impI)
    fix p a w i assume P: "0 # xs = p @ a # w" and i: "i < min (max L n) (ht st a)"
    show "lv st' a i = next_from (ht st) i w"
    proof (cases "i < L")
      case True
      then show ?thesis using l links_at [of st L p a w i] c(7) P i by simp
    next
      case False
      then have "a \<notin> set xs" using i c(4) by fastforce
      then have "a = 0" "p = []" using P c(1) by (cases p; auto)+
      then have w: "w = xs" using P by simp
      have "lv_next (lv st 0 i) = None" using c(8) False i n c(6) by auto
      then have "lv st' 0 i = \<lparr>lv_next = None, lv_span = int (length xs)\<rparr>" using l False i by auto
      moreover have "\<forall>c \<in> set xs. ht st c \<le> i" using c(4) False by fastforce
      ultimately show ?thesis using \<open>a = 0\<close> w next_from_none by metis
    qed
  qed
  moreover have "\<forall>i. max L n \<le> i \<and> i < maxLevel \<longrightarrow> lv_next (lv st' 0 i) = None" using l c(8) by auto
  ultimately show ?thesis
    using c(1-6) n sh unfolding chain_def h by (auto simp: same_shape_def max_def)
qed

lemma chain_link:
  assumes ch: "chain st L (ys @ zs)" and lev: "1 \<le> level" "level \<le> L"
    and pr: "\<forall>i < L. pred_at (ht st) (0 # ys) i (upd ! i)"
    and r0: "snd (upd ! 0) = int (length ys)"
    and b: "b = length st" "length st' = Suc (length st)" "ht st' b = level" "\<forall>a < length st. ht st' a = ht st a"
    and la: "\<forall>a j. a < length st \<and> j < L \<longrightarrow> lv st' a j = (if a = fst (upd ! j)
        then if j < level then \<lparr>lv_next = Some b, lv_span = snd (upd ! 0) - snd (upd ! j) + 1\<rparr>
             else (lv st a j)\<lparr>lv_span := lv_span (lv st a j) + 1\<rparr>
        else lv st a j)"
    and lb: "\<forall>j < level. lv st' b j = \<lparr>lv_next = lv_next (lv st (fst (upd ! j)) j),
          lv_span = lv_span (lv st (fst (upd ! j)) j) - (snd (upd ! 0) - snd (upd ! j))\<rparr>"
    and lz: "\<forall>i. L \<le> i \<and> i < maxLevel \<longrightarrow> lv st' 0 i = lv st 0 i"
  shows "chain st' L (ys @ b # zs)"
proof -
  note c = chainD [OF ch]
  have dy: "distinct (0 # ys)" using c(1) by auto
  have in_st: "a < length st" if "a \<in> set (0 # ys @ zs)" for a using c(2) that by blast
  have hcong: "next_from (ht st') i w = next_from (ht st) i w" if "set w \<subseteq> set (0 # ys @ zs)" for i w
    using next_from_cong [of w "ht st'" "ht st" i] b(4) in_st that by (meson subsetD)
  have hz: "next_from (ht st') i zs = next_from (ht st) i zs" for i by (rule hcong) auto
  have uin: "fst (upd ! i) \<in> set (0 # ys)" if "i < L" for i using pred_at_mem pr that by blast
  have links: "links st' L (0 # ys @ b # zs)"
    unfolding links_def
  proof (intro allI impI)
    fix p a w i assume P: "0 # ys @ b # zs = p @ a # w" and i: "i < min L (ht st' a)"
    then have "i < L" by simp
    note u = uin [OF this] and pri = pr [rule_format, OF \<open>i < L\<close>]
    from P have "(0 # ys) @ b # zs = p @ a # w" by simp
    from split_mid [OF this] show "lv st' a i = next_from (ht st') i w"
    proof (elim disjE exE conjE)
      fix v assume v: "0 # ys = p @ a # v" "w = v @ b # zs"
      have am: "a \<in> set (0 # ys)" using v(1) by simp
      then have a: "a < length st" "i < ht st a" using in_st [of a] i b(4) by auto
      have old: "lv st a i = next_from (ht st) i (v @ zs)"
        by (rule links_in [OF _ v(1) \<open>i < L\<close> a(2)]) (use c(7) in simp)
      have "set v \<subseteq> set (p @ a # v)" by auto
      then have vs: "set v \<subseteq> set (0 # ys @ zs)" unfolding v(1) [symmetric] by auto
      show ?thesis
      proof (cases "a = fst (upd ! i)")
        case True
        from pred_at_split(1) [OF dy pri v(1) a(2) True]
        have low: "\<forall>c \<in> set v. ht st c \<le> i" and r: "snd (upd ! i) = int (length p)" by simp_all
        have low': "\<forall>c \<in> set v. ht st' c \<le> i" using low b(4) in_st vs by (metis subsetD)
        have d: "snd (upd ! 0) - snd (upd ! i) = int (length v)" using r0 r arg_cong [OF v(1), of length] by simp
        show ?thesis
        proof (cases "i < level")
          case hi: True
          then show ?thesis using la a(1) \<open>i < L\<close> True d low' b(3) unfolding v(2) by (simp add: next_from_hit)
        next
          case lo: False
          then show ?thesis
            using la a(1) \<open>i < L\<close> True low low' b(3) old hz unfolding v(2)
            by (simp add: next_from_skip)
        qed
      next
        case False
        from pred_at_split(2) [OF dy pri v(1) a(2) False] obtain x where x: "x \<in> set v" "i < ht st x" by blast
        then have x': "i < ht st' x" using b(4) in_st vs by (metis subsetD)
        have "next_from (ht st') i w = next_from (ht st') i v" unfolding v(2) by (rule next_from_indep [where h = "ht st'", OF x(1) x'])
        also have "\<dots> = next_from (ht st) i v" by (rule hcong [OF vs])
        also have "\<dots> = next_from (ht st) i (v @ zs)" by (rule next_from_indep [where h = "ht st", OF x, symmetric])
        finally show ?thesis using la a(1) \<open>i < L\<close> False old by simp
      qed
    next
      assume v: "p = 0 # ys" "a = b" "w = zs"
      then have hi: "i < level" using i b(3) by simp
      obtain q v' where q: "0 # ys = q @ fst (upd ! i) # v'" "snd (upd ! i) = int (length q)"
          "i < ht st (fst (upd ! i))" "\<forall>c \<in> set v'. ht st c \<le> i"
        using pri by (auto simp: pred_at_def)
      have "lv st (fst (upd ! i)) i = next_from (ht st) i (v' @ zs)"
        by (rule links_in [OF _ q(1) \<open>i < L\<close> q(3)]) (use c(7) in simp)
      moreover have "snd (upd ! 0) - snd (upd ! i) = int (length v')"
        using r0 q(2) arg_cong [OF q(1), of length] by simp
      ultimately show ?thesis
        using lb hi v q(4) hz by (simp add: next_from_skip)
    next
      fix v assume v: "zs = v @ a # w" "p = (0 # ys) @ b # v"
      have a: "a < length st" "i < ht st a" using in_st [of a] v(1) i b(4) by auto
      have "a \<noteq> fst (upd ! i)" using u c(1) v(1) by auto
      moreover have "lv st a i = next_from (ht st) i w"
        using links_at [of st L "0 # ys @ v" a w i] c(7) v(1) a(2) \<open>i < L\<close> by simp
      moreover have "next_from (ht st') i w = next_from (ht st) i w" by (rule hcong) (use v(1) in auto)
      ultimately show ?thesis using la a(1) \<open>i < L\<close> by simp
    qed
  qed
  have "b \<notin> set (0 # ys @ zs)" using in_st b(1) by blast
  moreover have "a < length st'" if "a \<in> set (0 # ys @ b # zs)" for a
    using in_st [of a] b(1,2) that by auto
  ultimately show ?thesis
    unfolding chain_def using c b lev lz links in_st by auto
qed


lemma chain_unlink:
  assumes ch: "chain st L (ys @ x # zs)" and pr: "\<forall>i < L. pred_at (ht st) (0 # ys) i (upd ! i)"
    and sh: "same_shape st st'"
    and la: "\<forall>a j. lv st' a j = (if 0 \<le> j \<and> j < L
         then if a = fst (upd ! j)
              then if lv_next (lv st a j) = Some x
                   then \<lparr>lv_next = lv_next (lv st x j), lv_span = lv_span (lv st a j) + (lv_span (lv st x j) - 1)\<rparr>
                   else (lv st a j)\<lparr>lv_span := lv_span (lv st a j) - 1\<rparr>
              else lv st a j
         else lv st a j)"
  shows "chain st' L (ys @ zs)"
proof -
  note c = chainD [OF ch] and h = same_shape_ht [OF sh]
  have dy: "distinct (0 # ys)" using c(1) by auto
  have "links st' L (0 # ys @ zs)"
    unfolding links_def h
  proof (intro allI impI)
    fix p a w i assume P: "0 # ys @ zs = p @ a # w" and i: "i < min L (ht st a)"
    then have iL: "i < L" and ia: "i < ht st a" by simp_all
    note pri = pr [rule_format, OF iL]
    from P have "(0 # ys) @ zs = p @ a # w" by simp
    from split_two [OF this] show "lv st' a i = next_from (ht st) i w"
    proof (elim disjE exE conjE)
      fix v assume v: "0 # ys = p @ a # v" "w = v @ zs"
      have old: "lv st a i = next_from (ht st) i (v @ x # zs)"
        by (rule links_in [OF _ v(1) iL ia]) (use c(7) in simp)
      have xz: "lv st x i = next_from (ht st) i zs" if "i < ht st x"
        using links_at [of st L "0 # ys" x zs i] c(7) iL that by simp
      show ?thesis
      proof (cases "a = fst (upd ! i)")
        case True
        from pred_at_split(1) [OF dy pri v(1) ia True] have low: "\<forall>c \<in> set v. ht st c \<le> i" by simp
        show ?thesis
        proof (cases "i < ht st x")
          case hi: True
          then show ?thesis
            using la True iL old low xz unfolding v(2) by (simp add: next_from_hit next_from_skip)
        next
          case lo: False
          have "lv_next (next_from (ht st) i zs) \<noteq> Some x"
            by (cases rule: next_from_cases [of zs "ht st" i]) (use c(1) in auto)
          then show ?thesis
            using la True iL old low lo unfolding v(2) by (simp add: next_from_skip)
        qed
      next
        case False
        from pred_at_split(2) [OF dy pri v(1) ia False] obtain y where y: "y \<in> set v" "i < ht st y" by blast
        show ?thesis
          using la False old next_from_indep [where h = "ht st", OF y] unfolding v(2) by simp
      qed
    next
      fix v assume v: "zs = v @ a # w" "p = (0 # ys) @ v"
      have "a \<noteq> fst (upd ! i)" using pred_at_mem [OF pri] c(1) v(1) by auto
      moreover have "lv st a i = next_from (ht st) i w"
        using links_at [of st L "0 # ys @ x # v" a w i] c(7) v(1) ia iL by simp
      ultimately show ?thesis using la by simp
    qed
  qed
  moreover have "\<forall>i. L \<le> i \<and> i < maxLevel \<longrightarrow> lv_next (lv st' 0 i) = None" using la c(8) by auto
  ultimately show ?thesis
    unfolding chain_def h using c sh by (auto simp: same_shape_def)
qed

lemma chain_lower: "chain st L xs \<Longrightarrow> \<exists>L'. lower st L = Inr L' \<and> chain st L' xs"
proof (induction L)
  case 0
  then show ?case by (simp add: chain_def)
next
  case (Suc l)
  note c = chainD [OF Suc.prems]
  show ?case
  proof (cases "0 < l")
    case False
    then show ?thesis using Suc.prems by auto
  next
    case True
    have e: "lv st 0 l = next_from (ht st) l xs"
      using links_at [of st "Suc l" "[]" 0 xs l] c(3,6,7) by simp
    have at: "level_at st 0 l = Inr (next_from (ht st) l xs)" using c(2,3,6) e by (simp add: level_at_eq)
    show ?thesis
    proof (cases rule: next_from_cases [of xs "ht st" l])
      case 1
      have "links st l (0 # xs)" using c(7) by (auto simp: links_def)
      moreover have "\<forall>i. l \<le> i \<and> i < maxLevel \<longrightarrow> lv_next (lv st 0 i) = None"
        using c(8) e 1(2) by (metis Suc_leI le_neq_implies_less skiplistLevel.select_convs(1))
      ultimately have "chain st l xs" unfolding chain_def using c 1(1) True by auto
      then show ?thesis using Suc.IH at 1(2) True by simp
    next
      case (2 v y w')
      then show ?thesis using at True Suc.prems by simp
    qed
  qed
qed


section \<open>The represented list\<close>

lemma cmp_sign:
  assumes "compare_ok cmp"
  shows "cmp y x < 0 \<longleftrightarrow> 0 < cmp x y" and "cmp y x = 0 \<longleftrightarrow> cmp x y = 0"
proof -
  have "sgn (cmp y x) = - sgn (cmp x y)" using assms unfolding compare_ok_def by blast
  then show "cmp y x < 0 \<longleftrightarrow> 0 < cmp x y" "cmp y x = 0 \<longleftrightarrow> cmp x y = 0"
    by (cases "cmp x y" "0 :: int" rule: linorder_cases;
        cases "cmp y x" "0 :: int" rule: linorder_cases; simp add: sgn_if)+
qed

lemma cmp_le_trans: "compare_ok cmp \<Longrightarrow> cmp x y \<le> 0 \<Longrightarrow> cmp y z \<le> 0 \<Longrightarrow> cmp x z \<le> 0"
  unfolding compare_ok_def by blast

lemma cmp_less_le_trans:
  assumes ok: "compare_ok cmp" and "cmp x y < 0" and "cmp y z \<le> 0"
  shows "cmp x z < 0"
  using cmp_le_trans [OF ok assms(3), of x] cmp_sign [OF ok, of x z] cmp_sign [OF ok, of x y] assms(2) by linarith

lemma cmp_le_less_trans:
  assumes ok: "compare_ok cmp" and "cmp x y \<le> 0" and "cmp y z < 0"
  shows "cmp x z < 0"
  using cmp_le_trans [OF ok _ assms(2), of z] cmp_sign [OF ok, of x z] cmp_sign [OF ok, of y z] assms(3) by linarith

definition lows :: "'a compare \<Rightarrow> 'a \<Rightarrow> 'a list \<Rightarrow> 'a list" where
  "lows cmp d ds = takeWhile (\<lambda>x. cmp x d < 0) ds"

definition highs :: "'a compare \<Rightarrow> 'a \<Rightarrow> 'a list \<Rightarrow> 'a list" where
  "highs cmp d ds = dropWhile (\<lambda>x. cmp x d < 0) ds"

lemma lows_highs [simp]: "lows cmp d ds @ highs cmp d ds = ds"
  by (simp add: lows_def highs_def)

lemma length_lows_highs: "length (lows cmp d ds) + length (highs cmp d ds) = length ds"
  by (metis length_append lows_highs)

lemma lows_less: "x \<in> set (lows cmp d ds) \<Longrightarrow> cmp x d < 0"
  by (auto simp: lows_def dest: set_takeWhileD)

lemma highs_ge:
  assumes ok: "compare_ok cmp" and srt: "sorted_wrt (\<lambda>x y. cmp x y < 0) ds" and "x \<in> set (highs cmp d ds)"
  shows "\<not> cmp x d < 0"
proof (cases "highs cmp d ds")
  case Nil
  then show ?thesis using assms by simp
next
  case (Cons y ys)
  have "\<not> cmp y d < 0" using Cons hd_dropWhile [of "\<lambda>x. cmp x d < 0" ds] by (auto simp: highs_def)
  moreover have "sorted_wrt (\<lambda>x y. cmp x y < 0) (lows cmp d ds @ highs cmp d ds)" using srt by simp
  then have "x = y \<or> cmp y x < 0" using assms(3) Cons by (auto simp: sorted_wrt_append)
  ultimately show ?thesis using cmp_less_le_trans [OF ok, of y x d] by auto
qed

lemma rel_search:
  assumes ok: "compare_ok cmp" and rel: "sl_rel cmp sl ds"
  obtains ys zs upd where "chain (sl_store sl) (sl_level sl) (ys @ zs)"
    and "map (\<lambda>a. n_data (sl_store sl ! a)) ys = lows cmp d ds"
    and "map (\<lambda>a. n_data (sl_store sl ! a)) zs = highs cmp d ds"
    and "search_data cmp d sl = Inr (last (0 # ys), int (length ys), upd)"
    and "length upd = sl_level sl" and "\<forall>i < sl_level sl. pred_at (ht (sl_store sl)) (0 # ys) i (upd ! i)"
    and "upd ! 0 = (last (0 # ys), int (length ys))"
    and "level_at (sl_store sl) (last (0 # ys)) 0 = Inr (next_from (ht (sl_store sl)) 0 zs)"
proof -
  let ?st = "sl_store sl" and ?L = "sl_level sl" and ?dat = "\<lambda>a. n_data (sl_store sl ! a)"
  obtain xs where xs: "chain ?st ?L xs" "ds = map ?dat xs" "sorted_wrt (\<lambda>x y. cmp x y < 0) ds"
    using rel by (auto simp: sl_rel_def)
  define ys where "ys = take (length (lows cmp d ds)) xs"
  define zs where "zs = drop (length (lows cmp d ds)) xs"
  have x: "xs = ys @ zs" by (simp add: ys_def zs_def)
  have "map ?dat ys = take (length (lows cmp d ds)) (lows cmp d ds @ highs cmp d ds)"
    unfolding ys_def take_map [symmetric] xs(2) [symmetric] by simp
  then have lo: "map ?dat ys = lows cmp d ds" by (simp del: lows_highs)
  have "map ?dat zs = drop (length (lows cmp d ds)) (lows cmp d ds @ highs cmp d ds)"
    unfolding zs_def drop_map [symmetric] xs(2) [symmetric] by simp
  then have hi: "map ?dat zs = highs cmp d ds" by (simp del: lows_highs)
  have ch: "chain ?st ?L (ys @ zs)" using xs(1) x by simp
  note c = chainD [OF ch]
  have "before cmp d ?st y r = (length v < length ys)" if sp: "ys @ zs = v @ y # w" for v y w r
    using split_two [OF sp]
  proof (elim disjE exE conjE)
    fix v' assume v': "ys = v @ y # v'"
    then have "?dat y \<in> set (lows cmp d ds)" unfolding lo [symmetric] by simp
    then show ?thesis using v' lows_less by (fastforce simp: before_def)
  next
    fix v' assume v': "zs = v' @ y # w" "v = ys @ v'"
    then have "?dat y \<in> set (highs cmp d ds)" unfolding hi [symmetric] by simp
    then show ?thesis using v' highs_ge [OF ok xs(3)] by (simp add: before_def)
  qed
  then obtain upd y r where s: "search (before cmp d ?st) ?st ?L 0 (int (length [])) [] = Inr (y, r, upd @ [])" "length upd = ?L"
      "\<forall>i < ?L. pred_at (ht ?st) (0 # ys) i (upd ! i)" "0 < ?L \<longrightarrow> (y, r) = upd ! 0"
    using search_spec [OF ch order_refl, of "[]" 0 ys "before cmp d ?st" "[]"] c(3,6) by auto
  have "pred_at (ht ?st) (0 # ys) 0 (upd ! 0)" using s(3) c(5) by simp
  then obtain p w where pw: "0 # ys = p @ fst (upd ! 0) # w" "snd (upd ! 0) = int (length p)" "\<forall>a \<in> set w. ht ?st a \<le> 0"
    by (auto simp: pred_at_def)
  have "set w \<subseteq> set ys" using pw(1) by (cases p) auto
  have "w = []"
  proof (rule ccontr)
    assume "w \<noteq> []"
    then have "hd w \<in> set w" by simp
    moreover from this have "hd w \<in> set (ys @ zs)" using \<open>set w \<subseteq> set ys\<close> by auto
    ultimately have "ht ?st (hd w) \<le> 0" "1 \<le> ht ?st (hd w)" using pw(3) c(4) by blast+
    then show False by simp
  qed
  then have u0: "upd ! 0 = (last (0 # ys), int (length ys))"
    using pw(1,2) by (metis length_append_singleton length_Cons last_snoc nat.inject prod.collapse)
  have "0 # ys @ zs = butlast (0 # ys) @ last (0 # ys) # zs"
    by (metis append_Cons append_butlast_last_id append_assoc list.distinct(1) append_Nil)
  moreover have "last (0 # ys) \<in> set (0 # ys)" by (rule last_in_set) simp
  then have "last (0 # ys) \<in> set (0 # ys @ zs)" by auto
  moreover have "a < length ?st \<and> 0 < ht ?st a" if "a \<in> set (0 # ys @ zs)" for a
    using c(2,3,4) that by (auto simp: maxLevel_def Suc_le_eq simp del: length_greater_0_conv)
  ultimately have l: "last (0 # ys) < length ?st" "0 < ht ?st (last (0 # ys))"
    and sp: "0 # ys @ zs = butlast (0 # ys) @ last (0 # ys) # zs" by blast+
  have "lv ?st (last (0 # ys)) 0 = next_from (ht ?st) 0 zs"
    by (rule links_at [OF c(7) [unfolded sp] _ l(2)]) (use c(5) in simp)
  then have "level_at ?st (last (0 # ys)) 0 = Inr (next_from (ht ?st) 0 zs)" using l by (simp add: level_at_eq)
  with that [OF ch lo hi _ s(2,3) u0] s(1,4) c(5) u0 show ?thesis by simp
qed


section \<open>The operations\<close>

lemma level_loop_bounds:
  "level_loop rnd level draws = (l, d) \<Longrightarrow> level \<le> maxLevel \<Longrightarrow> level \<le> l \<and> l \<le> maxLevel"
proof (induction rnd level draws rule: level_loop.induct)
  case (1 rnd level draws)
  show ?case
    using "1.IH" "1.prems" by (subst (asm) level_loop.simps) (auto split: if_splits)
qed

lemma randomLevel_bounds: "randomLevel rnd draws = (l, d) \<Longrightarrow> 1 \<le> l \<and> l \<le> maxLevel"
  unfolding randomLevel_def by (drule level_loop_bounds) (auto simp: maxLevel_def)

lemma NewSkipList_rel: "sl_rel cmp (NewSkipList zero rnd) []"
proof -
  have "chain (sl_store (NewSkipList zero rnd)) 1 []"
    by (auto simp: chain_def NewSkipList_def links_def maxLevel_def Cons_eq_append_conv)
  then show ?thesis by (simp add: sl_rel_def NewSkipList_def)
qed

lemma chain_Insert:
  assumes ch: "chain st L (ys @ zs)" and pr: "\<forall>i < L. pred_at (ht st) (0 # ys) i (upd ! i)"
    and lu: "length upd = L" and u0: "snd (upd ! 0) = int (length ys)" and lev: "1 \<le> level" "level \<le> maxLevel"
  shows "\<exists>st1 st3 st4. go_for (raise_header (int (length (ys @ zs)))) [L ..< level] st = Inr st1 \<and> length st1 = length st
    \<and> go_for (link_level (length st) (upd @ replicate (level - L) (0, 0))) [0 ..< level]
        (st1 @ [\<lparr>n_data = d, n_level = replicate level \<lparr>lv_next = None, lv_span = 0\<rparr>\<rparr>]) = Inr st3
    \<and> go_for (widen_level (upd @ replicate (level - L) (0, 0))) [level ..< L] st3 = Inr st4
    \<and> chain st4 (max L level) (ys @ length st # zs)
    \<and> (\<forall>a < length st. n_data (st4 ! a) = n_data (st ! a)) \<and> n_data (st4 ! length st) = d"
proof -
  let ?upd = "upd @ replicate (level - L) (0, 0)" and ?M = "max L level" and ?b = "length st"
  note c = chainD [OF ch]
  obtain st1 where r: "go_for (raise_header (int (length (ys @ zs)))) [L ..< level] st = Inr st1" "same_shape st st1"
      "\<forall>a j. lv st1 a j = (if L \<le> j \<and> j < level
        then if a = 0 then (lv st a j)\<lparr>lv_span := int (length (ys @ zs))\<rparr> else lv st a j else lv st a j)"
    using raise_rounds [of st level "int (length (ys @ zs))" L] c(2,3) lev by auto
  have ch1: "chain st1 ?M (ys @ zs)" by (rule chain_raise [OF ch lev(2) r(2,3)])
  note c1 = chainD [OF ch1]
  have l1: "length st1 = ?b" and h1: "ht st1 a = ht st a" and d1: "n_data (st1 ! a) = n_data (st ! a)" for a
    using r(2) by (simp_all add: same_shape_def)
  have pr1: "pred_at (ht st1) (0 # ys) i (?upd ! i)" if "i < ?M" for i
  proof (cases "i < L")
    case True
    then show ?thesis using pr lu by (simp add: nth_append h1)
  next
    case False
    then have "?upd ! i = (0, 0)" using lu that by (simp add: nth_append)
    moreover have "ht st a \<le> i" if "a \<in> set ys" for a
    proof -
      have "ht st a \<le> L" using c(4) that by simp
      then show ?thesis using False by simp
    qed
    ultimately show ?thesis
      using that c(3,6) lev(2) unfolding pred_at_def by (intro exI [of _ "[]"] exI [of _ ys]) (auto simp: h1)
  qed
  have u: "fst (?upd ! i) < ?b" "i < ht st1 (fst (?upd ! i))" if "i < ?M" for i
    using pred_at_mem [OF pr1 [OF that]] c(2) by auto
  let ?st2 = "st1 @ [\<lparr>n_data = d, n_level = replicate level \<lparr>lv_next = None, lv_span = 0\<rparr>\<rparr>]"
  have s2: "length ?st2 = Suc ?b" "ht ?st2 ?b = level" "n_data (?st2 ! ?b) = d"
    "\<And>a. a < ?b \<Longrightarrow> ?st2 ! a = st1 ! a"
    using l1 by (simp_all add: nth_append)
  have uo: "\<forall>i < level. fst (?upd ! i) < length ?st2 \<and> i < ht ?st2 (fst (?upd ! i)) \<and> fst (?upd ! i) \<noteq> ?b"
  proof (intro allI impI)
    fix i assume "i < level"
    then have "i < ?M" by simp
    from u [OF this] show "fst (?upd ! i) < length ?st2 \<and> i < ht ?st2 (fst (?upd ! i)) \<and> fst (?upd ! i) \<noteq> ?b"
      using l1 by (simp add: nth_append)
  qed
  have "?b < length ?st2" "level \<le> ht ?st2 ?b" using s2 by simp_all
  from link_rounds [OF uo this] obtain st3 where k: "go_for (link_level ?b ?upd) [0 ..< level] ?st2 = Inr st3"
      "same_shape ?st2 st3"
      "\<forall>a j. lv st3 a j = (if 0 \<le> j \<and> j < level
         then if a = ?b then \<lparr>lv_next = lv_next (lv ?st2 (fst (?upd ! j)) j),
                             lv_span = lv_span (lv ?st2 (fst (?upd ! j)) j) - (snd (?upd ! 0) - snd (?upd ! j))\<rparr>
              else if a = fst (?upd ! j) then \<lparr>lv_next = Some ?b, lv_span = snd (?upd ! 0) - snd (?upd ! j) + 1\<rparr>
              else lv ?st2 a j
         else lv ?st2 a j)" by blast
  have l3: "length st3 = Suc ?b" and h3: "ht st3 a = ht ?st2 a" for a
    using k(2) s2(1) unfolding same_shape_def by simp_all
  have "\<forall>i < L. fst (?upd ! i) < length st3 \<and> i < ht st3 (fst (?upd ! i))"
  proof (intro allI impI)
    fix i assume "i < L"
    then have "i < ?M" by simp
    from u [OF this] show "fst (?upd ! i) < length st3 \<and> i < ht st3 (fst (?upd ! i))"
      unfolding h3 using s2(4) l3 by simp
  qed
  from widen_rounds [OF this, of level] obtain st4 where w: "go_for (widen_level ?upd) [level ..< L] st3 = Inr st4" "same_shape st3 st4"
      "\<forall>a j. lv st4 a j = (if level \<le> j \<and> j < L
         then if a = fst (?upd ! j) then (lv st3 a j)\<lparr>lv_span := lv_span (lv st3 a j) + 1\<rparr> else lv st3 a j
         else lv st3 a j)" by blast
  have sh: "same_shape ?st2 st4" by (rule same_shape_trans [OF k(2) w(2)])
  have u0': "snd (?upd ! 0) = int (length ys)" using u0 lu c(5) by (simp add: nth_append)
  have "chain st4 ?M (ys @ ?b # zs)"
  proof (rule chain_link [OF ch1 lev(1) _ _ u0'])
    show "\<forall>i < ?M. pred_at (ht st1) (0 # ys) i (?upd ! i)" using pr1 by blast
    show "length st4 = Suc (length st1)" "ht st4 ?b = level" "\<forall>a < length st1. ht st4 a = ht st1 a"
      using sh s2 l1 unfolding same_shape_def by simp_all
    show "\<forall>a j. a < length st1 \<and> j < ?M \<longrightarrow> lv st4 a j = (if a = fst (?upd ! j)
        then if j < level then \<lparr>lv_next = Some ?b, lv_span = snd (?upd ! 0) - snd (?upd ! j) + 1\<rparr>
             else (lv st1 a j)\<lparr>lv_span := lv_span (lv st1 a j) + 1\<rparr>
        else lv st1 a j)"
    proof (intro allI impI, elim conjE)
      fix a j assume a: "a < length st1" "j < ?M"
      have e: "?st2 ! a = st1 ! a" "a \<noteq> ?b" using s2(4) a(1) l1 by auto
      have e3: "lv st3 a j = (if j < level \<and> a = fst (?upd ! j)
          then \<lparr>lv_next = Some ?b, lv_span = snd (?upd ! 0) - snd (?upd ! j) + 1\<rparr> else lv st1 a j)"
        unfolding k(3) [rule_format, of a j] e(1) using e(2) by simp
      show "lv st4 a j = (if a = fst (?upd ! j)
        then if j < level then \<lparr>lv_next = Some ?b, lv_span = snd (?upd ! 0) - snd (?upd ! j) + 1\<rparr>
             else (lv st1 a j)\<lparr>lv_span := lv_span (lv st1 a j) + 1\<rparr>
        else lv st1 a j)"
        unfolding w(3) [rule_format, of a j] e3 using a(2) by (cases "j < level") auto
    qed
    show "\<forall>j < level. lv st4 ?b j = \<lparr>lv_next = lv_next (lv st1 (fst (?upd ! j)) j),
          lv_span = lv_span (lv st1 (fst (?upd ! j)) j) - (snd (?upd ! 0) - snd (?upd ! j))\<rparr>"
    proof (intro allI impI)
      fix j assume j: "j < level"
      then have "?st2 ! fst (?upd ! j) = st1 ! fst (?upd ! j)" using u(1) [of j] s2(4) by simp
      then show "lv st4 ?b j = \<lparr>lv_next = lv_next (lv st1 (fst (?upd ! j)) j),
          lv_span = lv_span (lv st1 (fst (?upd ! j)) j) - (snd (?upd ! 0) - snd (?upd ! j))\<rparr>"
        unfolding w(3) [rule_format, of ?b j] k(3) [rule_format, of ?b j] using j by simp
    qed
    have "?st2 ! 0 = st1 ! 0" using s2(4) [of 0] c(2) by simp
    then show "\<forall>i. ?M \<le> i \<and> i < maxLevel \<longrightarrow> lv st4 0 i = lv st1 0 i"
      unfolding w(3) [rule_format, of 0] k(3) [rule_format, of 0] by simp
  qed (use lev l1 in auto)
  moreover have "\<forall>a < ?b. n_data (st4 ! a) = n_data (st ! a)" "n_data (st4 ! ?b) = d"
    using sh s2 d1 unfolding same_shape_def by simp_all
  ultimately show ?thesis using r(1) l1 k(1) w(1) by blast
qed

lemma Insert_spec:
  assumes ok: "compare_ok cmp" and rel: "sl_rel cmp sl ds" and new: "\<forall>x \<in> set ds. cmp x d \<noteq> 0"
  shows "\<exists>sl'. Insert cmp d sl = Inr (int (length (lows cmp d ds)) + 1, sl')
    \<and> sl_rel cmp sl' (lows cmp d ds @ d # highs cmp d ds)"
proof -
  let ?st = "sl_store sl" and ?L = "sl_level sl"
  obtain ys zs upd where s: "chain ?st ?L (ys @ zs)" "map (\<lambda>a. n_data (?st ! a)) ys = lows cmp d ds"
      "map (\<lambda>a. n_data (?st ! a)) zs = highs cmp d ds" "search_data cmp d sl = Inr (last (0 # ys), int (length ys), upd)"
      "length upd = ?L" "\<forall>i < ?L. pred_at (ht ?st) (0 # ys) i (upd ! i)" "upd ! 0 = (last (0 # ys), int (length ys))"
    by (rule rel_search [OF ok rel, of d])
  obtain level draws where rl: "randomLevel (sl_rand sl) (sl_draws sl) = (level, draws)"
    by (cases "randomLevel (sl_rand sl) (sl_draws sl)")
  note lev = randomLevel_bounds [OF rl]
  have len: "sl_length sl = int (length (ys @ zs))" and srt: "sorted_wrt (\<lambda>x y. cmp x y < 0) ds"
  proof -
    obtain xs where "ds = map (\<lambda>a. n_data (?st ! a)) xs" "sl_length sl = int (length xs)"
        "sorted_wrt (\<lambda>x y. cmp x y < 0) ds"
      using rel by (auto simp: sl_rel_def)
    moreover have "length ds = length ys + length zs"
      using arg_cong [OF s(2), of length] arg_cong [OF s(3), of length] length_lows_highs [of cmp d ds] by simp
    ultimately show "sl_length sl = int (length (ys @ zs))" "sorted_wrt (\<lambda>x y. cmp x y < 0) ds" by auto
  qed
  obtain st1 st3 st4 where C: "go_for (raise_header (sl_length sl)) [?L ..< level] ?st = Inr st1" "length st1 = length ?st"
      "go_for (link_level (length ?st) (upd @ replicate (level - ?L) (0, 0))) [0 ..< level]
        (st1 @ [\<lparr>n_data = d, n_level = replicate level \<lparr>lv_next = None, lv_span = 0\<rparr>\<rparr>]) = Inr st3"
      "go_for (widen_level (upd @ replicate (level - ?L) (0, 0))) [level ..< ?L] st3 = Inr st4"
      "chain st4 (max ?L level) (ys @ length ?st # zs)"
      "\<forall>a < length ?st. n_data (st4 ! a) = n_data (?st ! a)" "n_data (st4 ! length ?st) = d"
    using chain_Insert [OF s(1,6,5), of level d] s(7) lev unfolding len by auto
  let ?sl = "sl\<lparr>sl_store := st4, sl_level := max level ?L, sl_length := sl_length sl + 1, sl_draws := draws\<rparr>"
  have u0: "snd ((upd @ replicate (level - ?L) (0, 0)) ! 0) = int (length ys)"
    using s(5,7) chainD(5) [OF s(1)] by (simp add: nth_append)
  have ly: "length ys = length (lows cmp d ds)" using arg_cong [OF s(2), of length] by simp
  have run: "Insert cmp d sl = Inr (int (length (lows cmp d ds)) + 1, ?sl)"
    unfolding Insert_def s(4) go_bind_Inr case_prod_conv rl Let_def C(1,2) C(3) C(4) u0 ly ..
  have in_st: "a < length ?st" if "a \<in> set (ys @ zs)" for a using chainD(2) [OF s(1)] that by auto
  have "map (\<lambda>a. n_data (st4 ! a)) (ys @ length ?st # zs) = lows cmp d ds @ d # highs cmp d ds"
    using s(2,3) C(6,7) in_st by (auto simp flip: s(2,3))
  moreover have "sorted_wrt (\<lambda>x y. cmp x y < 0) (lows cmp d ds @ d # highs cmp d ds)"
  proof -
    have "sorted_wrt (\<lambda>x y. cmp x y < 0) (lows cmp d ds @ highs cmp d ds)" using srt by simp
    moreover have "cmp d x < 0" if x: "x \<in> set (highs cmp d ds)" for x
    proof -
      have "x \<in> set ds" using x set_dropWhileD by (fastforce simp: highs_def)
      then have "cmp x d \<noteq> 0" using new by simp
      with highs_ge [OF ok srt x] have "0 < cmp x d" by simp
      then show ?thesis using cmp_sign(1) [OF ok] by blast
    qed
    ultimately show ?thesis using lows_less [of _ cmp d ds] by (auto simp: sorted_wrt_append simp del: lows_highs)
  qed
  ultimately have "sl_rel cmp ?sl (lows cmp d ds @ d # highs cmp d ds)"
    unfolding sl_rel_def using C(5) len by (intro exI [of _ "ys @ length ?st # zs"]) (auto simp: max.commute)
  with run show ?thesis by blast
qed

end
