(* ===== verification/Skip_List_Spec.thy ===== *)
theory Skip_List_Spec
  imports Skip_List
begin

text \<open>
  Removal, queries, traversal and update of the skip list of \<open>src/ds/skiplist/skiplist.go\<close>, and
  the properties of the component: every operation terminates without a panic and acts on
  the represented sorted list as its list counterpart does.
\<close>

section \<open>The list counterparts\<close>

lemma highs_mem: "x \<in> set (highs cmp d ds) \<Longrightarrow> x \<in> set ds"
  by (auto simp: highs_def dest: set_dropWhileD)

lemma lows_mem: "x \<in> set (lows cmp d ds) \<Longrightarrow> x \<in> set ds"
  by (auto simp: lows_def dest: set_takeWhileD)

lemma ds_split: "x \<in> set ds \<Longrightarrow> x \<in> set (lows cmp d ds) \<or> x \<in> set (highs cmp d ds)"
  by (metis Un_iff lows_highs set_append)

text \<open>An element that compares equal to \<open>d\<close> heads the upper part.\<close>

lemma found_iff:
  assumes ok: "compare_ok cmp" and srt: "sorted_wrt (\<lambda>x y. cmp x y < 0) ds"
  shows "(\<exists>x \<in> set ds. cmp x d = 0) \<longleftrightarrow> (\<exists>x hs. highs cmp d ds = x # hs \<and> cmp x d = 0)"
proof
  assume "\<exists>x \<in> set ds. cmp x d = 0"
  then obtain x where x: "x \<in> set ds" "cmp x d = 0" by blast
  then have xh: "x \<in> set (highs cmp d ds)" using ds_split [OF x(1), of cmp d] lows_less [of x cmp d ds] by auto
  then obtain y hs where y: "highs cmp d ds = y # hs" by (cases "highs cmp d ds") auto
  have "sorted_wrt (\<lambda>x y. cmp x y < 0) (lows cmp d ds @ highs cmp d ds)" using srt by simp
  then have "x = y \<or> cmp y x < 0" using xh y by (auto simp: sorted_wrt_append simp del: lows_highs)
  moreover have "\<not> cmp y d < 0" using highs_ge [OF ok srt, of y d] y by simp
  ultimately have "x = y" using cmp_less_le_trans [OF ok, of y x d] x(2) by auto
  with y x(2) show "\<exists>x hs. highs cmp d ds = x # hs \<and> cmp x d = 0" by blast
next
  assume "\<exists>x hs. highs cmp d ds = x # hs \<and> cmp x d = 0"
  then show "\<exists>x \<in> set ds. cmp x d = 0" using highs_mem [of _ cmp d ds] by auto
qed

lemma lows_filter:
  assumes ok: "compare_ok cmp" and srt: "sorted_wrt (\<lambda>x y. cmp x y < 0) ds"
  shows "lows cmp d ds = filter (\<lambda>x. cmp x d < 0) ds" and "highs cmp d ds = filter (\<lambda>x. \<not> cmp x d < 0) ds"
proof -
  have "filter (\<lambda>x. cmp x d < 0) (lows cmp d ds @ highs cmp d ds) = lows cmp d ds"
    using lows_less [of _ cmp d ds] highs_ge [OF ok srt, of _ d]
    by (simp add: filter_id_conv filter_empty_conv del: lows_highs)
  then show "lows cmp d ds = filter (\<lambda>x. cmp x d < 0) ds" by simp
  have "filter (\<lambda>x. \<not> cmp x d < 0) (lows cmp d ds @ highs cmp d ds) = highs cmp d ds"
    using lows_less [of _ cmp d ds] highs_ge [OF ok srt, of _ d]
    by (auto simp: filter_id_conv filter_empty_conv simp del: lows_highs)
  then show "highs cmp d ds = filter (\<lambda>x. \<not> cmp x d < 0) ds" by simp
qed

text \<open>Dropping the head of the upper part is removing the element equal to \<open>d\<close>.\<close>

lemma filter_equal:
  assumes ok: "compare_ok cmp" and srt: "sorted_wrt (\<lambda>x y. cmp x y < 0) ds" and h: "highs cmp d ds = x # hs" "cmp x d = 0"
  shows "filter (\<lambda>y. cmp y d \<noteq> 0) ds = lows cmp d ds @ hs"
proof -
  have s: "sorted_wrt (\<lambda>x y. cmp x y < 0) (lows cmp d ds @ x # hs)" using srt h(1) by (metis lows_highs)
  have "cmp y d \<noteq> 0" if "y \<in> set hs" for y
  proof -
    have "cmp x y < 0" using s that by (simp add: sorted_wrt_append)
    then have "0 < cmp y x" using cmp_sign(1) [OF ok] by blast
    then show ?thesis using cmp_le_trans [OF ok, of y d x] cmp_sign(2) [OF ok, of x d] h(2) by auto
  qed
  then have "filter (\<lambda>y. cmp y d \<noteq> 0) (lows cmp d ds @ x # hs) = lows cmp d ds @ hs"
    using lows_less [of _ cmp d ds] h(2) by (fastforce simp: filter_id_conv)
  then show ?thesis using h(1) by (metis lows_highs)
qed

lemma sorted_filter: "sorted_wrt P ds \<Longrightarrow> sorted_wrt P (filter Q ds)"
  by (rule sorted_wrt_filter)


section \<open>Removal\<close>

lemma rel_sorted: "sl_rel cmp sl ds \<Longrightarrow> sorted_wrt (\<lambda>x y. cmp x y < 0) ds \<and> sl_length sl = int (length ds)"
  by (auto simp: sl_rel_def)

lemma delete_node_spec:
  assumes ch: "chain (sl_store sl) (sl_level sl) (ys @ x # zs)"
    and pr: "\<forall>i < sl_level sl. pred_at (ht (sl_store sl)) (0 # ys) i (upd ! i)"
  shows "\<exists>sl'. delete_node x upd sl = Inr sl' \<and> chain (sl_store sl') (sl_level sl') (ys @ zs)
    \<and> (\<forall>a. n_data (sl_store sl' ! a) = n_data (sl_store sl ! a)) \<and> sl_length sl' = sl_length sl - 1"
proof -
  let ?st = "sl_store sl" and ?L = "sl_level sl"
  note c = chainD [OF ch]
  have u: "\<forall>i < ?L. fst (upd ! i) < length ?st \<and> i < ht ?st (fst (upd ! i))"
  proof (intro allI impI)
    fix i assume "i < ?L"
    from pred_at_mem [OF pr [rule_format, OF this]] c(2)
    show "fst (upd ! i) < length ?st \<and> i < ht ?st (fst (upd ! i))" by auto
  qed
  have x: "x < length ?st" using c(2) by simp
  have nx: "\<forall>i < ?L. lv_next (lv ?st (fst (upd ! i)) i) = Some x \<longrightarrow> i < ht ?st x"
  proof (intro allI impI)
    fix i assume i: "i < ?L" and n: "lv_next (lv ?st (fst (upd ! i)) i) = Some x"
    obtain p w where pw: "0 # ys = p @ fst (upd ! i) # w" "i < ht ?st (fst (upd ! i))"
      using pr i by (auto simp: pred_at_def)
    have e: "lv ?st (fst (upd ! i)) i = next_from (ht ?st) i (w @ x # zs)"
      by (rule links_in [OF _ pw(1) i pw(2)]) (use c(7) in simp)
    show "i < ht ?st x"
      by (cases rule: next_from_cases [of "w @ x # zs" "ht ?st" i]) (use n e in auto)
  qed
  obtain st' where r: "go_for (unlink_level x upd) [0 ..< ?L] ?st = Inr st'" "same_shape ?st st'" "chain st' ?L (ys @ zs)"
    using unlink_rounds [OF u x nx] chain_unlink [OF ch pr] by blast
  from chain_lower [OF r(3)] obtain L' where L': "lower st' ?L = Inr L'" "chain st' L' (ys @ zs)" by blast
  have "delete_node x upd sl = Inr (sl\<lparr>sl_store := st', sl_level := L', sl_length := sl_length sl - 1\<rparr>)"
    unfolding delete_node_def r(1) go_bind_Inr L'(1) ..
  then show ?thesis using L'(2) r(2) by (auto simp: same_shape_def)
qed

lemma next_zs: "chain st L (ys @ zs) \<Longrightarrow> lv_next (next_from (ht st) 0 zs) = (case zs of [] \<Rightarrow> None | z # _ \<Rightarrow> Some z)"
  using chainD(4) [of st L "ys @ zs"] by (cases zs) auto

lemma delete_rel:
  assumes ok: "compare_ok cmp" and rel: "sl_rel cmp sl ds"
    and ch: "chain (sl_store sl) (sl_level sl) (ys @ x # zs)"
    and pr: "\<forall>i < sl_level sl. pred_at (ht (sl_store sl)) (0 # ys) i (upd ! i)"
    and ds: "map (\<lambda>a. n_data (sl_store sl ! a)) ys = lows cmp d ds"
      "map (\<lambda>a. n_data (sl_store sl ! a)) (x # zs) = highs cmp d ds" and eq: "cmp (n_data (sl_store sl ! x)) d = 0"
  shows "\<exists>sl'. delete_node x upd sl = Inr sl' \<and> sl_rel cmp sl' (filter (\<lambda>y. cmp y d \<noteq> 0) ds)"
proof -
  note srt = rel_sorted [OF rel]
  obtain sl' where d: "delete_node x upd sl = Inr sl'" "chain (sl_store sl') (sl_level sl') (ys @ zs)"
      "\<forall>a. n_data (sl_store sl' ! a) = n_data (sl_store sl ! a)" "sl_length sl' = sl_length sl - 1"
    using delete_node_spec [OF ch pr] by blast
  have h: "highs cmp d ds = n_data (sl_store sl ! x) # map (\<lambda>a. n_data (sl_store sl ! a)) zs" using ds(2) by simp
  have f: "filter (\<lambda>y. cmp y d \<noteq> 0) ds = lows cmp d ds @ map (\<lambda>a. n_data (sl_store sl ! a)) zs"
    by (rule filter_equal [OF ok conjunct1 [OF srt] h eq])
  have "map (\<lambda>a. n_data (sl_store sl' ! a)) (ys @ zs) = filter (\<lambda>y. cmp y d \<noteq> 0) ds"
    unfolding f using d(3) ds(1) by simp
  moreover have "sl_length sl' = int (length (ys @ zs))"
    using d(4) srt length_lows_highs [of cmp d ds] arg_cong [OF ds(1), of length] arg_cong [OF ds(2), of length] by simp
  ultimately have "sl_rel cmp sl' (filter (\<lambda>y. cmp y d \<noteq> 0) ds)"
    unfolding sl_rel_def using d(2) sorted_filter [OF conjunct1 [OF srt]] by (intro exI [of _ "ys @ zs"]) auto
  with d(1) show ?thesis by blast
qed

lemma Remove_spec:
  assumes ok: "compare_ok cmp" and rel: "sl_rel cmp sl ds"
  shows "\<exists>sl'. Remove cmp d sl = Inr (\<exists>x \<in> set ds. cmp x d = 0, sl') \<and> sl_rel cmp sl' (filter (\<lambda>y. cmp y d \<noteq> 0) ds)"
proof -
  let ?st = "sl_store sl"
  note srt = conjunct1 [OF rel_sorted [OF rel]]
  obtain ys zs upd where s: "chain ?st (sl_level sl) (ys @ zs)" "map (\<lambda>a. n_data (?st ! a)) ys = lows cmp d ds"
      "map (\<lambda>a. n_data (?st ! a)) zs = highs cmp d ds" "search_data cmp d sl = Inr (last (0 # ys), int (length ys), upd)"
      "\<forall>i < sl_level sl. pred_at (ht ?st) (0 # ys) i (upd ! i)"
      "level_at ?st (last (0 # ys)) 0 = Inr (next_from (ht ?st) 0 zs)"
    by (rule rel_search [OF ok rel, of d])
  note nz = next_zs [OF s(1)]
  show ?thesis
  proof (cases "\<exists>x \<in> set ds. cmp x d = 0")
    case True
    then obtain y hs where y: "highs cmp d ds = y # hs" "cmp y d = 0" using found_iff [OF ok srt] by blast
    then obtain x zs' where x: "zs = x # zs'" "n_data (?st ! x) = y" using s(3) by (cases zs) auto
    obtain sl' where "delete_node x upd sl = Inr sl'" "sl_rel cmp sl' (filter (\<lambda>y. cmp y d \<noteq> 0) ds)"
      using delete_rel [OF ok rel, of ys x zs' upd d] s x y by auto
    then show ?thesis
      unfolding Remove_def s(4) go_bind_Inr case_prod_conv s(6) nz using True x y by auto
  next
    case False
    have "filter (\<lambda>y. cmp y d \<noteq> 0) ds = ds" using False by (simp add: filter_id_conv)
    moreover have "Remove cmp d sl = Inr (False, sl)"
    proof (cases zs)
      case Nil
      then show ?thesis unfolding Remove_def s(4) go_bind_Inr case_prod_conv s(6) nz by simp
    next
      case (Cons x zs')
      then have "n_data (?st ! x) \<in> set (highs cmp d ds)" unfolding s(3) [symmetric] by simp
      then have "cmp (n_data (?st ! x)) d \<noteq> 0" using False highs_mem by metis
      then show ?thesis unfolding Remove_def s(4) go_bind_Inr case_prod_conv s(6) nz using Cons by simp
    qed
    ultimately show ?thesis using False rel by simp
  qed
qed


section \<open>Queries\<close>

lemma query_spec:
  assumes ok: "compare_ok cmp" and rel: "sl_rel cmp sl ds"
  shows "Contains cmp d sl = Inr (\<exists>x \<in> set ds. cmp x d = 0)"
    and "SkipList_GetRank cmp d sl = Inr (if \<exists>x \<in> set ds. cmp x d = 0 then int (length (lows cmp d ds)) + 1 else -1)"
proof -
  let ?st = "sl_store sl"
  note srt = conjunct1 [OF rel_sorted [OF rel]]
  obtain ys zs upd where s: "chain ?st (sl_level sl) (ys @ zs)" "map (\<lambda>a. n_data (?st ! a)) ys = lows cmp d ds"
      "map (\<lambda>a. n_data (?st ! a)) zs = highs cmp d ds" "search_data cmp d sl = Inr (last (0 # ys), int (length ys), upd)"
      "level_at ?st (last (0 # ys)) 0 = Inr (next_from (ht ?st) 0 zs)"
    by (rule rel_search [OF ok rel, of d])
  note nz = next_zs [OF s(1)]
  have ly: "length ys = length (lows cmp d ds)" using arg_cong [OF s(2), of length] by simp
  have f: "(\<exists>x \<in> set ds. cmp x d = 0) \<longleftrightarrow> (case zs of [] \<Rightarrow> False | z # _ \<Rightarrow> cmp (n_data (?st ! z)) d = 0)"
    unfolding found_iff [OF ok srt] s(3) [symmetric] by (cases zs) auto
  show "Contains cmp d sl = Inr (\<exists>x \<in> set ds. cmp x d = 0)"
    unfolding f Contains_def s(4) go_bind_Inr case_prod_conv s(5) nz by (cases zs) simp_all
  show "SkipList_GetRank cmp d sl = Inr (if \<exists>x \<in> set ds. cmp x d = 0 then int (length (lows cmp d ds)) + 1 else -1)"
    unfolding f SkipList_GetRank_def s(4) go_bind_Inr case_prod_conv s(5) nz ly by (cases zs) simp_all
qed

lemma getNode_loop_spec:
  assumes ch: "chain st L (ys @ zs)" and "n \<le> L" and "0 # ys = p @ x # u" and "n \<le> ht st x"
    and go: "\<forall>v y w. ys @ zs = v @ y # w \<longrightarrow> (int (length v) + 1 \<le> rank) = (length v < length ys)"
    and rk: "rank = int (length ys) \<or> rank < 0 \<or> int (length ys) < rank"
  shows "getNode_loop rank st n x (int (length p)) = Inr (if 0 < n \<and> rank = int (length ys) then Some (last (0 # ys)) else None)"
  using assms(2-4)
proof (induction n arbitrary: x p u)
  case (Suc n)
  have "n < L" "n < ht st x" using Suc.prems by simp_all
  then obtain q y w where w: "0 # ys = q @ y # w"
      "walk (length st) (\<lambda>y v. v \<le> rank) n st x (int (length p)) = Inr (y, int (length q))"
      "n < ht st y" "\<forall>a \<in> set w. ht st a \<le> n"
    by (rule walk_chain [OF ch _ _ Suc.prems(2) go])
  have len: "length ys = length q + length w" using arg_cong [OF w(1), of length] by simp
  have step: "getNode_loop rank st (Suc n) x (int (length p)) =
      (if int (length q) = rank then Inr (Some y) else getNode_loop rank st n y (int (length q)))"
    using w(2) by simp
  show ?case
  proof (cases "w = []")
    case True
    then have "y = last (0 # ys)" "length q = length ys" using w(1) len by (metis last_snoc, simp)
    moreover have "getNode_loop rank st n y (int (length q)) = Inr (if 0 < n \<and> rank = int (length ys) then Some (last (0 # ys)) else None)"
      by (rule Suc.IH [OF _ w(1)]) (use Suc.prems(1) w(3) in simp_all)
    ultimately show ?thesis unfolding step by auto
  next
    case False
    then have "int (length q) \<noteq> rank" using rk len by (cases w) auto
    moreover have "0 < n"
    proof (rule ccontr)
      assume "\<not> 0 < n"
      then have "ht st (hd w) \<le> 0" using w(4) False by simp
      moreover have "hd w \<in> set ys" using w(1) False by (cases q; cases w) auto
      then have "1 \<le> ht st (hd w)" using chainD(4) [OF ch] by simp
      ultimately show False by simp
    qed
    moreover have "getNode_loop rank st n y (int (length q)) = Inr (if 0 < n \<and> rank = int (length ys) then Some (last (0 # ys)) else None)"
      by (rule Suc.IH [OF _ w(1)]) (use Suc.prems(1) w(3) in simp_all)
    ultimately show ?thesis unfolding step by simp
  qed
qed simp

lemma getNodeByRank_spec:
  assumes ch: "chain (sl_store sl) (sl_level sl) xs"
  shows "getNodeByRank rank sl = Inr (if 0 \<le> rank \<and> rank \<le> int (length xs) then Some ((0 # xs) ! nat rank) else None)"
proof -
  define m where "m = min (nat rank) (length xs)"
  let ?ys = "take m xs" and ?zs = "drop m xs"
  note c = chainD [OF ch]
  have ch': "chain (sl_store sl) (sl_level sl) (?ys @ ?zs)" using ch by simp
  have lm: "length ?ys = m" by (simp add: m_def)
  have go: "\<forall>v y w. ?ys @ ?zs = v @ y # w \<longrightarrow> (int (length v) + 1 \<le> rank) = (length v < length ?ys)"
  proof (intro allI impI)
    fix v y w assume "?ys @ ?zs = v @ y # w"
    then have "length v < length xs" using arg_cong [of "?ys @ ?zs" _ length] by fastforce
    then show "(int (length v) + 1 \<le> rank) = (length v < length ?ys)" unfolding lm unfolding m_def by linarith
  qed
  have rk: "rank = int (length ?ys) \<or> rank < 0 \<or> int (length ?ys) < rank" unfolding lm unfolding m_def by linarith
  have "getNode_loop rank (sl_store sl) (sl_level sl) 0 (int (length ([] :: nat list))) =
      Inr (if 0 < sl_level sl \<and> rank = int (length ?ys) then Some (last (0 # ?ys)) else None)"
    by (rule getNode_loop_spec [OF ch' order_refl _ _ go rk, of "[]" 0 ?ys]) (use c(3,6) in simp_all)
  moreover have "rank = int (length ?ys) \<longleftrightarrow> 0 \<le> rank \<and> rank \<le> int (length xs)" unfolding lm unfolding m_def by linarith
  moreover have "last (0 # ?ys) = (0 # xs) ! nat rank" if "0 \<le> rank" "rank \<le> int (length xs)"
  proof -
    have "m = nat rank" "m \<le> length xs" using that by (simp_all add: m_def)
    moreover have "last (0 # take k xs) = (0 # xs) ! k" if "k \<le> length xs" for k
      using that by (cases k) (simp_all add: take_Suc_conv_app_nth)
    ultimately show ?thesis by metis
  qed
  ultimately show ?thesis using c(5) by (simp add: getNodeByRank_def)
qed

text \<open>The loops along level 0.\<close>

lemma next_level0:
  assumes ch: "chain st L xs" and s: "0 # xs = p @ y # w"
  shows "level_at st y 0 = Inr (next_from (ht st) 0 w)"
    and "lv_next (next_from (ht st) 0 w) = (case w of [] \<Rightarrow> None | z # _ \<Rightarrow> Some z)"
proof -
  note c = chainD [OF ch]
  have h: "a < length st \<and> 0 < ht st a" if "a \<in> set (0 # xs)" for a
    using c(2,3,4) that by (auto simp: maxLevel_def Suc_le_eq simp del: length_greater_0_conv)
  have y: "y \<in> set (0 # xs)" "set w \<subseteq> set (0 # xs)" using arg_cong [OF s, of set] by auto
  have "lv st y 0 = next_from (ht st) 0 w"
    by (rule links_at [OF c(7) [unfolded s]]) (use c(5) h y in simp_all)
  then show "level_at st y 0 = Inr (next_from (ht st) 0 w)" using h [OF y(1)] by (simp add: level_at_eq)
  show "lv_next (next_from (ht st) 0 w) = (case w of [] \<Rightarrow> None | z # _ \<Rightarrow> Some z)"
    using h y(2) by (cases w) auto
qed

lemma collect_spec:
  assumes ch: "chain st L xs"
  shows "0 # xs = p @ w \<Longrightarrow> length w < fuel \<Longrightarrow>
    collect fuel st mn mx (case w of [] \<Rightarrow> None | y # _ \<Rightarrow> Some y) res =
      Inr (res @ map (\<lambda>a. n_data (st ! a)) (take (nat (mx - mn + 1)) w))"
proof (induction w arbitrary: p fuel mn res)
  case Nil
  then show ?case by (cases fuel) simp_all
next
  case (Cons y w)
  then obtain f where f: "fuel = Suc f" by (cases fuel) auto
  show ?case
  proof (cases "mn \<le> mx")
    case True
    then have "nat (mx - mn + 1) = Suc (nat (mx - (mn + 1) + 1))" by simp
    then show ?thesis
      using Cons.IH [of "p @ [y]" f "mn + 1" "res @ [n_data (st ! y)]"] Cons.prems True next_level0 [OF ch Cons.prems(1)]
      by (simp add: f)
  qed (simp add: f)
qed

fun foreach_list :: "('a \<Rightarrow> int \<Rightarrow> 's \<Rightarrow> 's \<times> bool) \<Rightarrow> 'a list \<Rightarrow> int \<Rightarrow> 's \<Rightarrow> 's" where
  "foreach_list f [] r s = s"
| "foreach_list f (x # xs) r s = (case f x r s of (s', c) \<Rightarrow> if c then foreach_list f xs (r + 1) s' else s')"

lemma foreach_loop_spec:
  assumes ch: "chain st L xs"
  shows "0 # xs = p @ w \<Longrightarrow> length w < fuel \<Longrightarrow>
    foreach_loop fuel f st (case w of [] \<Rightarrow> None | y # _ \<Rightarrow> Some y) r s =
      Inr (foreach_list f (map (\<lambda>a. n_data (st ! a)) w) r s)"
proof (induction w arbitrary: p fuel r s)
  case Nil
  then show ?case by (cases fuel) simp_all
next
  case (Cons y w)
  then obtain g where g: "fuel = Suc g" by (cases fuel) auto
  show ?case
    using Cons.IH [of "p @ [y]" g] Cons.prems next_level0 [OF ch Cons.prems(1)]
    by (auto simp: g split: prod.split)
qed

lemma chain_fuel: "chain st L xs \<Longrightarrow> length (0 # xs) \<le> length st"
proof -
  assume "chain st L xs"
  then have "distinct (0 # xs)" "set (0 # xs) \<subseteq> {..<length st}" by (auto simp: chain_def)
  then show ?thesis by (metis card_lessThan card_mono distinct_card finite_lessThan)
qed

lemma SearchByRank_spec:
  assumes "sl_rel cmp sl ds" and "rank \<noteq> 0"
  shows "SearchByRank zero rank sl =
    Inr (if 1 \<le> rank \<and> rank \<le> int (length ds) then (ds ! (nat rank - 1), True) else (zero, False))"
proof -
  obtain xs where xs: "chain (sl_store sl) (sl_level sl) xs" "ds = map (\<lambda>a. n_data (sl_store sl ! a)) xs"
    using assms(1) by (auto simp: sl_rel_def)
  show ?thesis
    using assms(2) xs(2)
    by (auto simp: SearchByRank_def getNodeByRank_spec [OF xs(1)] nth_Cons' nat_less_iff)
qed

lemma SearchByRankRange_spec:
  assumes "sl_rel cmp sl ds" and "1 \<le> mn"
  shows "SearchByRankRange mn mx sl =
    Inr (if mn \<le> int (length ds) then Some (take (nat (mx - mn + 1)) (drop (nat mn - 1) ds)) else None)"
proof -
  obtain xs where xs: "chain (sl_store sl) (sl_level sl) xs" "ds = map (\<lambda>a. n_data (sl_store sl ! a)) xs"
    using assms(1) by (auto simp: sl_rel_def)
  show ?thesis
  proof (cases "mn \<le> int (length ds)")
    case False
    then show ?thesis using xs(2) by (simp add: SearchByRankRange_def getNodeByRank_spec [OF xs(1)])
  next
    case True
    let ?m = "nat mn - 1" and ?st = "sl_store sl"
    have m: "nat mn = Suc ?m" "?m < length xs" using True assms(2) xs(2) by auto
    have sp: "0 # xs = (0 # take ?m xs) @ drop ?m xs" by simp
    have d: "drop ?m xs = xs ! ?m # drop (Suc ?m) xs" using m(2) by (simp add: Cons_nth_drop_Suc)
    have "length (drop ?m xs) < Suc (length ?st)" using chain_fuel [OF xs(1)] by simp
    from collect_spec [OF xs(1) sp this, of mn mx "[]"]
    have "collect (Suc (length ?st)) ?st mn mx (Some (xs ! ?m)) [] =
        Inr (map (\<lambda>a. n_data (?st ! a)) (take (nat (mx - mn + 1)) (drop ?m xs)))"
      unfolding d by simp
    moreover have "getNodeByRank mn sl = Inr (Some (xs ! ?m))"
      using True assms(2) xs(2) m(1) by (simp add: getNodeByRank_spec [OF xs(1)])
    ultimately show ?thesis
      using True xs(2) by (simp add: SearchByRankRange_def take_map drop_map del: collect.simps)
  qed
qed

lemma Foreach_spec:
  assumes "sl_rel cmp sl ds"
  shows "SkipList_Foreach f sl s = Inr (foreach_list f ds 1 s)"
proof -
  obtain xs where xs: "chain (sl_store sl) (sl_level sl) xs" "ds = map (\<lambda>a. n_data (sl_store sl ! a)) xs"
    using assms by (auto simp: sl_rel_def)
  have "length xs < Suc (length (sl_store sl))" using chain_fuel [OF xs(1)] by simp
  from foreach_loop_spec [OF xs(1) _ this, of "[0]" f 1 s]
  show ?thesis
    using next_level0 [OF xs(1), of "[]" 0 xs] xs(2) by (simp add: SkipList_Foreach_def del: foreach_loop.simps)
qed

lemma clear_rounds:
  assumes "0 < length st" and "n \<le> ht st 0"
  shows "\<exists>st'. go_for clear_level [0 ..< n] st = Inr st' \<and> same_shape st st'
    \<and> (\<forall>a j. lv st' a j = (if 0 \<le> j \<and> j < n then if a = 0 then \<lparr>lv_next = None, lv_span = 0\<rparr> else lv st a j else lv st a j))"
proof (rule level_rounds)
  fix i st' assume i: "0 \<le> i" "i < n" and sh: "same_shape st st'" and l: "\<forall>a. lv st' a i = lv st a i"
  have "0 < length st'" "i < ht st' 0" using assms i sh by (simp_all add: same_shape_def)
  then show "\<exists>st''. clear_level i st' = Inr st'' \<and> same_shape st st''
      \<and> (\<forall>a j. lv st'' a j = (if j = i then if a = 0 then \<lparr>lv_next = None, lv_span = 0\<rparr> else lv st a i else lv st' a j))"
    using l same_shape_trans [OF sh set_level_shape]
    by (simp add: clear_level_def level_at_eq set_level_lv)
qed

lemma Clear_spec:
  assumes "sl_rel cmp sl ds"
  shows "\<exists>sl'. SkipList_Clear sl = Inr sl' \<and> sl_rel cmp sl' []"
proof -
  obtain xs where xs: "chain (sl_store sl) (sl_level sl) xs" using assms by (auto simp: sl_rel_def)
  note c = chainD [OF xs]
  obtain st where st: "go_for clear_level [0 ..< maxLevel] (sl_store sl) = Inr st" "same_shape (sl_store sl) st"
      "\<forall>a j. lv st a j = (if 0 \<le> j \<and> j < maxLevel then if a = 0 then \<lparr>lv_next = None, lv_span = 0\<rparr> else lv (sl_store sl) a j
        else lv (sl_store sl) a j)"
    using clear_rounds [of "sl_store sl" maxLevel] c(2,3) by auto
  have "chain st 1 []"
    using c(2,3) st(2,3) by (auto simp: chain_def links_def Cons_eq_append_conv same_shape_def maxLevel_def)
  then show ?thesis using st(1) by (simp add: SkipList_Clear_def sl_rel_def)
qed


section \<open>Update\<close>

definition insert_sorted :: "'a compare \<Rightarrow> 'a \<Rightarrow> 'a list \<Rightarrow> 'a list" where
  "insert_sorted cmp d ds = lows cmp d ds @ d # highs cmp d ds"

lemma insert_sorted_at:
  assumes "\<forall>x \<in> set as. cmp x d < 0" and "\<forall>x \<in> set bs. \<not> cmp x d < 0"
  shows "lows cmp d (as @ bs) = as" and "insert_sorted cmp d (as @ bs) = as @ d # bs"
proof -
  have "takeWhile (\<lambda>x. cmp x d < 0) bs = []" "dropWhile (\<lambda>x. cmp x d < 0) bs = bs"
    using assms(2) by (cases bs; auto)+
  then show "lows cmp d (as @ bs) = as" "insert_sorted cmp d (as @ bs) = as @ d # bs"
    using assms(1) by (auto simp: lows_def highs_def insert_sorted_def)
qed

lemma chain_data: "chain st L xs \<Longrightarrow> x < length st \<Longrightarrow> chain (st[x := (st ! x)\<lparr>n_data := d\<rparr>]) L xs"
proof -
  assume ch: "chain st L xs" and x: "x < length st"
  let ?st = "st[x := (st ! x)\<lparr>n_data := d\<rparr>]"
  have "n_level (?st ! a) = n_level (st ! a)" for a using x by (simp add: nth_list_update)
  then show ?thesis using ch by (simp add: chain_def links_def)
qed

lemma Update_in_place:
  assumes ok: "compare_ok cmp" and rel: "sl_rel cmp sl ds"
    and ch: "chain (sl_store sl) (sl_level sl) (ys @ x # zs)"
    and ds: "map (\<lambda>a. n_data (sl_store sl ! a)) ys = lows cmp old ds"
      "map (\<lambda>a. n_data (sl_store sl ! a)) (x # zs) = highs cmp old ds"
    and lo: "\<forall>y \<in> set (lows cmp old ds). cmp y d < 0" and hi: "\<forall>a \<in> set zs. 0 < cmp (n_data (sl_store sl ! a)) d"
  shows "sl_rel cmp (sl\<lparr>sl_store := (sl_store sl)[x := (sl_store sl ! x)\<lparr>n_data := d\<rparr>]\<rparr>)
    (lows cmp old ds @ d # map (\<lambda>a. n_data (sl_store sl ! a)) zs)"
proof -
  let ?st = "(sl_store sl)[x := (sl_store sl ! x)\<lparr>n_data := d\<rparr>]"
  note c = chainD [OF ch]
  have x: "x < length (sl_store sl)" "x \<notin> set ys" "x \<notin> set zs" using c(1,2) by auto
  have dat: "n_data (?st ! a) = (if a = x then d else n_data (sl_store sl ! a))" for a
    using x(1) by (simp add: nth_list_update)
  have "map (\<lambda>a. n_data (?st ! a)) (ys @ x # zs) = lows cmp old ds @ d # map (\<lambda>a. n_data (sl_store sl ! a)) zs"
    using x(2,3) by (auto simp: dat ds(1) [symmetric])
  moreover have "sorted_wrt (\<lambda>x y. cmp x y < 0) (lows cmp old ds @ d # map (\<lambda>a. n_data (sl_store sl ! a)) zs)"
  proof -
    have "sorted_wrt (\<lambda>x y. cmp x y < 0) (lows cmp old ds @ highs cmp old ds)" using rel_sorted [OF rel] by simp
    then have "sorted_wrt (\<lambda>x y. cmp x y < 0) (lows cmp old ds @ n_data (sl_store sl ! x) # map (\<lambda>a. n_data (sl_store sl ! a)) zs)"
      unfolding ds(2) [symmetric] by simp
    moreover have "cmp d (n_data (sl_store sl ! a)) < 0" if "a \<in> set zs" for a
      using hi that cmp_sign(1) [OF ok] by blast
    ultimately show ?thesis using lo by (auto simp: sorted_wrt_append)
  qed
  moreover have "length (ys @ x # zs) = length ds"
    using length_lows_highs [of cmp old ds] arg_cong [OF ds(1), of length] arg_cong [OF ds(2), of length] by simp
  ultimately show ?thesis
    unfolding sl_rel_def using chain_data [OF ch x(1)] rel_sorted [OF rel] by (intro exI [of _ "ys @ x # zs"]) auto
qed

lemma sorted_last_low:
  assumes ok: "compare_ok cmp" and srt: "sorted_wrt (\<lambda>x y. cmp x y < 0) xs" and "xs \<noteq> []" and "cmp (last xs) d < 0" and "y \<in> set xs"
  shows "cmp y d < 0"
proof -
  obtain as b where xs: "xs = as @ [b]" using assms(3) by (metis rev_exhaust)
  then have "y = b \<or> cmp y b < 0" using srt assms(5) by (auto simp: sorted_wrt_append)
  then show ?thesis using assms(4) xs cmp_less_le_trans [OF ok, of y b d] by auto
qed

lemma SkipList_Update_spec:
  assumes ok: "compare_ok cmp" and rel: "sl_rel cmp sl ds" and old: "\<exists>x \<in> set ds. cmp x old = 0"
    and new: "\<forall>y \<in> set ds. cmp y old \<noteq> 0 \<longrightarrow> cmp y d \<noteq> 0"
  shows "\<exists>r sl'. SkipList_Update cmp old d sl = Inr (r, sl')
    \<and> sl_rel cmp sl' (insert_sorted cmp d (filter (\<lambda>y. cmp y old \<noteq> 0) ds))
    \<and> (r = 0 \<and> lows cmp d (filter (\<lambda>y. cmp y old \<noteq> 0) ds) = lows cmp old ds
       \<or> r = int (length (lows cmp d (filter (\<lambda>y. cmp y old \<noteq> 0) ds))) + 1)"
proof -
  let ?st = "sl_store sl" and ?f = "filter (\<lambda>y. cmp y old \<noteq> 0) ds" and ?dat = "\<lambda>a. n_data (sl_store sl ! a)"
  note srt = conjunct1 [OF rel_sorted [OF rel]]
  obtain ys zs upd where s: "chain ?st (sl_level sl) (ys @ zs)" "map ?dat ys = lows cmp old ds"
      "map ?dat zs = highs cmp old ds" "search_data cmp old sl = Inr (last (0 # ys), int (length ys), upd)"
      "\<forall>i < sl_level sl. pred_at (ht ?st) (0 # ys) i (upd ! i)"
      "level_at ?st (last (0 # ys)) 0 = Inr (next_from (ht ?st) 0 zs)"
    by (rule rel_search [OF ok rel, of old])
  obtain y hs where y: "highs cmp old ds = y # hs" "cmp y old = 0" using old found_iff [OF ok srt] by blast
  then obtain x zs' where x: "zs = x # zs'" "?dat x = y" "map ?dat zs' = hs" using s(3) by (cases zs) auto
  have f: "?f = lows cmp old ds @ hs" by (rule filter_equal [OF ok srt y])
  have sf: "sorted_wrt (\<lambda>x y. cmp x y < 0) (lows cmp old ds @ hs)" using sorted_filter [OF srt] f by metis
  have ch: "chain ?st (sl_level sl) (ys @ x # zs')" using s(1) x by simp
  note c = chainD [OF ch]
  have nx: "lv_next (next_from (ht ?st) 0 zs) = Some x" using next_zs [OF s(1)] x by simp
  have lx: "level_at ?st x 0 = Inr (next_from (ht ?st) 0 zs')"
    and nx': "lv_next (next_from (ht ?st) 0 zs') = (case zs' of [] \<Rightarrow> None | z # _ \<Rightarrow> Some z)"
    using next_level0 [OF ch, of "0 # ys" x zs'] by simp_all
  define keep where "keep \<longleftrightarrow> (last (0 # ys) = 0 \<or> cmp (?dat (last (0 # ys))) d < 0)
      \<and> (case zs' of [] \<Rightarrow> True | z # _ \<Rightarrow> 0 < cmp (?dat z) d)"
  have run: "SkipList_Update cmp old d sl =
      (if keep then Inr (0, sl\<lparr>sl_store := ?st[x := (?st ! x)\<lparr>n_data := d\<rparr>]\<rparr>)
       else go_bind (delete_node x upd sl) (Insert cmp d))"
    unfolding SkipList_Update_def s(4) go_bind_Inr case_prod_conv s(6) nx Let_def option.case lx nx' keep_def
    by (cases zs') simp_all
  show ?thesis
  proof (cases keep)
    case False
    obtain sl1 where d1: "delete_node x upd sl = Inr sl1" "sl_rel cmp sl1 ?f"
      using delete_rel [OF ok rel ch s(5), of old] s(2,3) x(1,2) y(2) by auto
    have "\<forall>y \<in> set ?f. cmp y d \<noteq> 0" using new by simp
    from Insert_spec [OF ok d1(2) this] obtain sl2 where
      "Insert cmp d sl1 = Inr (int (length (lows cmp d ?f)) + 1, sl2)" "sl_rel cmp sl2 (insert_sorted cmp d ?f)"
      unfolding insert_sorted_def by blast
    then show ?thesis using run False d1(1) by simp
  next
    case True
    have lo: "\<forall>z \<in> set (lows cmp old ds). cmp z d < 0"
    proof
      fix z assume z: "z \<in> set (lows cmp old ds)"
      then have ne: "lows cmp old ds \<noteq> []" "ys \<noteq> []" using s(2) by auto
      have "0 \<notin> set ys" using c(1) by simp
      then have "last (0 # ys) \<noteq> 0" using last_in_set [OF ne(2)] ne(2) by (metis last_ConsR)
      then have "cmp (last (lows cmp old ds)) d < 0" using True ne unfolding keep_def s(2) [symmetric] by (simp add: last_map)
      moreover have "sorted_wrt (\<lambda>x y. cmp x y < 0) (lows cmp old ds)" using sf by (simp add: sorted_wrt_append)
      ultimately show "cmp z d < 0" using sorted_last_low [OF ok _ ne(1)] z by blast
    qed
    have hi: "\<forall>a \<in> set zs'. 0 < cmp (?dat a) d"
    proof
      fix a assume a: "a \<in> set zs'"
      then obtain z zz where z: "zs' = z # zz" by (cases zs') auto
      then have zd: "cmp d (?dat z) < 0" using True cmp_sign(1) [OF ok] unfolding keep_def by simp
      have "sorted_wrt (\<lambda>x y. cmp x y < 0) (?dat z # map ?dat zz)" using sf x(3) z by (auto simp: sorted_wrt_append)
      then have "a = z \<or> cmp (?dat z) (?dat a) < 0" using a z by auto
      then have "cmp d (?dat a) < 0" using zd cmp_less_le_trans [OF ok zd] by auto
      then show "0 < cmp (?dat a) d" using cmp_sign(1) [OF ok] by blast
    qed
    have "sl_rel cmp (sl\<lparr>sl_store := ?st[x := (?st ! x)\<lparr>n_data := d\<rparr>]\<rparr>) (lows cmp old ds @ d # map ?dat zs')"
      by (rule Update_in_place [OF ok rel ch s(2) _ lo hi]) (use s(3) x in simp)
    moreover have hh: "\<forall>z \<in> set hs. \<not> cmp z d < 0" unfolding x(3) [symmetric] using hi by fastforce
    note ia = insert_sorted_at [where cmp = cmp and d = d, OF lo hh]
    ultimately show ?thesis using run True x(3) f ia by simp
  qed
qed

lemma SkipList_Update_absent:
  assumes ok: "compare_ok cmp" and rel: "sl_rel cmp sl ds" and "highs cmp old ds = []"
  shows "SkipList_Update cmp old d sl = Inl NilDeref"
proof -
  obtain ys zs upd where s: "chain (sl_store sl) (sl_level sl) (ys @ zs)"
      "map (\<lambda>a. n_data (sl_store sl ! a)) zs = highs cmp old ds"
      "search_data cmp old sl = Inr (last (0 # ys), int (length ys), upd)"
      "level_at (sl_store sl) (last (0 # ys)) 0 = Inr (next_from (ht (sl_store sl)) 0 zs)"
    by (rule rel_search [OF ok rel, of old])
  then show ?thesis
    unfolding SkipList_Update_def s(3) go_bind_Inr case_prod_conv s(4) Let_def using assms(3) by simp
qed


section \<open>The index interface\<close>

text \<open>
  What a client such as the rank tree relies on: a collection that represents a sorted list
  and answers position queries; inserting returns the position.
\<close>

locale ranked_index =
  fixes cmp :: "'a compare"
    and rel :: "'s \<Rightarrow> 'a list \<Rightarrow> bool"
    and ins :: "'a \<Rightarrow> 's \<Rightarrow> (int \<times> 's) go"
    and del :: "'a \<Rightarrow> 's \<Rightarrow> (bool \<times> 's) go"
    and rank_of :: "'a \<Rightarrow> 's \<Rightarrow> int go"
  assumes cmp_equiv: "rel s ds \<Longrightarrow> compare_ok cmp"
    and rel_strict: "rel s ds \<Longrightarrow> sorted_wrt (\<lambda>x y. cmp x y < 0) ds"
    and ins_rel: "rel s ds \<Longrightarrow> \<forall>x \<in> set ds. cmp x d \<noteq> 0 \<Longrightarrow>
      \<exists>s'. ins d s = Inr (int (length (lows cmp d ds)) + 1, s') \<and> rel s' (insert_sorted cmp d ds)"
    and del_rel: "rel s ds \<Longrightarrow>
      \<exists>s'. del d s = Inr (\<exists>x \<in> set ds. cmp x d = 0, s') \<and> rel s' (filter (\<lambda>y. cmp y d \<noteq> 0) ds)"
    and rank_rel: "rel s ds \<Longrightarrow>
      rank_of d s = Inr (if \<exists>x \<in> set ds. cmp x d = 0 then int (length (lows cmp d ds)) + 1 else -1)"
begin

lemma set_insert_sorted: "set (insert_sorted cmp d ds) = insert d (set ds)"
proof -
  have "set (insert_sorted cmp d ds) = insert d (set (lows cmp d ds @ highs cmp d ds))"
    by (simp add: insert_sorted_def del: lows_highs)
  then show ?thesis by simp
qed

text \<open>The rank that an insertion returns is the rank a query then finds.\<close>

lemma rank_after_ins:
  assumes r: "rel s ds" and new: "\<forall>x \<in> set ds. cmp x d \<noteq> 0"
  shows "\<exists>k s'. ins d s = Inr (k, s') \<and> rank_of d s' = Inr k \<and> rel s' (insert_sorted cmp d ds)"
proof -
  obtain s' where s': "ins d s = Inr (int (length (lows cmp d ds)) + 1, s')" "rel s' (insert_sorted cmp d ds)"
    using ins_rel [OF r new] by blast
  have ok: "compare_ok cmp" by (rule cmp_equiv [OF r])
  have dd: "cmp d d = 0" using ok unfolding compare_ok_def by (metis equal_neg_zero sgn_eq_0_iff)
  have "\<forall>x \<in> set (lows cmp d ds). cmp x d < 0" using lows_less [of _ cmp d ds] by blast
  moreover have "\<forall>x \<in> set (d # highs cmp d ds). \<not> cmp x d < 0"
    using dd highs_ge [OF ok rel_strict [OF r]] by auto
  ultimately have "lows cmp d (insert_sorted cmp d ds) = lows cmp d ds"
    unfolding insert_sorted_def by (rule insert_sorted_at(1))
  moreover have "\<exists>x \<in> set (insert_sorted cmp d ds). cmp x d = 0" using set_insert_sorted dd by auto
  ultimately have "rank_of d s' = Inr (int (length (lows cmp d ds)) + 1)" using rank_rel [OF s'(2)] by simp
  with s' show ?thesis by blast
qed

text \<open>A removed element has no rank.\<close>

lemma rank_after_del:
  assumes "rel s ds"
  shows "\<exists>b s'. del d s = Inr (b, s') \<and> rank_of d s' = Inr (-1)"
proof -
  obtain s' where s': "del d s = Inr (\<exists>x \<in> set ds. cmp x d = 0, s')" "rel s' (filter (\<lambda>y. cmp y d \<noteq> 0) ds)"
    using del_rel [OF assms] by blast
  have "rank_of d s' = Inr (-1)" using rank_rel [OF s'(2), of d] by simp
  with s'(1) show ?thesis by blast
qed

end

interpretation sl: ranked_index cmp "\<lambda>sl ds. compare_ok cmp \<and> sl_rel cmp sl ds" "Insert cmp" "Remove cmp" "SkipList_GetRank cmp"
  for cmp
proof (unfold_locales, goal_cases)
  case (3 s ds d)
  then show ?case using Insert_spec [of cmp s ds d] unfolding insert_sorted_def by blast
next
  case (4 s ds d)
  then show ?case using Remove_spec [of cmp s ds d] compare_ok_def by blast
next
  case (5 s ds d)
  then show ?case using query_spec(2) [of cmp s ds d] by blast
qed (use rel_sorted in blast)+


section \<open>Properties\<close>

text \<open>C5: the skip list implements a sorted list. For a \<open>Compare\<close> that is the sign of a total preorder,
  whatever the levels drawn at random, on a heap that represents a sorted list every operation
  returns without a panic: \<open>Insert\<close> of a new element puts it in its place and returns its position,
  \<open>Remove\<close> drops the element equal to its argument and reports whether there was one, \<open>Contains\<close> and
  \<open>GetRank\<close> answer membership and position, \<open>Clear\<close> empties the list and \<open>Len\<close> is its length.\<close>

theorem skiplist_refines_sorted_list:
  assumes "compare_ok cmp" and "sl_rel cmp sl ds"
  shows "((\<forall>x \<in> set ds. cmp x d \<noteq> 0) \<longrightarrow> (\<exists>sl'. Insert cmp d sl = Inr (int (length (filter (\<lambda>x. cmp x d < 0) ds)) + 1, sl')
      \<and> sl_rel cmp sl' (filter (\<lambda>x. cmp x d < 0) ds @ d # filter (\<lambda>x. \<not> cmp x d < 0) ds)))
    \<and> (\<exists>sl'. Remove cmp d sl = Inr (\<exists>x \<in> set ds. cmp x d = 0, sl') \<and> sl_rel cmp sl' (filter (\<lambda>x. cmp x d \<noteq> 0) ds))
    \<and> Contains cmp d sl = Inr (\<exists>x \<in> set ds. cmp x d = 0)
    \<and> SkipList_GetRank cmp d sl =
      Inr (if \<exists>x \<in> set ds. cmp x d = 0 then int (length (filter (\<lambda>x. cmp x d < 0) ds)) + 1 else -1)
    \<and> (\<exists>sl'. SkipList_Clear sl = Inr sl' \<and> sl_rel cmp sl' [])
    \<and> SkipList_Len sl = int (length ds)"
proof (intro conjI)
  note srt = rel_sorted [OF assms(2)] and f = lows_filter [OF assms(1) conjunct1 [OF rel_sorted [OF assms(2)]]]
  show "(\<forall>x \<in> set ds. cmp x d \<noteq> 0) \<longrightarrow> (\<exists>sl'. Insert cmp d sl = Inr (int (length (filter (\<lambda>x. cmp x d < 0) ds)) + 1, sl')
      \<and> sl_rel cmp sl' (filter (\<lambda>x. cmp x d < 0) ds @ d # filter (\<lambda>x. \<not> cmp x d < 0) ds))"
    using Insert_spec [OF assms, of d] unfolding f by blast
  show "\<exists>sl'. Remove cmp d sl = Inr (\<exists>x \<in> set ds. cmp x d = 0, sl') \<and> sl_rel cmp sl' (filter (\<lambda>x. cmp x d \<noteq> 0) ds)"
    by (rule Remove_spec [OF assms])
  show "Contains cmp d sl = Inr (\<exists>x \<in> set ds. cmp x d = 0)" by (rule query_spec(1) [OF assms])
  show "SkipList_GetRank cmp d sl =
      Inr (if \<exists>x \<in> set ds. cmp x d = 0 then int (length (filter (\<lambda>x. cmp x d < 0) ds)) + 1 else -1)"
    using query_spec(2) [OF assms, of d] unfolding f .
  show "\<exists>sl'. SkipList_Clear sl = Inr sl' \<and> sl_rel cmp sl' []" by (rule Clear_spec [OF assms(2)])
  show "SkipList_Len sl = int (length ds)" using srt by (simp add: SkipList_Len_def)
qed

lemma compare_ok_int: "compare_ok (\<lambda>x y :: int. x - y)"
  unfolding compare_ok_def by (auto simp: sgn_if)

theorem skiplist_refines_sorted_list_witness:
  "\<exists>sl' sl''. Insert (\<lambda>x y :: int. x - y) 5 (NewSkipList 0 (\<lambda>n. n < 3)) = Inr (1, sl')
     \<and> Remove (\<lambda>x y. x - y) 5 sl' = Inr (True, sl'') \<and> Contains (\<lambda>x y. x - y) 5 sl'' = Inr False"
proof -
  note ok = compare_ok_int
  obtain s1 where s1: "Insert (\<lambda>x y :: int. x - y) 5 (NewSkipList 0 (\<lambda>n. n < 3)) = Inr (1, s1)" "sl_rel (\<lambda>x y. x - y) s1 [5]"
    using skiplist_refines_sorted_list [OF ok NewSkipList_rel [of _ "0 :: int" "\<lambda>n. n < 3"], of 5] by auto
  obtain s2 where s2: "Remove (\<lambda>x y. x - y) 5 s1 = Inr (True, s2)" "sl_rel (\<lambda>x y :: int. x - y) s2 []"
    using skiplist_refines_sorted_list [OF ok s1(2), of 5] by auto
  show ?thesis using s1(1) s2(1) skiplist_refines_sorted_list [OF ok s2(2), of 5] by auto
qed

text \<open>C26: lookup by rank. On a heap that represents a sorted list \<open>SearchByRank\<close> finds the element at a
  rank between 1 and the length and reports absence outside that range, \<open>SearchByRankRange\<close> returns
  the elements between two ranks, and \<open>Foreach\<close> visits the elements in order with their ranks until
  the callback stops it. At rank 0, which is no rank, \<open>SearchByRank\<close> reports success and returns the
  header's data.\<close>

theorem skiplist_rank_lookup:
  assumes "sl_rel cmp sl ds"
  shows "(rank \<noteq> 0 \<longrightarrow> SearchByRank zero rank sl =
      Inr (if 1 \<le> rank \<and> rank \<le> int (length ds) then (ds ! (nat rank - 1), True) else (zero, False)))
    \<and> SearchByRank zero 0 sl = Inr (n_data (sl_store sl ! 0), True)
    \<and> (1 \<le> mn \<longrightarrow> SearchByRankRange mn mx sl =
      Inr (if mn \<le> int (length ds) then Some (take (nat (mx - mn + 1)) (drop (nat mn - 1) ds)) else None))
    \<and> SkipList_Foreach f sl s = Inr (foreach_list f ds 1 s)"
proof (intro conjI)
  show "rank \<noteq> 0 \<longrightarrow> SearchByRank zero rank sl =
      Inr (if 1 \<le> rank \<and> rank \<le> int (length ds) then (ds ! (nat rank - 1), True) else (zero, False))"
    using SearchByRank_spec [OF assms, of rank zero] by simp
  obtain xs where "chain (sl_store sl) (sl_level sl) xs" using assms by (auto simp: sl_rel_def)
  then show "SearchByRank zero 0 sl = Inr (n_data (sl_store sl ! 0), True)"
    by (simp add: SearchByRank_def getNodeByRank_spec)
  show "1 \<le> mn \<longrightarrow> SearchByRankRange mn mx sl =
      Inr (if mn \<le> int (length ds) then Some (take (nat (mx - mn + 1)) (drop (nat mn - 1) ds)) else None)"
    using SearchByRankRange_spec [OF assms, of mn mx] by simp
  show "SkipList_Foreach f sl s = Inr (foreach_list f ds 1 s)" by (rule Foreach_spec [OF assms])
qed

theorem skiplist_rank_lookup_witness:
  "SearchByRank 9 0 (NewSkipList (0 :: int) (\<lambda>_. False)) = Inr (0, True)
   \<and> SearchByRank 9 1 (NewSkipList (0 :: int) (\<lambda>_. False)) = Inr (9, False)"
proof -
  let ?sl = "NewSkipList (0 :: int) (\<lambda>_. False)"
  have "n_data (sl_store ?sl ! 0) = 0" by (simp add: NewSkipList_def)
  then show ?thesis
    using skiplist_rank_lookup [OF NewSkipList_rel [of "\<lambda>x y. x - y" "0 :: int" "\<lambda>_. False"], of 1 9 1 1 "\<lambda>_ _ s. (s, True)" "()"]
    by auto
qed

text \<open>\<open>Update\<close> moves an element. When the old element is in the list and no other element is equal
  to the new one, \<open>Update\<close> replaces the old element by the new one at its sorted position; it returns
  0 only if the position is unchanged and otherwise the new rank. When the old element is greater
  than every element of the list (in particular, when the list is empty) it panics.\<close>

theorem skiplist_update_moves:
  assumes "compare_ok cmp" and "sl_rel cmp sl ds"
  shows "((\<exists>x \<in> set ds. cmp x old = 0) \<longrightarrow> (\<forall>y \<in> set ds. cmp y old \<noteq> 0 \<longrightarrow> cmp y d \<noteq> 0) \<longrightarrow>
      (\<exists>r sl'. SkipList_Update cmp old d sl = Inr (r, sl')
        \<and> sl_rel cmp sl' (insert_sorted cmp d (filter (\<lambda>y. cmp y old \<noteq> 0) ds))
        \<and> (r = 0 \<and> lows cmp d (filter (\<lambda>y. cmp y old \<noteq> 0) ds) = lows cmp old ds
           \<or> r = int (length (lows cmp d (filter (\<lambda>y. cmp y old \<noteq> 0) ds))) + 1)))
    \<and> ((\<forall>x \<in> set ds. cmp x old < 0) \<longrightarrow> SkipList_Update cmp old d sl = Inl NilDeref)"
proof (intro conjI)
  show "(\<exists>x \<in> set ds. cmp x old = 0) \<longrightarrow> (\<forall>y \<in> set ds. cmp y old \<noteq> 0 \<longrightarrow> cmp y d \<noteq> 0) \<longrightarrow>
      (\<exists>r sl'. SkipList_Update cmp old d sl = Inr (r, sl')
        \<and> sl_rel cmp sl' (insert_sorted cmp d (filter (\<lambda>y. cmp y old \<noteq> 0) ds))
        \<and> (r = 0 \<and> lows cmp d (filter (\<lambda>y. cmp y old \<noteq> 0) ds) = lows cmp old ds
           \<or> r = int (length (lows cmp d (filter (\<lambda>y. cmp y old \<noteq> 0) ds))) + 1))"
    using SkipList_Update_spec [OF assms] by blast
  have "highs cmp old ds = []" if "\<forall>x \<in> set ds. cmp x old < 0" using that by (simp add: highs_def)
  then show "(\<forall>x \<in> set ds. cmp x old < 0) \<longrightarrow> SkipList_Update cmp old d sl = Inl NilDeref"
    using SkipList_Update_absent [OF assms] by blast
qed

theorem skiplist_update_moves_witness:
  "\<exists>sl r sl'. Insert (\<lambda>x y :: int. x - y) 3 (NewSkipList 0 (\<lambda>_. True)) = Inr (1, sl)
     \<and> SkipList_Update (\<lambda>x y. x - y) 3 4 sl = Inr (r, sl') \<and> sl_rel (\<lambda>x y. x - y) sl' [4]
     \<and> SkipList_Update (\<lambda>x y. x - y) 5 6 sl = Inl NilDeref"
proof -
  obtain sl where sl: "Insert (\<lambda>x y :: int. x - y) 3 (NewSkipList 0 (\<lambda>_. True)) = Inr (1, sl)" "sl_rel (\<lambda>x y. x - y) sl [3]"
    using Insert_spec [OF compare_ok_int NewSkipList_rel [of _ "0 :: int" "\<lambda>_. True"], of 3] by (auto simp: lows_def highs_def)
  then show ?thesis
    using skiplist_update_moves [OF compare_ok_int sl(2), of 3 4] skiplist_update_moves [OF compare_ok_int sl(2), of 5 6]
    by (auto simp: insert_sorted_def lows_def highs_def)
qed

end
