(* ===== verification/Rank_Tree.thy ===== *)
theory Rank_Tree
  imports Skip_List_Spec
begin

text \<open>
  The leaderboard of \<open>src/ds/skiplist/rank.go\<close>: a skip list of the ranked data and a map from
  users to their data. The theory shows that insertion, removal and the queries keep the two
  in step and rank correctly, and what the missing update of the map in \<open>Update\<close> leads to when
  a user's data changes.
\<close>

section \<open>Operations\<close>

record ('u, 'a) RankTree =
  rt_sl :: "'a SkipList"
  rt_dict :: "'u \<rightharpoonup> 'a"

definition NewRankTree :: "'a \<Rightarrow> (nat \<Rightarrow> bool) \<Rightarrow> ('u, 'a) RankTree" where
  "NewRankTree zero rnd = \<lparr>rt_sl = NewSkipList zero rnd, rt_dict = Map.empty\<rparr>"

definition RankTree_Update :: "'a compare \<Rightarrow> 'u \<Rightarrow> 'a \<Rightarrow> ('u, 'a) RankTree \<Rightarrow> (int \<times> ('u, 'a) RankTree) go" where
  "RankTree_Update cmp userKey data t =
    (case rt_dict t userKey of
       Some d \<Rightarrow>
         if cmp d data = 0 then Inr (0, t)
         else go_bind (SkipList_Update cmp d data (rt_sl t)) (\<lambda>(rank, sl). Inr (rank, t\<lparr>rt_sl := sl\<rparr>))
     | None \<Rightarrow>
         go_bind (Insert cmp data (rt_sl t)) (\<lambda>(rank, sl).
           Inr (rank, t\<lparr>rt_sl := sl, rt_dict := (rt_dict t)(userKey \<mapsto> data)\<rparr>)))"

definition RankTree_Remove :: "'a compare \<Rightarrow> 'u \<Rightarrow> ('u, 'a) RankTree \<Rightarrow> (bool \<times> ('u, 'a) RankTree) go" where
  "RankTree_Remove cmp userKey t =
    (case rt_dict t userKey of
       Some d \<Rightarrow>
         go_bind (Remove cmp d (rt_sl t)) (\<lambda>(b, sl).
           Inr (True, t\<lparr>rt_sl := sl, rt_dict := (rt_dict t)(userKey := None)\<rparr>))
     | None \<Rightarrow> Inr (False, t))"

definition RankTree_GetRank :: "'a compare \<Rightarrow> 'u \<Rightarrow> ('u, 'a) RankTree \<Rightarrow> int go" where
  "RankTree_GetRank cmp userKey t =
    (case rt_dict t userKey of Some d \<Rightarrow> SkipList_GetRank cmp d (rt_sl t) | None \<Rightarrow> Inr (-1))"

definition QueryByRankRange :: "int \<Rightarrow> int \<Rightarrow> ('u, 'a) RankTree \<Rightarrow> 'a list option go" where
  "QueryByRankRange mn mx t =
    (let mn' = (if mn < 1 then 1 else mn);
         mx' = (if mx < 0 then sl_length (rt_sl t) else if mx > sl_length (rt_sl t) then sl_length (rt_sl t) else mx)
     in if mn' > mx' then Inr None else SearchByRankRange mn' mx' (rt_sl t))"

definition QueryByRank :: "'a \<Rightarrow> int \<Rightarrow> ('u, 'a) RankTree \<Rightarrow> ('a \<times> bool) go" where
  "QueryByRank zero rank t = SearchByRank zero rank (rt_sl t)"

definition GetAll :: "('u, 'a) RankTree \<Rightarrow> 'a list option go" where
  "GetAll t = SearchByRankRange 1 (sl_length (rt_sl t)) (rt_sl t)"

definition RankTree_Foreach :: "('a \<Rightarrow> int \<Rightarrow> 's \<Rightarrow> 's \<times> bool) \<Rightarrow> ('u, 'a) RankTree \<Rightarrow> 's \<Rightarrow> 's go" where
  "RankTree_Foreach f t s = SkipList_Foreach f (rt_sl t) s"

definition RankTree_Clear :: "('u, 'a) RankTree \<Rightarrow> ('u, 'a) RankTree go" where
  "RankTree_Clear t = go_bind (SkipList_Clear (rt_sl t)) (\<lambda>sl. Inr (t\<lparr>rt_sl := sl, rt_dict := Map.empty\<rparr>))"

definition RankTree_Len :: "('u, 'a) RankTree \<Rightarrow> int" where
  "RankTree_Len t = sl_length (rt_sl t)"


section \<open>The map and the list in step\<close>

definition rt_ok :: "'a compare \<Rightarrow> ('u, 'a) RankTree \<Rightarrow> 'a list \<Rightarrow> bool" where
  "rt_ok cmp t ds \<longleftrightarrow> compare_ok cmp \<and> sl_rel cmp (rt_sl t) ds \<and> set ds = ran (rt_dict t)
     \<and> (\<forall>u v d e. rt_dict t u = Some d \<longrightarrow> rt_dict t v = Some e \<longrightarrow> cmp d e = 0 \<longrightarrow> u = v)"

lemma cmp_refl: "compare_ok cmp \<Longrightarrow> cmp d d = 0"
  using cmp_sign(1) [of cmp d d] by (metis linorder_neqE_linordered_idom less_asym)

lemma NewRankTree_ok: "compare_ok cmp \<Longrightarrow> rt_ok cmp (NewRankTree zero rnd) []"
  by (simp add: rt_ok_def NewRankTree_def NewSkipList_rel)

lemma rt_mem: "rt_ok cmp t ds \<Longrightarrow> rt_dict t u = Some d \<Longrightarrow> d \<in> set ds"
  by (auto simp: rt_ok_def ran_def)

lemma insert_sorted_set: "set (insert_sorted cmp d ds) = insert d (set ds)"
  by (metis Un_insert_right insert_sorted_def list.simps(15) lows_highs set_append)

lemma RankTree_insert:
  assumes t: "rt_ok cmp t ds" and u: "rt_dict t u = None" and new: "\<forall>x \<in> set ds. cmp x d \<noteq> 0"
  shows "\<exists>k t'. RankTree_Update cmp u d t = Inr (k, t') \<and> rt_ok cmp t' (insert_sorted cmp d ds)
    \<and> rt_dict t' = (rt_dict t)(u \<mapsto> d) \<and> RankTree_GetRank cmp u t' = Inr k"
proof -
  have ok: "compare_ok cmp" and rel: "sl_rel cmp (rt_sl t) ds" using t by (simp_all add: rt_ok_def)
  obtain k sl where s: "Insert cmp d (rt_sl t) = Inr (k, sl)" "SkipList_GetRank cmp d sl = Inr k"
      "sl_rel cmp sl (insert_sorted cmp d ds)"
    using sl.rank_after_ins [of cmp "rt_sl t" ds d] ok rel new by blast
  let ?t = "t\<lparr>rt_sl := sl, rt_dict := (rt_dict t)(u \<mapsto> d)\<rparr>"
  have run: "RankTree_Update cmp u d t = Inr (k, ?t)" using u s(1) by (simp add: RankTree_Update_def)
  have st: "set (insert_sorted cmp d ds) = ran (rt_dict ?t)"
    using t u by (simp add: insert_sorted_set rt_ok_def)
  have inj: "\<forall>v w e f. rt_dict ?t v = Some e \<longrightarrow> rt_dict ?t w = Some f \<longrightarrow> cmp e f = 0 \<longrightarrow> v = w"
  proof (intro allI impI)
    fix v w e f assume v: "rt_dict ?t v = Some e" and w: "rt_dict ?t w = Some f" and ef: "cmp e f = 0"
    have fe: "cmp f e = 0" using ef cmp_sign(2) [OF ok] by metis
    show "v = w"
    proof (rule ccontr)
      assume "v \<noteq> w"
      then consider "v = u" "w \<noteq> u" | "w = u" "v \<noteq> u" | "v \<noteq> u" "w \<noteq> u" by blast
      then show False
      proof cases
        case 1
        then show False using v w fe new rt_mem [OF t, of w f] by simp
      next
        case 2
        then show False using v w ef new rt_mem [OF t, of v e] by simp
      next
        case 3
        then show False using v w ef t \<open>v \<noteq> w\<close> unfolding rt_ok_def by auto
      qed
    qed
  qed
  have "rt_ok cmp ?t (insert_sorted cmp d ds)"
    unfolding rt_ok_def by (intro conjI) (rule ok, simp add: s(3), rule st, rule inj)
  moreover have "RankTree_GetRank cmp u ?t = Inr k" using s(2) by (simp add: RankTree_GetRank_def)
  ultimately show ?thesis using run by auto
qed

lemma RankTree_remove:
  assumes t: "rt_ok cmp t ds" and u: "rt_dict t u = Some d"
  shows "\<exists>t'. RankTree_Remove cmp u t = Inr (True, t') \<and> rt_ok cmp t' (filter (\<lambda>y. cmp y d \<noteq> 0) ds)
    \<and> rt_dict t' = (rt_dict t)(u := None)"
proof -
  have ok: "compare_ok cmp" and rel: "sl_rel cmp (rt_sl t) ds" using t by (simp_all add: rt_ok_def)
  obtain b sl where s: "Remove cmp d (rt_sl t) = Inr (b, sl)" "sl_rel cmp sl (filter (\<lambda>y. cmp y d \<noteq> 0) ds)"
    using Remove_spec [OF ok rel, of d] by blast
  let ?t = "t\<lparr>rt_sl := sl, rt_dict := (rt_dict t)(u := None)\<rparr>"
  have inj: "cmp e d = 0 \<longleftrightarrow> v = u" if "rt_dict t v = Some e" for v e
    using t u that cmp_refl [OF ok, of d] unfolding rt_ok_def by (metis option.inject)
  have st: "set (filter (\<lambda>y. cmp y d \<noteq> 0) ds) = ran (rt_dict ?t)"
  proof -
    have "set ds = ran (rt_dict t)" using t by (simp add: rt_ok_def)
    then show ?thesis using inj by (auto simp: ran_def)
  qed
  have "rt_dict t v = Some e" if "rt_dict ?t v = Some e" for v e using that by (simp split: if_splits)
  then have inj': "\<forall>v w e f. rt_dict ?t v = Some e \<longrightarrow> rt_dict ?t w = Some f \<longrightarrow> cmp e f = 0 \<longrightarrow> v = w"
    using t unfolding rt_ok_def by blast
  have "rt_ok cmp ?t (filter (\<lambda>y. cmp y d \<noteq> 0) ds)"
    unfolding rt_ok_def by (intro conjI) (rule ok, simp add: s(2), rule st, rule inj')
  then show ?thesis using u s(1) by (simp add: RankTree_Remove_def)
qed


section \<open>Properties\<close>

text \<open>C10: the leaderboard ranks its users. While users are only added and removed, the map and the
  list stay in step: adding a user returns the rank a later \<open>GetRank\<close> finds, \<open>GetRank\<close> is one more
  than the number of smaller entries (and -1 for an unknown user), \<open>Remove\<close> reports whether the
  user was there, and \<open>GetAll\<close> lists the entries in order.\<close>

theorem rank_tree_ranks:
  assumes "rt_ok cmp t ds"
  shows "(rt_dict t u = None \<and> (\<forall>x \<in> set ds. cmp x d \<noteq> 0) \<longrightarrow>
      (\<exists>k t'. RankTree_Update cmp u d t = Inr (k, t') \<and> rt_ok cmp t' (insert_sorted cmp d ds)
        \<and> rt_dict t' = (rt_dict t)(u \<mapsto> d) \<and> RankTree_GetRank cmp u t' = Inr k))
    \<and> (\<exists>t' ds'. RankTree_Remove cmp u t = Inr (u \<in> dom (rt_dict t), t') \<and> rt_ok cmp t' ds'
        \<and> rt_dict t' = (rt_dict t)(u := None))
    \<and> RankTree_GetRank cmp u t =
        Inr (case rt_dict t u of None \<Rightarrow> -1 | Some e \<Rightarrow> int (length (filter (\<lambda>x. cmp x e < 0) ds)) + 1)
    \<and> GetAll t = Inr (if ds = [] then None else Some ds) \<and> RankTree_Len t = int (length ds)"
proof (intro conjI)
  have ok: "compare_ok cmp" and rel: "sl_rel cmp (rt_sl t) ds" using assms by (simp_all add: rt_ok_def)
  note srt = rel_sorted [OF rel]
  show "rt_dict t u = None \<and> (\<forall>x \<in> set ds. cmp x d \<noteq> 0) \<longrightarrow>
      (\<exists>k t'. RankTree_Update cmp u d t = Inr (k, t') \<and> rt_ok cmp t' (insert_sorted cmp d ds)
        \<and> rt_dict t' = (rt_dict t)(u \<mapsto> d) \<and> RankTree_GetRank cmp u t' = Inr k)"
    using RankTree_insert [OF assms] by blast
  show "\<exists>t' ds'. RankTree_Remove cmp u t = Inr (u \<in> dom (rt_dict t), t') \<and> rt_ok cmp t' ds'
      \<and> rt_dict t' = (rt_dict t)(u := None)"
  proof (cases "rt_dict t u")
    case None
    then show ?thesis using assms by (auto simp: RankTree_Remove_def)
  next
    case (Some e)
    then show ?thesis using RankTree_remove [OF assms Some] by auto
  qed
  show "RankTree_GetRank cmp u t =
      Inr (case rt_dict t u of None \<Rightarrow> -1 | Some e \<Rightarrow> int (length (filter (\<lambda>x. cmp x e < 0) ds)) + 1)"
  proof (cases "rt_dict t u")
    case (Some e)
    then have "\<exists>x \<in> set ds. cmp x e = 0" using rt_mem [OF assms Some] cmp_refl [OF ok] by blast
    then show ?thesis
      using Some query_spec(2) [OF ok rel, of e] lows_filter(1) [OF ok conjunct1 [OF srt], of e] by (simp add: RankTree_GetRank_def)
  qed (simp add: RankTree_GetRank_def)
  show "GetAll t = Inr (if ds = [] then None else Some ds)"
    using SearchByRankRange_spec [OF rel, of 1 "sl_length (rt_sl t)"] srt by (cases ds) (simp_all add: GetAll_def)
  show "RankTree_Len t = int (length ds)" using srt by (simp add: RankTree_Len_def)
qed

theorem rank_tree_ranks_witness:
  "\<exists>t'. RankTree_Update (\<lambda>x y :: int. x - y) ''ann'' 7 (NewRankTree 0 (\<lambda>_. False)) = Inr (1, t')
     \<and> GetAll t' = Inr (Some [7]) \<and> RankTree_GetRank (\<lambda>x y. x - y) ''ann'' t' = Inr 1"
proof -
  let ?cmp = "\<lambda>x y :: int. x - y" and ?t = "NewRankTree 0 (\<lambda>_. False) :: (string, int) RankTree"
  have e: "insert_sorted ?cmp 7 [] = [7]" by (simp add: insert_sorted_def lows_def highs_def)
  obtain k t' where t': "RankTree_Update ?cmp ''ann'' 7 ?t = Inr (k, t')" "rt_ok ?cmp t' [7]"
      "RankTree_GetRank ?cmp ''ann'' t' = Inr k" "rt_dict t' ''ann'' = Some 7"
    using rank_tree_ranks [OF NewRankTree_ok [OF compare_ok_int], of 0 "\<lambda>_. False" "''ann''" 7]
    unfolding e by (auto simp: NewRankTree_def)
  from rank_tree_ranks [OF t'(2), of "''ann''" 7] t'(4) have "RankTree_GetRank ?cmp ''ann'' t' = Inr 1" "GetAll t' = Inr (Some [7])"
    by auto
  with t' show ?thesis by auto
qed

text \<open>C27: changing a user's data loses the user. \<open>Update\<close> moves the data in the list but leaves the
  old data in the map. Afterwards \<open>GetRank\<close> answers -1 for that user, and \<open>Remove\<close> reports success
  while the user's entry stays in the list.\<close>

theorem rank_tree_update_loses_user:
  assumes "rt_ok cmp t ds" and "rt_dict t u = Some old" and "cmp old d \<noteq> 0"
    and "\<forall>y \<in> set ds. cmp y d \<noteq> 0"
  shows "\<exists>r t' t'' ds''. RankTree_Update cmp u d t = Inr (r, t') \<and> RankTree_GetRank cmp u t' = Inr (-1)
    \<and> RankTree_Remove cmp u t' = Inr (True, t'') \<and> sl_rel cmp (rt_sl t'') ds'' \<and> d \<in> set ds''"
proof -
  have ok: "compare_ok cmp" and rel: "sl_rel cmp (rt_sl t) ds" using assms(1) by (simp_all add: rt_ok_def)
  let ?f = "filter (\<lambda>y. cmp y old \<noteq> 0) ds"
  have "\<exists>x \<in> set ds. cmp x old = 0" using rt_mem [OF assms(1,2)] cmp_refl [OF ok] by blast
  then obtain r sl where s: "SkipList_Update cmp old d (rt_sl t) = Inr (r, sl)" "sl_rel cmp sl (insert_sorted cmp d ?f)"
    using SkipList_Update_spec [OF ok rel] assms(4) by blast
  let ?t = "t\<lparr>rt_sl := sl\<rparr>" and ?ds = "insert_sorted cmp d ?f"
  have do: "cmp d old \<noteq> 0" using assms(3) cmp_sign(2) [OF ok] by metis
  have no: "\<forall>x \<in> set ?ds. cmp x old \<noteq> 0" using do by (simp add: insert_sorted_set)
  have "RankTree_Update cmp u d t = Inr (r, ?t)" using assms(2,3) s(1) by (simp add: RankTree_Update_def)
  moreover have "RankTree_GetRank cmp u ?t = Inr (-1)"
  proof -
    have "(\<exists>x \<in> set ?ds. cmp x old = 0) = False" using no by blast
    then have "SkipList_GetRank cmp old sl = Inr (-1)" by (simp only: query_spec(2) [OF ok s(2)] if_False)
    then show ?thesis using assms(2) by (simp add: RankTree_GetRank_def)
  qed
  moreover obtain b sl' where r: "Remove cmp old sl = Inr (b, sl')" "sl_rel cmp sl' (filter (\<lambda>y. cmp y old \<noteq> 0) ?ds)"
    using Remove_spec [OF ok s(2), of old] by blast
  moreover have "RankTree_Remove cmp u ?t = Inr (True, ?t\<lparr>rt_sl := sl', rt_dict := (rt_dict t)(u := None)\<rparr>)"
    using assms(2) r(1) by (simp add: RankTree_Remove_def)
  moreover have "d \<in> set (filter (\<lambda>y. cmp y old \<noteq> 0) ?ds)" using do by (simp add: insert_sorted_set)
  ultimately show ?thesis
    by (intro exI [of _ r] exI [of _ ?t] exI [of _ "?t\<lparr>rt_sl := sl', rt_dict := (rt_dict t)(u := None)\<rparr>"]
        exI [of _ "filter (\<lambda>y. cmp y old \<noteq> 0) ?ds"]) simp
qed

theorem rank_tree_update_loses_user_witness:
  "\<exists>t r t'. RankTree_Update (\<lambda>x y :: int. x - y) ''ann'' 7 (NewRankTree 0 (\<lambda>_. False)) = Inr (1, t)
     \<and> RankTree_Update (\<lambda>x y. x - y) ''ann'' 9 t = Inr (r, t') \<and> RankTree_GetRank (\<lambda>x y. x - y) ''ann'' t' = Inr (-1)"
proof -
  let ?cmp = "\<lambda>x y :: int. x - y" and ?t = "NewRankTree 0 (\<lambda>_. False) :: (string, int) RankTree"
  have e: "insert_sorted ?cmp 7 [] = [7]" by (simp add: insert_sorted_def lows_def highs_def)
  obtain k t where t: "RankTree_Update ?cmp ''ann'' 7 ?t = Inr (k, t)" "rt_ok ?cmp t [7]"
      "rt_dict t ''ann'' = Some 7" "RankTree_GetRank ?cmp ''ann'' t = Inr k"
    using RankTree_insert [OF NewRankTree_ok [OF compare_ok_int], of 0 "\<lambda>_. False" "''ann''" 7]
    unfolding e by (auto simp: NewRankTree_def)
  have "sl_rel ?cmp (rt_sl t) [7]" using t(2) by (simp add: rt_ok_def)
  from query_spec(2) [OF compare_ok_int this, of 7] t(3,4) have "k = 1"
    by (simp add: RankTree_GetRank_def lows_def)
  then show ?thesis
    using t(1) rank_tree_update_loses_user [OF t(2,3), of 9] by auto
qed

end
