(* ===== verification/Dll.thy ===== *)
theory Dll
  imports Prelude
begin

text \<open>
  Circular doubly linked lists with a sentinel, as \<open>src/ds/staticlist/queue.go\<close> and
  \<open>src/clock/timer.go\<close> both use them. \<open>dll nxt prv root xs\<close> says that following \<open>nxt\<close> from \<open>root\<close> visits
  the distinct nodes \<open>xs\<close> and returns to \<open>root\<close>, with \<open>prv\<close> its converse. The locale \<open>dll_heap\<close> is the
  interface of a heap of such nodes: reading and writing the two pointers of a node.
\<close>

section \<open>Linked nodes\<close>

fun linked :: "(nat \<Rightarrow> nat option) \<Rightarrow> (nat \<Rightarrow> nat option) \<Rightarrow> nat list \<Rightarrow> bool" where
  "linked nxt prv (a # b # r) = (nxt a = Some b \<and> prv b = Some a \<and> linked nxt prv (b # r))"
| "linked nxt prv _ = True"

definition dll :: "(nat \<Rightarrow> nat option) \<Rightarrow> (nat \<Rightarrow> nat option) \<Rightarrow> nat \<Rightarrow> nat list \<Rightarrow> bool" where
  "dll nxt prv root xs \<longleftrightarrow> distinct (root # xs) \<and> linked nxt prv (root # xs @ [root])"

lemma linked_append:
  "linked nxt prv (xs @ a # ys) \<longleftrightarrow> linked nxt prv (xs @ [a]) \<and> linked nxt prv (a # ys)"
proof (induction xs)
  case (Cons x xs)
  then show ?case by (cases xs) auto
qed simp

lemma linked_cong:
  "\<forall>a \<in> set (butlast xs). nxt a = nxt' a \<Longrightarrow> \<forall>b \<in> set (tl xs). prv b = prv' b \<Longrightarrow> linked nxt prv xs = linked nxt' prv' xs"
proof (induction xs rule: linked.induct)
  case (1 nxt prv a b r)
  then show ?case by simp
qed simp_all

lemma linked_upd:
  "linked nxt prv xs \<Longrightarrow> (\<And>a. a \<in> set (butlast xs) \<Longrightarrow> nxt' a = nxt a) \<Longrightarrow> (\<And>b. b \<in> set (tl xs) \<Longrightarrow> prv' b = prv b) \<Longrightarrow>
     linked nxt' prv' xs"
  using linked_cong [of xs nxt nxt' prv prv'] by simp

lemma dll_empty: "dll nxt prv root [] \<longleftrightarrow> nxt root = Some root \<and> prv root = Some root"
  by (auto simp: dll_def)

lemma dll_first: "dll nxt prv root xs \<Longrightarrow> nxt root = Some (hd (xs @ [root]))"
  by (cases xs) (auto simp: dll_def)

lemma dll_last:
  assumes "dll nxt prv root xs"
  shows "prv root = Some (last (root # xs))"
proof -
  have "root # xs @ [root] = butlast (root # xs) @ last (root # xs) # [root]"
    by (metis append.assoc append_Cons append_Nil append_butlast_last_id list.distinct(1))
  then have "linked nxt prv (last (root # xs) # [root])"
    using assms linked_append [of nxt prv "butlast (root # xs)" "last (root # xs)" "[root]"] by (simp only: dll_def)
  then show ?thesis by simp
qed

lemma dll_at:
  assumes "dll nxt prv root (as @ t # bs)"
  shows "nxt t = Some (hd (bs @ [root]))" and "prv t = Some (last (root # as))"
proof -
  have l: "linked nxt prv ((root # as) @ t # bs @ [root])" using assms by (simp add: dll_def)
  then have "linked nxt prv (t # bs @ [root])" and r: "linked nxt prv ((root # as) @ [t])"
    using linked_append [of nxt prv "root # as" t "bs @ [root]"] by simp_all
  then show "nxt t = Some (hd (bs @ [root]))" by (cases bs) simp_all
  have "(root # as) @ [t] = butlast (root # as) @ last (root # as) # [t]"
    by (metis append.assoc append_Cons append_Nil append_butlast_last_id list.distinct(1))
  then have "linked nxt prv (last (root # as) # [t])"
    using r linked_append [of nxt prv "butlast (root # as)" "last (root # as)" "[t]"] by (simp only:)
  then show "prv t = Some (last (root # as))" by simp
qed

lemma dll_frame:
  assumes "dll nxt prv root xs" and "\<forall>a \<in> set (root # xs). nxt' a = nxt a \<and> prv' a = prv a"
  shows "dll nxt' prv' root xs"
proof -
  have "\<forall>a \<in> set (butlast (root # xs @ [root])). nxt a = nxt' a" "\<forall>a \<in> set (tl (root # xs @ [root])). prv a = prv' a"
    using assms(2) by (auto simp: butlast_append)
  from linked_cong [OF this] show ?thesis using assms(1) by (simp add: dll_def)
qed

text \<open>Linking a new node \<open>t\<close> between \<open>a\<close> and \<open>b\<close>.\<close>

lemma dll_insert:
  assumes d: "dll nxt prv root (as @ bs)" and t: "t \<notin> set (root # as @ bs)"
    and a: "a = last (root # as)" and b: "b = hd (bs @ [root])"
  shows "dll (nxt(a := Some t, t := Some b)) (prv(t := Some a, b := Some t)) root (as @ t # bs)"
proof -
  let ?n = "nxt(a := Some t, t := Some b)" and ?p = "prv(t := Some a, b := Some t)"
  obtain bs' where bs: "bs @ [root] = b # bs'" using b by (cases "bs @ [root]") auto
  define as' where "as' = butlast (root # as)"
  have as: "root # as = as' @ [a]" unfolding a as'_def by (rule append_butlast_last_id [symmetric]) simp
  have dd: "distinct (root # as @ bs)" using d by (simp add: dll_def)
  have da: "distinct (as' @ [a])" using dd as by (metis append_Cons distinct_append)
  have "linked nxt prv (root # (as @ bs) @ [root])" using d by (simp add: dll_def)
  then have "linked nxt prv (as' @ a # b # bs')" using as bs by (metis append.assoc append_Cons append_Nil)
  then have l: "linked nxt prv (as' @ [a])" "linked nxt prv (b # bs')"
    using linked_append [of nxt prv as' a "b # bs'"] by simp_all
  have sa: "set (as' @ [a]) = set (root # as)" and sb: "set (b # bs') = set (bs @ [root])" using as bs by simp_all
  have ta: "t \<noteq> a" "t \<notin> set as'" and tb: "t \<noteq> b" "t \<notin> set bs'"
    using t sa sb by auto
  have ta': "tl (as' @ [a]) = as" using as by (metis list.sel(3))
  have "linked ?n ?p (as' @ [a])"
  proof -
    have "b \<notin> set (tl (as' @ [a]))"
      unfolding ta' using dd bs by (cases bs) auto
    moreover have "a \<notin> set as'" "t \<notin> set (tl (as' @ [a]))" using da ta t unfolding ta' by auto
    ultimately show ?thesis
      by (intro linked_upd [OF l(1)]) (use ta in auto)
  qed
  moreover have "linked ?n ?p (b # bs')"
  proof -
    have "butlast (b # bs') = bs" using bs by (metis butlast_snoc)
    moreover have "a \<notin> set bs"
    proof -
      have "a \<in> set (root # as)" unfolding a by (rule last_in_set) simp
      then show ?thesis using dd by auto
    qed
    moreover have "b \<notin> set bs'"
    proof (cases bs)
      case Nil
      then show ?thesis using bs by simp
    next
      case (Cons x xs)
      then show ?thesis using bs dd by auto
    qed
    ultimately show ?thesis
      by (intro linked_upd [OF l(2)]) (use tb t in auto)
  qed
  ultimately have "linked ?n ?p (as' @ a # t # b # bs')"
    using linked_append [of ?n ?p as' a "t # b # bs'"] ta tb by simp
  then have "linked ?n ?p (root # (as @ t # bs) @ [root])" using as bs by (metis append.assoc append_Cons append_Nil)
  then show ?thesis using dd t by (auto simp: dll_def)
qed

lemma dll_push:
  assumes "dll nxt prv root xs" and "t \<notin> set (root # xs)" and "a = last (root # xs)"
  shows "dll (nxt(a := Some t, t := Some root)) (prv(t := Some a, root := Some t)) root (xs @ [t])"
  using dll_insert [of nxt prv root xs "[]" t a root] assms by simp

lemma dll_unlink:
  assumes d: "dll nxt prv root (as @ t # bs)" and a: "a = last (root # as)" and b: "b = hd (bs @ [root])"
  shows "dll (nxt(a := Some b)) (prv(b := Some a)) root (as @ bs)"
proof -
  let ?n = "nxt(a := Some b)" and ?p = "prv(b := Some a)"
  obtain bs' where bs: "bs @ [root] = b # bs'" using b by (cases "bs @ [root]") auto
  define as' where "as' = butlast (root # as)"
  have as: "root # as = as' @ [a]" unfolding a as'_def by (rule append_butlast_last_id [symmetric]) simp
  have dd: "distinct (root # as @ t # bs)" using d by (simp add: dll_def)
  have da: "distinct (as' @ [a])" using dd as by (metis append_Cons distinct_append)
  have "linked nxt prv (root # (as @ t # bs) @ [root])" using d by (simp add: dll_def)
  then have "linked nxt prv (as' @ a # t # b # bs')" using as bs by (metis append.assoc append_Cons append_Nil)
  then have l: "linked nxt prv (as' @ [a])" "linked nxt prv (b # bs')"
    using linked_append [of nxt prv as' a "t # b # bs'"] by simp_all
  have ta': "tl (as' @ [a]) = as" using as by (metis list.sel(3))
  have "linked ?n ?p (as' @ [a])"
  proof -
    have "b \<notin> set (tl (as' @ [a]))" unfolding ta' using dd bs by (cases bs) auto
    moreover have "a \<notin> set as'" using da by auto
    ultimately show ?thesis by (intro linked_upd [OF l(1)]) auto
  qed
  moreover have "linked ?n ?p (b # bs')"
  proof -
    have "butlast (b # bs') = bs" using bs by (metis butlast_snoc)
    moreover have "a \<in> set (root # as)" unfolding a by (rule last_in_set) simp
    then have "a \<notin> set bs" using dd by auto
    moreover have "b \<notin> set bs'"
    proof (cases bs)
      case Nil
      then show ?thesis using bs by simp
    next
      case (Cons x xs)
      then show ?thesis using bs dd by auto
    qed
    ultimately show ?thesis by (intro linked_upd [OF l(2)]) auto
  qed
  ultimately have "linked ?n ?p (as' @ a # b # bs')"
    using linked_append [of ?n ?p as' a "b # bs'"] by simp
  then have "linked ?n ?p (root # (as @ bs) @ [root])" using as bs by (metis append.assoc append_Cons append_Nil)
  then show ?thesis using dd by (auto simp: dll_def)
qed


section \<open>A heap of linked nodes\<close>

text \<open>
  Reading and writing \<open>node.next\<close> and \<open>node.prev\<close> for the nodes that are allocated, and the two
  pointer sequences that both clients execute, proved once.
\<close>

locale dll_heap =
  fixes nxt :: "'h \<Rightarrow> nat \<Rightarrow> nat option"
    and prv :: "'h \<Rightarrow> nat \<Rightarrow> nat option"
    and set_nxt :: "nat \<Rightarrow> nat option \<Rightarrow> 'h \<Rightarrow> 'h"
    and set_prv :: "nat \<Rightarrow> nat option \<Rightarrow> 'h \<Rightarrow> 'h"
    and alloc :: "'h \<Rightarrow> nat \<Rightarrow> bool"
  assumes nxt_set_nxt: "alloc h a \<Longrightarrow> nxt (set_nxt a v h) = (nxt h)(a := v)"
    and prv_set_nxt: "alloc h a \<Longrightarrow> prv (set_nxt a v h) = prv h"
    and nxt_set_prv: "alloc h a \<Longrightarrow> nxt (set_prv a v h) = nxt h"
    and prv_set_prv: "alloc h a \<Longrightarrow> prv (set_prv a v h) = (prv h)(a := v)"
    and alloc_set_nxt: "alloc h a \<Longrightarrow> alloc (set_nxt a v h) = alloc h"
    and alloc_set_prv: "alloc h a \<Longrightarrow> alloc (set_prv a v h) = alloc h"
begin

lemmas heap_simps = nxt_set_nxt prv_set_nxt nxt_set_prv prv_set_prv alloc_set_nxt alloc_set_prv

text \<open>\<open>tail.next = t; t.prev = tail; t.next = root; root.prev = t\<close>.\<close>

lemma push_back:
  assumes d: "dll (nxt h) (prv h) root xs" and al: "\<forall>a \<in> set (t # root # xs). alloc h a"
    and t: "t \<notin> set (root # xs)" and a: "a = last (root # xs)"
    and h': "h' = set_prv root (Some t) (set_nxt t (Some root) (set_prv t (Some a) (set_nxt a (Some t) h)))"
  shows "dll (nxt h') (prv h') root (xs @ [t])" and "alloc h' = alloc h"
    and "nxt h' = (nxt h)(a := Some t, t := Some root)" and "prv h' = (prv h)(t := Some a, root := Some t)"
proof -
  have "a \<in> set (root # xs)" unfolding a by (rule last_in_set) simp
  then have al': "alloc h a" "alloc h t" "alloc h root" using al by auto
  show n: "nxt h' = (nxt h)(a := Some t, t := Some root)" and p: "prv h' = (prv h)(t := Some a, root := Some t)"
    and "alloc h' = alloc h"
    unfolding h' using al' by (simp_all add: heap_simps)
  show "dll (nxt h') (prv h') root (xs @ [t])" unfolding n p by (rule dll_push [OF d t a])
qed

text \<open>\<open>t.prev.next = t.next; t.next.prev = t.prev\<close>.\<close>

lemma unlink:
  assumes d: "dll (nxt h) (prv h) root (as @ t # bs)" and al: "\<forall>a \<in> set (root # as @ t # bs). alloc h a"
    and a: "a = last (root # as)" and b: "b = hd (bs @ [root])"
    and h': "h' = set_prv b (Some a) (set_nxt a (Some b) h)"
  shows "nxt h t = Some b" and "prv h t = Some a" and "dll (nxt h') (prv h') root (as @ bs)" and "alloc h' = alloc h"
    and "nxt h' = (nxt h)(a := Some b)" and "prv h' = (prv h)(b := Some a)"
    and "a \<in> set (root # as)" and "b \<in> set (root # bs)"
proof -
  show "nxt h t = Some b" "prv h t = Some a" using dll_at [OF d] a b by simp_all
  show ia: "a \<in> set (root # as)" unfolding a by (rule last_in_set) simp
  show ib: "b \<in> set (root # bs)" unfolding b by (cases bs) auto
  have al': "alloc h a" "alloc h b" using al ia ib by auto
  show n: "nxt h' = (nxt h)(a := Some b)" and p: "prv h' = (prv h)(b := Some a)" and "alloc h' = alloc h"
    unfolding h' using al' by (simp_all add: heap_simps)
  show "dll (nxt h') (prv h') root (as @ bs)" unfolding n p by (rule dll_unlink [OF d a b])
qed

end

end
