(* ===== verification/Timer_List.thy ===== *)
theory Timer_List
  imports Dll "HOL-Library.Sublist"
begin

text \<open>
  The timers of \<open>src/clock/timer.go\<close> and their intrusive circular lists. Timers live in one heap, a list
  of records addressed by position; a \<open>*_List\<close> is the address of its sentinel. Several lists share the
  heap, so every lemma also says that an operation leaves the other lists alone.
\<close>

section \<open>Timers and their lists\<close>

text \<open>A timer's own fields and, in the extension, its two links. A channel is named by a number and
  nil by \<open>None\<close>.\<close>

record 'd TimerData =
  tm_id :: int
  tm_when :: int
  tm_data :: 'd
  tm_receiver :: "nat option"
  tm_batch :: "nat option"

record 'd Timer = "'d TimerData" +
  tm_prev :: "nat option"
  tm_next :: "nat option"

type_synonym 'd theap = "'d Timer list"

definition t_alloc :: "'d theap \<Rightarrow> nat \<Rightarrow> bool" where
  "t_alloc h a \<longleftrightarrow> a < length h"

definition t_next :: "'d theap \<Rightarrow> nat \<Rightarrow> nat option" where
  "t_next h a = tm_next (h ! a)"

definition t_prev :: "'d theap \<Rightarrow> nat \<Rightarrow> nat option" where
  "t_prev h a = tm_prev (h ! a)"

definition t_set_next :: "nat \<Rightarrow> nat option \<Rightarrow> 'd theap \<Rightarrow> 'd theap" where
  "t_set_next a v h = h[a := (h ! a)\<lparr>tm_next := v\<rparr>]"

definition t_set_prev :: "nat \<Rightarrow> nat option \<Rightarrow> 'd theap \<Rightarrow> 'd theap" where
  "t_set_prev a v h = h[a := (h ! a)\<lparr>tm_prev := v\<rparr>]"

definition t_deref :: "nat option \<Rightarrow> nat go" where
  "t_deref p = (case p of None \<Rightarrow> Inl NilDeref | Some a \<Rightarrow> Inr a)"

text \<open>\<open>t.prev.next = t.next; t.next.prev = t.prev; t.prev = nil; t.next = nil\<close>.\<close>

definition t_unlink :: "nat \<Rightarrow> 'd theap \<Rightarrow> 'd theap go" where
  "t_unlink t h =
    go_bind (t_deref (t_prev h t)) (\<lambda>before.
      let h1 = t_set_next before (t_next h t) h
      in go_bind (t_deref (t_next h1 t)) (\<lambda>after.
        let h2 = t_set_prev after (t_prev h1 t) h1
        in Inr (t_set_next t None (t_set_prev t None h2))))"

definition removeFromList :: "nat \<Rightarrow> 'd theap \<Rightarrow> (bool \<times> 'd theap) go" where
  "removeFromList t h =
    (if t_prev h t = None \<or> t_next h t = None then Inr (False, h)
     else go_bind (t_unlink t h) (\<lambda>h1. Inr (True, h1)))"

definition newTimerList :: "'d Timer \<Rightarrow> 'd theap \<Rightarrow> nat \<times> 'd theap" where
  "newTimerList zero h = (let root = length h in (root, h @ [zero\<lparr>tm_prev := Some root, tm_next := Some root\<rparr>]))"

definition List_PushBack :: "nat \<Rightarrow> nat \<Rightarrow> 'd theap \<Rightarrow> 'd theap go" where
  "List_PushBack root t h =
    go_bind (t_deref (t_prev h root)) (\<lambda>tail.
      let h1 = t_set_next tail (Some t) h;
          h2 = t_set_prev t (Some tail) h1;
          h3 = t_set_next t (Some root) h2
      in Inr (t_set_prev root (Some t) h3))"

definition List_IsEmpty :: "nat \<Rightarrow> 'd theap \<Rightarrow> bool" where
  "List_IsEmpty root h = (t_next h root = Some root)"

fun find_pos :: "nat \<Rightarrow> int \<Rightarrow> nat \<Rightarrow> nat option \<Rightarrow> 'd theap \<Rightarrow> nat go" where
  "find_pos root when fuel p h =
    (if p = Some root then Inr root
     else go_bind (t_deref p) (\<lambda>current.
       if tm_when (h ! current) \<le> when
       then (case fuel of 0 \<Rightarrow> Inl NoReturn | Suc fuel' \<Rightarrow> find_pos root when fuel' (t_next h current) h)
       else Inr current))"

declare find_pos.simps [simp del]

definition List_InsertSorted :: "nat \<Rightarrow> nat option \<Rightarrow> 'd theap \<Rightarrow> 'd theap go" where
  "List_InsertSorted root tp h =
    (case tp of
       None \<Rightarrow> Inr h
     | Some t \<Rightarrow>
         if List_IsEmpty root h then List_PushBack root t h
         else go_bind (find_pos root (tm_when (h ! t)) (length h) (t_next h root) h) (\<lambda>current.
           let h1 = t_set_prev t (t_prev h current) h;
               h2 = t_set_next t (Some current) h1
           in go_bind (t_deref (t_prev h2 current)) (\<lambda>before.
                Inr (t_set_prev current (Some t) (t_set_next before (Some t) h2)))))"

definition List_Remove :: "nat \<Rightarrow> nat \<Rightarrow> 'd theap \<Rightarrow> (bool \<times> 'd theap) go" where
  "List_Remove root t h = (if t = root then Inr (False, h) else go_bind (t_unlink t h) (\<lambda>h1. Inr (True, h1)))"

fun SafeClear_loop :: "nat \<Rightarrow> nat \<Rightarrow> 'd theap \<Rightarrow> 'd theap go" where
  "SafeClear_loop root fuel h =
    (if List_IsEmpty root h then Inr h
     else case fuel of
       0 \<Rightarrow> Inl NoReturn
     | Suc fuel' \<Rightarrow> go_bind (t_deref (t_next h root)) (\<lambda>t. go_bind (List_Remove root t h) (\<lambda>(_, h1). SafeClear_loop root fuel' h1)))"

declare SafeClear_loop.simps [simp del]

definition List_SafeClear :: "nat \<Rightarrow> 'd theap \<Rightarrow> 'd theap go" where
  "List_SafeClear root h = SafeClear_loop root (length h) h"

definition List_Clear :: "nat \<Rightarrow> 'd theap \<Rightarrow> 'd theap" where
  "List_Clear root h = t_set_next root (Some root) (t_set_prev root (Some root) h)"

text \<open>The callback of \<open>Range\<close> may not change the list; that of \<open>PopRange\<close> works on the heap, too.\<close>

fun Range_loop :: "('d Timer \<Rightarrow> 's \<Rightarrow> 's \<times> bool) \<Rightarrow> nat \<Rightarrow> nat \<Rightarrow> nat option \<Rightarrow> 'd theap \<Rightarrow> 's \<Rightarrow> 's go" where
  "Range_loop fn root fuel p h s =
    (if p = Some root then Inr s
     else case fuel of
       0 \<Rightarrow> Inl NoReturn
     | Suc fuel' \<Rightarrow> go_bind (t_deref p) (\<lambda>t.
         let (s1, goon) = fn (h ! t) s in if goon then Range_loop fn root fuel' (t_next h t) h s1 else Inr s1))"

declare Range_loop.simps [simp del]

definition List_Range :: "('d Timer \<Rightarrow> 's \<Rightarrow> 's \<times> bool) \<Rightarrow> nat \<Rightarrow> 'd theap \<Rightarrow> 's \<Rightarrow> 's go" where
  "List_Range fn root h s = Range_loop fn root (length h) (t_next h root) h s"

partial_function (option) List_PopRange :: "(nat \<Rightarrow> 'd theap \<Rightarrow> 's \<Rightarrow> ('d theap \<times> 's \<times> bool) go) \<Rightarrow> nat \<Rightarrow> 'd theap \<Rightarrow> 's \<Rightarrow> ('d theap \<times> 's) go option" where
  "List_PopRange fn root h s =
    (if List_IsEmpty root h then Some (Inr (h, s))
     else case go_bind (t_deref (t_next h root)) (\<lambda>t. go_bind (List_Remove root t h) (\<lambda>(_, h1). fn t h1 s)) of
       Inl e \<Rightarrow> Some (Inl e)
     | Inr (h2, s1, goon) \<Rightarrow> if goon then List_PopRange fn root h2 s1 else Some (Inr (h2, s1)))"


section \<open>The timers as a heap of linked nodes\<close>

lemmas t_defs = t_alloc_def t_next_def t_prev_def t_set_next_def t_set_prev_def

interpretation th: dll_heap t_next t_prev t_set_next t_set_prev t_alloc
  by unfold_locales (auto simp: t_defs fun_eq_iff nth_list_update)

text \<open>\<open>tlist h root xs\<close>: the list at \<open>root\<close> holds the timers \<open>xs\<close>.\<close>

definition tlist :: "'d theap \<Rightarrow> nat \<Rightarrow> nat list \<Rightarrow> bool" where
  "tlist h root xs \<longleftrightarrow> dll (t_next h) (t_prev h) root xs \<and> (\<forall>a \<in> set (root # xs). t_alloc h a)"

text \<open>Between \<open>h\<close> and \<open>h'\<close> only links of nodes in \<open>A\<close> changed.\<close>

definition t_frame :: "nat set \<Rightarrow> 'd theap \<Rightarrow> 'd theap \<Rightarrow> bool" where
  "t_frame A h h' \<longleftrightarrow> length h' = length h \<and> (\<forall>a. TimerData.truncate (h' ! a) = TimerData.truncate (h ! a))
     \<and> (\<forall>a. a \<notin> A \<longrightarrow> h' ! a = h ! a)"

lemma t_frame_trans: "t_frame A h h' \<Longrightarrow> t_frame A h' h'' \<Longrightarrow> t_frame A h h''"
  by (simp add: t_frame_def)

lemma t_frame_mono: "t_frame A h h' \<Longrightarrow> A \<subseteq> B \<Longrightarrow> t_frame B h h'"
  by (auto simp: t_frame_def)

lemma t_frame_set:
  assumes "a \<in> A"
  shows "t_frame A h (t_set_next a v h)" and "t_frame A h (t_set_prev a v h)"
proof -
  have tr: "TimerData.truncate (h[a := x] ! b) = TimerData.truncate (h ! b)" if "TimerData.truncate x = TimerData.truncate (h ! a)"
    for x :: "'a Timer" and b
    using that by (cases "a < length h"; cases "a = b") (simp_all add: list_update_beyond)
  have ne: "h[a := x] ! b = h ! b" if "b \<notin> A" for x b using that assms by (metis nth_list_update_neq)
  show "t_frame A h (t_set_next a v h)" "t_frame A h (t_set_prev a v h)"
    unfolding t_frame_def t_set_next_def t_set_prev_def
    using tr [of "(h ! a)\<lparr>tm_next := v\<rparr>"] tr [of "(h ! a)\<lparr>tm_prev := v\<rparr>"] ne
    by (simp_all add: TimerData.truncate_def)
qed

lemma t_frame_other: "t_frame A h h' \<Longrightarrow> tlist h r ys \<Longrightarrow> set (r # ys) \<inter> A = {} \<Longrightarrow> tlist h' r ys"
proof -
  assume f: "t_frame A h h'" and l: "tlist h r ys" and d: "set (r # ys) \<inter> A = {}"
  have same: "h' ! a = h ! a" if "a \<in> set (r # ys)" for a using that f d by (auto simp: t_frame_def)
  have "dll (t_next h') (t_prev h') r ys"
    by (rule dll_frame [of "t_next h" "t_prev h"]) (use l same in \<open>simp_all add: tlist_def t_next_def t_prev_def\<close>)
  then show "tlist h' r ys" using l f by (simp add: tlist_def t_frame_def t_alloc_def)
qed

lemma t_unlink_spec:
  assumes l: "tlist h r (as @ t # bs)"
  shows "\<exists>h'. t_unlink t h = Inr h' \<and> t_frame (set (r # as @ t # bs)) h h' \<and> tlist h' r (as @ bs)
    \<and> t_next h' t = None \<and> t_prev h' t = None"
proof -
  have d: "dll (t_next h) (t_prev h) r (as @ t # bs)" and al: "\<forall>a \<in> set (r # as @ t # bs). t_alloc h a"
    using l by (simp_all add: tlist_def)
  define a where "a = last (r # as)"
  define b where "b = hd (bs @ [r])"
  define h1 where "h1 = t_set_next a (Some b) h"
  define h2 where "h2 = t_set_prev b (Some a) h1"
  define h' where "h' = t_set_next t None (t_set_prev t None h2)"
  have h2: "h2 = t_set_prev b (Some a) (t_set_next a (Some b) h)" by (simp add: h2_def h1_def)
  note u = th.unlink [OF d al a_def b_def h2]
  have td: "t \<notin> set (r # as @ bs)" using d by (auto simp: dll_def)
  have la: "t_alloc h a" "t_alloc h b" "t_alloc h t" using u(7,8) al by auto
  have n1: "t_next h1 = (t_next h)(a := Some b)" "t_prev h1 = t_prev h"
    using la by (simp_all add: h1_def th.heap_simps)
  have at: "a \<noteq> t" using u(7) td by auto
  have un: "t_unlink t h = Inr h'"
    using u(1,2) n1 at by (simp add: t_unlink_def t_deref_def Let_def h1_def [symmetric] h2_def [symmetric] h'_def)
  have la2: "t_alloc h2 t" using u(4) la by simp
  have n': "t_next h' = (t_next h2)(t := None)" "t_prev h' = (t_prev h2)(t := None)" "t_alloc h' = t_alloc h2"
    using la2 by (simp_all add: h'_def th.heap_simps)
  have "dll (t_next h') (t_prev h') r (as @ bs)"
    by (rule dll_frame [OF u(3)]) (use td n' in auto)
  then have "tlist h' r (as @ bs)" using al n' u(4) by (simp add: tlist_def)
  moreover have "t_frame (set (r # as @ t # bs)) h h'"
    unfolding h'_def h2_def h1_def using u(7,8)
    by (intro t_frame_trans [OF t_frame_trans [OF t_frame_trans [OF t_frame_set(1) t_frame_set(2)] t_frame_set(2)] t_frame_set(1)]) auto
  ultimately show ?thesis using un n' by auto
qed

lemma PushBack_spec:
  assumes l: "tlist h r xs" and t: "t_alloc h t" "t \<notin> set (r # xs)"
  shows "\<exists>h'. List_PushBack r t h = Inr h' \<and> t_frame (set (t # r # xs)) h h' \<and> tlist h' r (xs @ [t])"
proof -
  have d: "dll (t_next h) (t_prev h) r xs" and al: "\<forall>a \<in> set (t # r # xs). t_alloc h a"
    using l t by (simp_all add: tlist_def)
  define a where "a = last (r # xs)"
  define h' where "h' = t_set_prev r (Some t) (t_set_next t (Some r) (t_set_prev t (Some a) (t_set_next a (Some t) h)))"
  note p = th.push_back [OF d al t(2) a_def h'_def]
  have ia: "a \<in> set (r # xs)" unfolding a_def by (rule last_in_set) simp
  have "List_PushBack r t h = Inr h'"
    using dll_last [OF d] by (simp add: List_PushBack_def t_deref_def a_def h'_def Let_def)
  moreover have "t_frame (set (t # r # xs)) h h'"
    unfolding h'_def using ia
    by (intro t_frame_trans [OF t_frame_trans [OF t_frame_trans [OF t_frame_set(1) t_frame_set(2)] t_frame_set(1)] t_frame_set(2)]) auto
  moreover have "tlist h' r (xs @ [t])" using p al by (simp add: tlist_def)
  ultimately show ?thesis by blast
qed

lemma tlist_first:
  assumes "tlist h r xs"
  shows "t_next h r = Some (hd (xs @ [r]))" and "List_IsEmpty r h \<longleftrightarrow> xs = []"
proof -
  have d: "dll (t_next h) (t_prev h) r xs" using assms by (simp add: tlist_def)
  show 1: "t_next h r = Some (hd (xs @ [r]))" by (rule dll_first [OF d])
  show "List_IsEmpty r h \<longleftrightarrow> xs = []" using d by (cases xs) (auto simp: List_IsEmpty_def 1 dll_def)
qed


section \<open>The loops\<close>

text \<open>\<open>find_pos\<close> stops at the first timer that expires later than \<open>when\<close>, or at the sentinel.\<close>

lemma find_pos_spec:
  assumes l: "tlist h r (ys @ xs)" and f: "length xs \<le> fuel"
  shows "\<exists>as bs. xs = as @ bs \<and> (\<forall>a \<in> set as. tm_when (h ! a) \<le> w) \<and> (bs \<noteq> [] \<longrightarrow> w < tm_when (h ! hd bs))
    \<and> find_pos r w fuel (Some (hd (xs @ [r]))) h = Inr (hd (bs @ [r]))"
  using l f
proof (induction xs arbitrary: ys fuel)
  case Nil
  then show ?case by (subst find_pos.simps) simp
next
  case (Cons x xs)
  have d: "dll (t_next h) (t_prev h) r (ys @ x # xs)" using Cons.prems(1) by (simp add: tlist_def)
  have ne: "x \<noteq> r" using d by (auto simp: dll_def)
  obtain fuel' where fu: "fuel = Suc fuel'" using Cons.prems(2) by (cases fuel) auto
  have step: "find_pos r w fuel (Some (hd ((x # xs) @ [r]))) h =
      (if tm_when (h ! x) \<le> w then find_pos r w fuel' (Some (hd (xs @ [r]))) h else Inr x)"
    using ne dll_at(1) [OF d] by (subst find_pos.simps) (simp add: t_deref_def fu)
  show ?case
  proof (cases "tm_when (h ! x) \<le> w")
    case True
    obtain as bs where "xs = as @ bs" "\<forall>a \<in> set as. tm_when (h ! a) \<le> w" "bs \<noteq> [] \<longrightarrow> w < tm_when (h ! hd bs)"
        "find_pos r w fuel' (Some (hd (xs @ [r]))) h = Inr (hd (bs @ [r]))"
      using Cons.IH [of "ys @ [x]" fuel'] Cons.prems fu by (metis Suc_le_mono append.assoc append_Cons append_Nil length_Cons)
    then show ?thesis using step True by (intro exI [of _ "x # as"] exI [of _ bs]) simp
  next
    case False
    then show ?thesis using step by (intro exI [of _ "[]"] exI [of _ "x # xs"]) simp
  qed
qed

lemma tlist_length:
  assumes "tlist h r xs"
  shows "length xs < length h"
proof -
  have "card (set (r # xs)) \<le> card {..< length h}"
    using assms by (intro card_mono) (auto simp: tlist_def t_alloc_def)
  moreover have "distinct (r # xs)" using assms by (simp add: tlist_def dll_def)
  ultimately show ?thesis using distinct_card [of "r # xs"] by simp
qed

lemma InsertSorted_spec:
  assumes l: "tlist h r xs" and t: "t_alloc h t" "t \<notin> set (r # xs)"
  shows "\<exists>h' as bs. List_InsertSorted r (Some t) h = Inr h' \<and> xs = as @ bs \<and> tlist h' r (as @ t # bs)
    \<and> (\<forall>a \<in> set as. tm_when (h ! a) \<le> tm_when (h ! t)) \<and> (bs \<noteq> [] \<longrightarrow> tm_when (h ! t) < tm_when (h ! hd bs))
    \<and> t_frame (set (t # r # xs)) h h'"
proof (cases "xs = []")
  case True
  obtain h' where "List_PushBack r t h = Inr h'" "t_frame (set (t # r # xs)) h h'" "tlist h' r (xs @ [t])"
    using PushBack_spec [OF l t] by blast
  then show ?thesis
    using True tlist_first(2) [OF l] by (intro exI [of _ h'] exI [of _ "[]"]) (simp add: List_InsertSorted_def)
next
  case False
  let ?w = "tm_when (h ! t)"
  obtain as bs where ab: "xs = as @ bs" "\<forall>a \<in> set as. tm_when (h ! a) \<le> ?w" "bs \<noteq> [] \<longrightarrow> ?w < tm_when (h ! hd bs)"
      "find_pos r ?w (length h) (Some (hd (xs @ [r]))) h = Inr (hd (bs @ [r]))"
    using find_pos_spec [of h r "[]" xs "length h" ?w] l less_imp_le [OF tlist_length [OF l]] by (metis append_Nil)
  have d: "dll (t_next h) (t_prev h) r (as @ bs)" and al: "\<forall>a \<in> set (r # xs). t_alloc h a"
    using l ab(1) by (simp_all add: tlist_def)
  define a where "a = last (r # as)"
  define b where "b = hd (bs @ [r])"
  have ia: "a \<in> set (r # as)" unfolding a_def by (rule last_in_set) simp
  have ib: "b \<in> set (r # bs)" unfolding b_def by (cases bs) auto
  have pb: "t_prev h b = Some a"
  proof (cases bs)
    case Nil
    then show ?thesis using dll_last [of "t_next h" "t_prev h" r as] d by (simp add: b_def a_def)
  next
    case (Cons x bs')
    then show ?thesis using dll_at(2) [of "t_next h" "t_prev h" r as x bs'] d by (simp add: b_def a_def)
  qed
  have la: "t_alloc h a" "t_alloc h b" using ia ib al ab(1) by auto
  have tb: "t \<noteq> b" "t \<noteq> a" using ia ib t(2) ab(1) by auto
  define h1 where "h1 = t_set_prev t (Some a) h"
  define h2 where "h2 = t_set_next t (Some b) h1"
  define h' where "h' = t_set_prev b (Some t) (t_set_next a (Some t) h2)"
  have n2: "t_prev h2 = (t_prev h)(t := Some a)" "t_next h2 = (t_next h)(t := Some b)" "t_alloc h2 = t_alloc h"
    using t(1) by (simp_all add: h2_def h1_def th.heap_simps)
  have n': "t_next h' = (t_next h)(a := Some t, t := Some b)" "t_prev h' = (t_prev h)(t := Some a, b := Some t)" "t_alloc h' = t_alloc h"
    using la n2 tb by (auto simp: h'_def th.heap_simps fun_upd_twist)
  have "List_InsertSorted r (Some t) h = Inr h'"
    using False tlist_first [OF l] ab(4) pb n2 tb
    by (simp add: List_InsertSorted_def b_def [symmetric] t_deref_def Let_def h1_def [symmetric] h2_def [symmetric] h'_def)
  moreover have "tlist h' r (as @ t # bs)"
    using dll_insert [OF d _ a_def b_def, of t] t al ab(1) n' by (auto simp: tlist_def)
  moreover have "t_frame (set (t # r # xs)) h h'"
    unfolding h'_def h2_def h1_def using ia ib ab(1)
    by (intro t_frame_trans [OF t_frame_trans [OF t_frame_trans [OF t_frame_set(2) t_frame_set(1)] t_frame_set(1)] t_frame_set(2)]) auto
  ultimately show ?thesis using ab by blast
qed

lemma SafeClear_loop_spec:
  "tlist h r xs \<Longrightarrow> length xs \<le> fuel \<Longrightarrow> \<exists>h'. SafeClear_loop r fuel h = Inr h' \<and> t_frame (set (r # xs)) h h' \<and> tlist h' r []"
proof (induction xs arbitrary: h fuel)
  case Nil
  then show ?case using tlist_first(2) [OF Nil(1)] by (subst SafeClear_loop.simps) (simp add: t_frame_def)
next
  case (Cons x xs)
  obtain fuel' where fu: "fuel = Suc fuel'" "length xs \<le> fuel'" using Cons.prems(2) by (cases fuel) auto
  obtain h1 where h1: "t_unlink x h = Inr h1" "t_frame (set (r # x # xs)) h h1" "tlist h1 r xs"
    using t_unlink_spec [of h r "[]" x xs] Cons.prems(1) by auto
  have ne: "x \<noteq> r" using Cons.prems(1) by (auto simp: tlist_def dll_def)
  obtain h' where h': "SafeClear_loop r fuel' h1 = Inr h'" "t_frame (set (r # xs)) h1 h'" "tlist h' r []"
    using Cons.IH [OF h1(3) fu(2)] by blast
  have "SafeClear_loop r fuel h = Inr h'"
    using tlist_first [OF Cons.prems(1)] ne h1(1) h'(1)
    by (subst SafeClear_loop.simps) (simp add: fu(1) t_deref_def List_Remove_def)
  moreover have "t_frame (set (r # x # xs)) h h'"
    by (rule t_frame_trans [OF h1(2)]) (rule t_frame_mono [OF h'(2)], auto)
  ultimately show ?case using h'(3) by blast
qed

fun t_visit :: "('d Timer \<Rightarrow> 's \<Rightarrow> 's \<times> bool) \<Rightarrow> 'd Timer list \<Rightarrow> 's \<Rightarrow> 's" where
  "t_visit fn [] s = s"
| "t_visit fn (v # vs) s = (let (s1, goon) = fn v s in if goon then t_visit fn vs s1 else s1)"

lemma Range_loop_spec:
  "tlist h r (ys @ xs) \<Longrightarrow> length xs \<le> fuel \<Longrightarrow>
     Range_loop fn r fuel (Some (hd (xs @ [r]))) h s = Inr (t_visit fn (map (\<lambda>x. h ! x) xs) s)"
proof (induction xs arbitrary: ys fuel s)
  case Nil
  then show ?case by (subst Range_loop.simps) simp
next
  case (Cons x xs)
  have d: "dll (t_next h) (t_prev h) r (ys @ x # xs)" using Cons.prems(1) by (simp add: tlist_def)
  have ne: "x \<noteq> r" using d by (auto simp: dll_def)
  obtain fuel' where fu: "fuel = Suc fuel'" "length xs \<le> fuel'" using Cons.prems(2) by (cases fuel) auto
  obtain s1 goon where fn: "fn (h ! x) s = (s1, goon)" by force
  show ?case
    using ne dll_at(1) [OF d] fu fn Cons.IH [of "ys @ [x]" fuel' s1] Cons.prems(1)
    by (subst Range_loop.simps) (simp add: t_deref_def)
qed

text \<open>\<open>PopRange\<close> hands every timer, unlinked, to the callback, as long as the callback keeps the list as
  it is and asks for more.\<close>

lemma PopRange_spec:
  assumes keeps: "\<And>t h s xs. tlist h r xs \<Longrightarrow> \<exists>h' s'. fn t h s = Inr (h', s', goes t) \<and> tlist h' r xs"
  shows "tlist h r xs \<Longrightarrow> \<exists>h' s'. List_PopRange fn r h s = Some (Inr (h', s')) \<and> tlist h' r (tl (dropWhile goes xs))"
proof (induction xs arbitrary: h s)
  case Nil
  then show ?case using tlist_first(2) [OF Nil] by (subst List_PopRange.simps) simp
next
  case (Cons x xs)
  obtain h1 where h1: "t_unlink x h = Inr h1" "tlist h1 r xs"
    using t_unlink_spec [of h r "[]" x xs] Cons.prems(1) by auto
  have ne: "x \<noteq> r" using Cons.prems(1) by (auto simp: tlist_def dll_def)
  obtain h2 s2 where h2: "fn x h1 s = Inr (h2, s2, goes x)" "tlist h2 r xs" using keeps [OF h1(2)] by blast
  have "List_PopRange fn r h s = (if goes x then List_PopRange fn r h2 s2 else Some (Inr (h2, s2)))"
    using tlist_first [OF Cons.prems(1)] ne h1(1) h2(1)
    by (subst List_PopRange.simps) (simp add: t_deref_def List_Remove_def)
  then show ?case using Cons.IH [OF h2(2), of s2] h2(2) by (auto split: if_splits)
qed


section \<open>Properties\<close>

text \<open>C11: the timer lists are lists, and separate ones. On a list of timers \<open>xs\<close> every operation returns:
  \<open>PushBack\<close> appends a timer that is in no list, \<open>InsertSorted\<close> puts it behind the timers that expire no
  later and before the first that does, so that a sorted list stays sorted, \<open>Remove\<close> and
  \<open>removeFromList\<close> unlink a timer and clear its links, after which \<open>removeFromList\<close> reports false;
  \<open>SafeClear\<close> and \<open>Clear\<close> empty the list and \<open>Range\<close> visits it in order. None of them touches the timers'
  own fields or a list that shares no node with this one.\<close>

theorem timer_list_refines_list:
  assumes l: "tlist h r xs" and t: "t_alloc h t" "t \<notin> set (r # xs)"
    and o: "tlist h r' ys" "set (r' # ys) \<inter> set (t # r # xs) = {}"
  shows "(List_IsEmpty r h \<longleftrightarrow> xs = [])
    \<and> (\<exists>h'. List_PushBack r t h = Inr h' \<and> tlist h' r (xs @ [t]) \<and> tlist h' r' ys \<and> t_frame (set (t # r # xs)) h h')
    \<and> (\<exists>h' as bs. List_InsertSorted r (Some t) h = Inr h' \<and> xs = as @ bs \<and> tlist h' r (as @ t # bs) \<and> tlist h' r' ys
        \<and> (\<forall>a \<in> set as. tm_when (h ! a) \<le> tm_when (h ! t)) \<and> (bs \<noteq> [] \<longrightarrow> tm_when (h ! t) < tm_when (h ! hd bs)))
    \<and> (\<forall>as x bs. xs = as @ x # bs \<longrightarrow>
        (\<exists>h'. List_Remove r x h = Inr (True, h') \<and> removeFromList x h = Inr (True, h') \<and> tlist h' r (as @ bs) \<and> tlist h' r' ys
          \<and> t_frame (set (r # xs)) h h' \<and> removeFromList x h' = Inr (False, h')))
    \<and> (\<exists>h'. List_SafeClear r h = Inr h' \<and> tlist h' r [] \<and> tlist h' r' ys)
    \<and> tlist (List_Clear r h) r [] \<and> tlist (List_Clear r h) r' ys
    \<and> List_Range fn r h s = Inr (t_visit fn (map (\<lambda>x. h ! x) xs) s)"
proof (intro conjI allI impI)
  have o': "set (r' # ys) \<inter> set (r # xs) = {}" using o(2) by auto
  show "List_IsEmpty r h \<longleftrightarrow> xs = []" by (rule tlist_first(2) [OF l])
  show "\<exists>h'. List_PushBack r t h = Inr h' \<and> tlist h' r (xs @ [t]) \<and> tlist h' r' ys \<and> t_frame (set (t # r # xs)) h h'"
    using PushBack_spec [OF l t] t_frame_other [OF _ o] by blast
  show "\<exists>h' as bs. List_InsertSorted r (Some t) h = Inr h' \<and> xs = as @ bs \<and> tlist h' r (as @ t # bs) \<and> tlist h' r' ys
      \<and> (\<forall>a \<in> set as. tm_when (h ! a) \<le> tm_when (h ! t)) \<and> (bs \<noteq> [] \<longrightarrow> tm_when (h ! t) < tm_when (h ! hd bs))"
    using InsertSorted_spec [OF l t] t_frame_other [OF _ o] by blast
  show "\<exists>h'. List_Remove r x h = Inr (True, h') \<and> removeFromList x h = Inr (True, h') \<and> tlist h' r (as @ bs) \<and> tlist h' r' ys
      \<and> t_frame (set (r # xs)) h h' \<and> removeFromList x h' = Inr (False, h')" if xs: "xs = as @ x # bs" for as x bs
  proof -
    have d: "dll (t_next h) (t_prev h) r (as @ x # bs)" using l xs by (simp add: tlist_def)
    have ne: "x \<noteq> r" using d by (auto simp: dll_def)
    obtain h' where h': "t_unlink x h = Inr h'" "t_frame (set (r # xs)) h h'" "tlist h' r (as @ bs)" "t_next h' x = None" "t_prev h' x = None"
      using t_unlink_spec [of h r as x bs] l xs by auto
    then show ?thesis
      using ne dll_at [OF d] t_frame_other [OF h'(2) o(1) o']
      by (intro exI [of _ h']) (simp add: List_Remove_def removeFromList_def)
  qed
  show "\<exists>h'. List_SafeClear r h = Inr h' \<and> tlist h' r [] \<and> tlist h' r' ys"
    using SafeClear_loop_spec [OF l, of "length h"] tlist_length [OF l] t_frame_other [OF _ o(1) o']
    unfolding List_SafeClear_def by (metis less_imp_le)
  have al: "t_alloc h r" using l by (simp add: tlist_def)
  show "tlist (List_Clear r h) r []"
    using al by (simp add: List_Clear_def tlist_def dll_empty th.heap_simps)
  show "tlist (List_Clear r h) r' ys"
    by (rule t_frame_other [OF _ o(1) o']) (simp add: List_Clear_def t_frame_trans [OF t_frame_set(2) t_frame_set(1)])
  show "List_Range fn r h s = Inr (t_visit fn (map (\<lambda>x. h ! x) xs) s)"
    using Range_loop_spec [of h r "[]" xs "length h" fn s] l tlist_length [OF l] tlist_first(1) [OF l]
    by (simp add: List_Range_def)
qed

lemma newTimerList_spec:
  assumes "newTimerList zero h = (r, h')"
  shows "tlist h' r [] \<and> (\<forall>r' ys. tlist h r' ys \<longrightarrow> tlist h' r' ys \<and> r \<notin> set (r' # ys))"
proof -
  have r: "r = length h" "h' = h @ [zero\<lparr>tm_prev := Some r, tm_next := Some r\<rparr>]"
    using assms by (auto simp: newTimerList_def Let_def)
  have at: "h' ! a = h ! a" if "a < length h" for a using that r by (simp add: nth_append)
  have "tlist h' r []" by (simp add: tlist_def dll_empty t_defs r)
  moreover have "tlist h' r' ys \<and> r \<notin> set (r' # ys)" if "tlist h r' ys" for r' ys
  proof -
    have al: "\<forall>a \<in> set (r' # ys). a < length h" using that by (simp add: tlist_def t_alloc_def)
    have "dll (t_next h') (t_prev h') r' ys"
      by (rule dll_frame [of "t_next h" "t_prev h"]) (use that al at in \<open>auto simp: tlist_def t_next_def t_prev_def\<close>)
    then show ?thesis using al r by (auto simp: tlist_def t_alloc_def)
  qed
  ultimately show ?thesis by blast
qed

theorem timer_list_refines_list_witness:
  "let z = \<lparr>tm_id = 0, tm_when = 0, tm_data = (), tm_receiver = None, tm_batch = None, tm_prev = None, tm_next = None\<rparr>;
       (r, h1) = newTimerList z [z];
       (r', h2) = newTimerList z h1
   in \<exists>h'. List_PushBack r 0 h2 = Inr h' \<and> tlist h' r [0] \<and> tlist h' r' []"
proof -
  define z :: "unit Timer" where "z = \<lparr>tm_id = 0, tm_when = 0, tm_data = (), tm_receiver = None, tm_batch = None, tm_prev = None, tm_next = None\<rparr>"
  define h1 where "h1 = snd (newTimerList z [z])"
  define h2 where "h2 = snd (newTimerList z h1)"
  have 1: "newTimerList z [z] = (1, h1)" by (simp add: h1_def newTimerList_def)
  have 2: "newTimerList z h1 = (2, h2)" using 1 by (simp add: h2_def newTimerList_def Let_def) auto
  have t: "tlist h2 1 []" "tlist h2 2 []" using newTimerList_spec [OF 1] newTimerList_spec [OF 2] by blast+
  have "t_alloc h2 0" using t(1) by (auto simp: tlist_def t_alloc_def)
  from timer_list_refines_list [OF t(1) this _ t(2), where fn = "\<lambda>_ s. (s, True)" and s = "()"] show ?thesis
    unfolding Let_def z_def [symmetric] 1 case_prod_conv 2 by auto
qed

end
