(* ===== verification/Clock.thy ===== *)
theory Clock
  imports Timer_List
begin

text \<open>
  The hierarchical timing wheel of \<open>src/clock/clock.go\<close>: four levels of slots, each slot a list of timers.
  Slot lists are the lists that the pointer operations of \<open>Timer_List\<close> implement; a missing (nil) list
  and an empty one behave alike and are both \<open>[]\<close>. Indices stay within the wheels
  (\<open>place_in_bounds\<close>), so a wheel is a function of its indices. The times come from the
  environment, and so does the answer of the non-blocking send to a receiver.
\<close>

unbundle bit_operations_syntax

section \<open>Constants\<close>

definition SI :: int where
  "SI = 10 * 2 ^ 1"

definition TIME_WHEEL_LEVEL :: nat where
  "TIME_WHEEL_LEVEL = 4"

definition LEVEL_DIVIS :: "nat \<Rightarrow> nat" where
  "LEVEL_DIVIS level = [0, 10, 18, 24] ! level"

definition LEVEL_SLOTS :: "nat \<Rightarrow> int" where
  "LEVEL_SLOTS level = [2 ^ 10, 2 ^ 8, 2 ^ 6, 2 ^ 6] ! level"

definition LEVEL_MASKS :: "nat \<Rightarrow> int" where
  "LEVEL_MASKS level = LEVEL_SLOTS level - 1"

fun LEVEL_TICKS :: "nat \<Rightarrow> int" where
  "LEVEL_TICKS 0 = LEVEL_SLOTS 0"
| "LEVEL_TICKS (Suc i) = LEVEL_SLOTS (Suc i) * LEVEL_TICKS i"


section \<open>The clock\<close>

record 'd Promise =
  p_TimerId :: int
  p_NowTs :: int
  p_Data :: 'd

record 'd Clock =
  c_genId :: int
  c_lastTime :: int
  c_slot :: "nat \<Rightarrow> int"
  c_tw :: "nat \<Rightarrow> int \<Rightarrow> 'd TimerData list"
  c_locs :: "int \<Rightarrow> 'd TimerData option"

text \<open>What a trigger has delivered: single promises to receivers, and batches.\<close>

record 'd Out =
  o_sent :: "(nat \<times> 'd Promise) list"
  o_batchs :: "(nat \<times> 'd Promise list) list"

definition NewClock :: "'d Clock" where
  "NewClock = \<lparr>c_genId = 0, c_lastTime = 0, c_slot = (\<lambda>i. 0), c_tw = (\<lambda>i s. []), c_locs = Map.empty\<rparr>"

definition ticks_to :: "int \<Rightarrow> int \<Rightarrow> int" where
  "ticks_to when base = (let ticks = i64 (i64 (when - base) + SI - 1) sdiv SI in if ticks \<le> 0 then 1 else ticks)"

fun find_level :: "int \<Rightarrow> nat \<Rightarrow> nat \<Rightarrow> nat" where
  "find_level ticks level 0 = level"
| "find_level ticks level (Suc n) = (if ticks < LEVEL_TICKS level then level else find_level ticks (Suc level) n)"

definition place :: "int \<Rightarrow> (nat \<Rightarrow> int) \<Rightarrow> nat \<times> int" where
  "place ticks slots =
    (let level = find_level ticks 0 TIME_WHEEL_LEVEL
     in if level = TIME_WHEEL_LEVEL then (level - 1, LEVEL_MASKS (level - 1))
        else (level, (drop_bit (LEVEL_DIVIS level) ticks + slots level) AND LEVEL_MASKS level))"

definition set_tw :: "nat \<Rightarrow> int \<Rightarrow> 'd TimerData list \<Rightarrow> 'd Clock \<Rightarrow> 'd Clock" where
  "set_tw level slot ts c = c\<lparr>c_tw := (c_tw c)(level := (c_tw c level)(slot := ts))\<rparr>"

definition putTimer :: "nat \<Rightarrow> int \<Rightarrow> 'd TimerData \<Rightarrow> 'd Clock \<Rightarrow> 'd Clock" where
  "putTimer level slot timer c =
    (let c1 = set_tw level slot (c_tw c level slot @ [timer]) c
     in c1\<lparr>c_locs := (c_locs c1)(tm_id timer \<mapsto> timer)\<rparr>)"

definition addTimer :: "'d TimerData \<Rightarrow> 'd Clock \<Rightarrow> 'd Clock" where
  "addTimer timer c =
    (let ticks = ticks_to (tm_when timer) (c_lastTime c);
         (level, slot) = place ticks (c_slot c)
     in putTimer level slot timer c)"

text \<open>Unlinking takes the timer out of the list it is in, whichever that is.\<close>

definition unlink_timer :: "int \<Rightarrow> 'd Clock \<Rightarrow> 'd Clock" where
  "unlink_timer tid c = c\<lparr>c_tw := (\<lambda>level slot. [t \<leftarrow> c_tw c level slot. tm_id t \<noteq> tid])\<rparr>"

definition delTimer :: "int \<Rightarrow> 'd Clock \<Rightarrow> 'd TimerData option \<times> 'd Clock" where
  "delTimer tid c =
    (case c_locs c tid of
       Some timer \<Rightarrow> let c1 = unlink_timer tid c in (Some timer, c1\<lparr>c_locs := (c_locs c1)(tid := None)\<rparr>)
     | None \<Rightarrow> (None, c))"

definition updateTimer :: "int \<Rightarrow> int \<Rightarrow> 'd Clock \<Rightarrow> bool \<times> 'd Clock" where
  "updateTimer tid when c =
    (case delTimer tid c of
       (Some t, c1) \<Rightarrow> (True, addTimer (t\<lparr>tm_when := when\<rparr>) c1)
     | (None, c1) \<Rightarrow> (False, c1))"

text \<open>The tasks that the three public operations hand to the clock's goroutine.\<close>

definition NewTimer_task :: "int \<Rightarrow> 'd \<Rightarrow> nat option \<Rightarrow> nat option \<Rightarrow> 'd Clock \<Rightarrow> int \<times> 'd Clock" where
  "NewTimer_task when data receiver batch c =
    (let c1 = c\<lparr>c_genId := c_genId c + 1\<rparr>;
         t = \<lparr>tm_id = c_genId c1, tm_when = when, tm_data = data, tm_receiver = receiver, tm_batch = batch\<rparr>
     in (tm_id t, addTimer t c1))"

definition CancelTimer_task :: "int \<Rightarrow> 'd Clock \<Rightarrow> bool \<times> 'd Clock" where
  "CancelTimer_task tid c = (let (t, c1) = delTimer tid c in (t \<noteq> None, c1))"

definition UpdateTimer_task :: "int \<Rightarrow> int \<Rightarrow> 'd Clock \<Rightarrow> bool \<times> 'd Clock" where
  "UpdateTimer_task tid when c = updateTimer tid when c"

text \<open>\<open>PopRange\<close> with a callback that always asks for more: it takes the first timer off the list at
  \<open>(level, slot)\<close> and calls back, until that list is empty. The callback may append to the same list, so
  the loop may not end.\<close>

partial_function (option) popRange :: "('d TimerData \<Rightarrow> 'd Clock \<times> 's \<Rightarrow> 'd Clock \<times> 's) \<Rightarrow> nat \<Rightarrow> int \<Rightarrow> 'd Clock \<times> 's \<Rightarrow> ('d Clock \<times> 's) option" where
  "popRange fn level slot st =
    (case c_tw (fst st) level slot of
       [] \<Rightarrow> Some st
     | t # ts \<Rightarrow> popRange fn level slot (fn t (set_tw level slot ts (fst st), snd st)))"

text \<open>\<open>batchs[ch] = append(batchs[ch], promise)\<close>.\<close>

fun add_batch :: "nat \<Rightarrow> 'p \<Rightarrow> (nat \<times> 'p list) list \<Rightarrow> (nat \<times> 'p list) list" where
  "add_batch ch p [] = [(ch, [p])]"
| "add_batch ch p ((ch', ps) # bs) = (if ch' = ch then (ch, ps @ [p]) # bs else (ch', ps) # add_batch ch p bs)"

definition trigger_fn :: "(nat \<Rightarrow> 'd Promise \<Rightarrow> bool) \<Rightarrow> int \<Rightarrow> 'd TimerData \<Rightarrow> 'd Clock \<times> 'd Out \<Rightarrow> 'd Clock \<times> 'd Out" where
  "trigger_fn ready nowMs timer = (\<lambda>(c, out).
    let c1 = c\<lparr>c_locs := (c_locs c)(tm_id timer := None)\<rparr>
    in if tm_when timer \<le> nowMs
       then let promise = \<lparr>p_TimerId = tm_id timer, p_NowTs = nowMs, p_Data = tm_data timer\<rparr>
            in case tm_batch timer of
                 Some ch \<Rightarrow> (c1, out\<lparr>o_batchs := add_batch ch promise (o_batchs out)\<rparr>)
               | None \<Rightarrow>
                   (case tm_receiver timer of
                      Some ch \<Rightarrow>
                        if ready ch promise then (c1, out\<lparr>o_sent := o_sent out @ [(ch, promise)]\<rparr>)
                        else (putTimer 0 ((c_slot c1 0 + 1) AND LEVEL_MASKS 0) timer c1, out)
                    | None \<Rightarrow> (putTimer 0 ((c_slot c1 0 + 1) AND LEVEL_MASKS 0) timer c1, out))
       else (addTimer timer c1, out))"

definition trigger :: "(nat \<Rightarrow> 'd Promise \<Rightarrow> bool) \<Rightarrow> int \<Rightarrow> 'd Clock \<Rightarrow> ('d Clock \<times> 'd Out) option" where
  "trigger ready nowMs c = popRange (trigger_fn ready nowMs) 0 (c_slot c 0) (c, \<lparr>o_sent = [], o_batchs = []\<rparr>)"

definition cascade_fn :: "int \<Rightarrow> 'd TimerData \<Rightarrow> 'd Clock \<times> unit \<Rightarrow> 'd Clock \<times> unit" where
  "cascade_fn tkTime timer = (\<lambda>(c, _).
    let ticks = ticks_to (tm_when timer) tkTime;
        (level, slot) = place ticks (c_slot c)
    in (putTimer level slot timer c, ()))"

fun cascade :: "int \<Rightarrow> nat list \<Rightarrow> 'd Clock \<Rightarrow> 'd Clock option" where
  "cascade tkTime [] c = Some c"
| "cascade tkTime (i # is) c =
    (if c_slot c (i - 1) \<noteq> 0 then Some c
     else let c1 = c\<lparr>c_slot := (c_slot c)(i := (c_slot c i + 1) AND LEVEL_MASKS i)\<rparr>
          in case popRange (cascade_fn tkTime) i (c_slot c1 i) (c1, ()) of
               None \<Rightarrow> None
             | Some (c2, _) \<Rightarrow> cascade tkTime is c2)"

definition tick :: "(nat \<Rightarrow> 'd Promise \<Rightarrow> bool) \<Rightarrow> int \<Rightarrow> int \<Rightarrow> 'd Clock \<Rightarrow> ('d Clock \<times> 'd Out) option" where
  "tick ready nowMs tkTime c =
    (let c1 = c\<lparr>c_slot := (c_slot c)(0 := (c_slot c 0 + 1) AND LEVEL_MASKS 0)\<rparr>
     in case trigger ready nowMs c1 of
          None \<Rightarrow> None
        | Some (c2, out) \<Rightarrow> map_option (\<lambda>c3. (c3, out)) (cascade tkTime [1 ..< TIME_WHEEL_LEVEL] c2))"

text \<open>One expiry of the ticker in \<open>run\<close>: the ticks that have become due since the last one. \<open>ready k\<close> is the
  answer of the receivers during the \<open>k\<close>-th of them.\<close>

fun tick_loop :: "(nat \<Rightarrow> nat \<Rightarrow> 'd Promise \<Rightarrow> bool) \<Rightarrow> int \<Rightarrow> int \<Rightarrow> nat \<Rightarrow> nat \<Rightarrow> 'd Clock \<Rightarrow> ('d Clock \<times> 'd Out list) option" where
  "tick_loop ready nowMs tk k 0 c = Some (c, [])"
| "tick_loop ready nowMs tk k (Suc n) c =
    (case tick (ready k) nowMs tk c of
       None \<Rightarrow> None
     | Some (c1, out) \<Rightarrow> map_option (\<lambda>(c2, outs). (c2, out # outs)) (tick_loop ready nowMs (tk + SI) (Suc k) n c1))"

definition run_tick :: "(nat \<Rightarrow> nat \<Rightarrow> 'd Promise \<Rightarrow> bool) \<Rightarrow> int \<Rightarrow> 'd Clock \<Rightarrow> ('d Clock \<times> 'd Out list) option" where
  "run_tick ready nowMs c =
    (let tk = c_lastTime c + SI;
         c1 = c\<lparr>c_lastTime := c_lastTime c + SI * ((nowMs - c_lastTime c) sdiv SI)\<rparr>
     in tick_loop ready nowMs tk 0 (nat ((c_lastTime c1 - tk) div SI + 1)) c1)"

text \<open>The start of \<open>run\<close>.\<close>

definition run_start :: "int \<Rightarrow> 'd Clock \<Rightarrow> 'd Clock" where
  "run_start nowMs c = c\<lparr>c_lastTime := nowMs\<rparr>"


section \<open>Placement\<close>

text \<open>One slot of level \<open>l\<close> spans \<open>wide l\<close> ticks.\<close>

definition wide :: "nat \<Rightarrow> int" where
  "wide l = 2 ^ LEVEL_DIVIS l"

lemma level_cases: "l < TIME_WHEEL_LEVEL \<Longrightarrow> l = 0 \<or> l = 1 \<or> l = 2 \<or> l = 3"
  by (auto simp: TIME_WHEEL_LEVEL_def)

lemmas level_defs = LEVEL_DIVIS_def LEVEL_SLOTS_def TIME_WHEEL_LEVEL_def wide_def numeral_2_eq_2 numeral_3_eq_3

lemma levels_upt: "[1 ..< TIME_WHEEL_LEVEL] = [1, 2, 3]"
  by (simp add: TIME_WHEEL_LEVEL_def upt_rec)

lemma LEVEL_TICKS_eq: "l < TIME_WHEEL_LEVEL \<Longrightarrow> LEVEL_TICKS l = wide l * LEVEL_SLOTS l"
  by (drule level_cases, elim disjE) (simp_all add: level_defs)

lemma wide_pos: "l < TIME_WHEEL_LEVEL \<Longrightarrow> 0 < wide l"
  by (simp add: wide_def)

lemma wide_0 [simp]: "wide 0 = 1"
  by (simp add: level_defs)

lemma wide_Suc: "Suc l < TIME_WHEEL_LEVEL \<Longrightarrow> wide (Suc l) = LEVEL_TICKS l"
  by (drule level_cases, elim disjE) (simp_all add: level_defs)

lemma LEVEL_SLOTS_ge: "l < TIME_WHEEL_LEVEL \<Longrightarrow> 64 \<le> LEVEL_SLOTS l"
  by (drule level_cases, elim disjE) (simp_all add: level_defs)

lemma and_mask: "l < TIME_WHEEL_LEVEL \<Longrightarrow> x AND LEVEL_MASKS l = x mod LEVEL_SLOTS l"
proof -
  assume l: "l < TIME_WHEEL_LEVEL"
  have "LEVEL_SLOTS l = 2 ^ ([10, 8, 6, 6] ! l)" using level_cases [OF l] by (elim disjE) (simp_all add: level_defs)
  then obtain k where "LEVEL_SLOTS l = 2 ^ k" by blast
  then show ?thesis by (simp add: LEVEL_MASKS_def mask_eq_exp_minus_1 [symmetric] take_bit_eq_mask [symmetric] take_bit_eq_mod)
qed

lemma find_level_spec:
  assumes "\<forall>k < l. LEVEL_TICKS k \<le> ticks"
  shows "find_level ticks l n \<le> l + n \<and> (\<forall>k < find_level ticks l n. LEVEL_TICKS k \<le> ticks)
     \<and> (find_level ticks l n < l + n \<longrightarrow> ticks < LEVEL_TICKS (find_level ticks l n))"
  using assms
proof (induction n arbitrary: l)
  case 0
  then show ?case by simp
next
  case (Suc n)
  show ?case
  proof (cases "ticks < LEVEL_TICKS l")
    case True
    then show ?thesis using Suc.prems by simp
  next
    case False
    then have "\<forall>k < Suc l. LEVEL_TICKS k \<le> ticks" using Suc.prems less_Suc_eq not_less by metis
    from Suc.IH [OF this] False show ?thesis by simp
  qed
qed

text \<open>Where a timer that is \<open>ticks\<close> ticks away goes: to the first level whose range covers it, or, beyond
  all of them, to the last slot of the last level.\<close>

lemma place_cases:
  assumes t: "1 \<le> ticks" and p: "place ticks slots = (l, p)"
  shows "l < TIME_WHEEL_LEVEL \<and> 0 \<le> p \<and> p < LEVEL_SLOTS l
    \<and> (wide l \<le> ticks \<and> ticks < LEVEL_TICKS l \<and> p = (ticks div wide l + slots l) mod LEVEL_SLOTS l
       \<or> LEVEL_TICKS 3 \<le> ticks \<and> l = 3 \<and> p = LEVEL_SLOTS 3 - 1)"
proof -
  let ?f = "find_level ticks 0 TIME_WHEEL_LEVEL"
  have f: "?f \<le> TIME_WHEEL_LEVEL" "\<forall>k < ?f. LEVEL_TICKS k \<le> ticks" "?f < TIME_WHEEL_LEVEL \<longrightarrow> ticks < LEVEL_TICKS ?f"
    using find_level_spec [of 0 ticks TIME_WHEEL_LEVEL] by auto
  show ?thesis
  proof (cases "?f = TIME_WHEEL_LEVEL")
    case True
    then have l: "l = 3" "p = LEVEL_SLOTS 3 - 1" using p by (auto simp: place_def LEVEL_MASKS_def TIME_WHEEL_LEVEL_def)
    moreover have "3 < TIME_WHEEL_LEVEL" by (simp add: TIME_WHEEL_LEVEL_def)
    moreover have "LEVEL_TICKS 3 \<le> ticks" using f(2) True by (simp add: TIME_WHEEL_LEVEL_def)
    ultimately show ?thesis using LEVEL_SLOTS_ge [of 3] by simp
  next
    case False
    then have l: "l = ?f" "l < TIME_WHEEL_LEVEL" using p f(1) by (auto simp: place_def Let_def)
    have pp: "p = (ticks div wide l + slots l) mod LEVEL_SLOTS l"
      using p False l by (auto simp: place_def Let_def and_mask drop_bit_eq_div wide_def)
    have "wide l \<le> ticks"
    proof (cases l)
      case 0
      then show ?thesis using t by simp
    next
      case (Suc k)
      then show ?thesis using f(2) l wide_Suc [of k] by auto
    qed
    then show ?thesis using pp l f(3) LEVEL_SLOTS_ge [OF l(2)] by simp
  qed
qed

lemma ticks_to_pos: "1 \<le> ticks_to when base"
  by (simp add: ticks_to_def Let_def)

text \<open>The tick at which a timer is due, counted from \<open>base\<close>.\<close>

definition due :: "int \<Rightarrow> 'd TimerData \<Rightarrow> int" where
  "due base t = (tm_when t - base + 19) div 20"

lemma ticks_to_due:
  assumes "0 \<le> tm_when t" "tm_when t < 2 ^ 62" "0 \<le> base + 20 * T" "base + 20 * T < 2 ^ 62"
  shows "ticks_to (tm_when t) (base + 20 * T) = max 1 (due base t - T)"
proof -
  let ?d = "tm_when t - (base + 20 * T)"
  have pw: "(2 :: int) ^ 62 = 4611686018427387904" "(2 :: int) ^ 63 = 9223372036854775808" by simp_all
  have r: "- (2 ^ 62) < ?d" "?d < 2 ^ 62" using assms by linarith+
  then have "i64 ?d = ?d" "i64 (?d + 20 - 1) = ?d + 19"
    using i64_small [of ?d] i64_small [of "?d + 20 - 1"] pw by linarith+
  then have tk: "ticks_to (tm_when t) (base + 20 * T) = (let k = (?d + 19) sdiv 20 in if k \<le> 0 then 1 else k)"
    by (simp add: ticks_to_def SI_def)
  have dv: "(?d + 19) div 20 = due base t - T"
  proof -
    have "?d + 19 = tm_when t - base + 19 + (- T) * 20" by simp
    then have "(?d + 19) div 20 = (tm_when t - base + 19 + (- T) * 20) div 20" by (rule arg_cong)
    also have "\<dots> = - T + (tm_when t - base + 19) div 20" by (rule div_mult_self1) simp
    finally show ?thesis by (simp add: due_def)
  qed
  show ?thesis
  proof (cases "0 \<le> ?d + 19")
    case True
    then have "(?d + 19) sdiv 20 = (?d + 19) div 20" by (simp add: signed_divide_int_def sgn_if)
    then show ?thesis using tk dv by (simp add: Let_def max_def)
  next
    case False
    then have s: "(?d + 19) sdiv 20 \<le> 0" by (simp add: signed_divide_int_def sgn_if pos_imp_zdiv_nonneg_iff)
    have "(?d + 19) div 20 < 0" using False by (simp add: pos_imp_zdiv_neg_iff)
    then show ?thesis using tk dv s by (simp add: Let_def max_def)
  qed
qed


section \<open>The wheels and the map of timers agree\<close>

text \<open>Every timer of a wheel is in the map under its id, is in one place only, and conversely; ids have
  been given out.\<close>

definition store_ok :: "'d Clock \<Rightarrow> bool" where
  "store_ok c \<longleftrightarrow>
     (\<forall>l s t. t \<in> set (c_tw c l s) \<longrightarrow> c_locs c (tm_id t) = Some t \<and> l < TIME_WHEEL_LEVEL \<and> 0 \<le> s \<and> s < LEVEL_SLOTS l)
   \<and> (\<forall>l s. distinct (c_tw c l s))
   \<and> (\<forall>l s l' s' t. t \<in> set (c_tw c l s) \<longrightarrow> t \<in> set (c_tw c l' s') \<longrightarrow> l = l' \<and> s = s')
   \<and> (\<forall>i t. c_locs c i = Some t \<longrightarrow> tm_id t = i \<and> i \<le> c_genId c \<and> (\<exists>l s. t \<in> set (c_tw c l s)))"

lemma store_mono:
  assumes "store_ok c" and "c_tw c' = c_tw c" and "c_locs c' = c_locs c" and "c_genId c \<le> c_genId c'"
  shows "store_ok c'"
  using assms(1,4) unfolding store_ok_def assms(2,3) by (meson order_trans)

definition forget :: "int \<Rightarrow> 'd Clock \<Rightarrow> 'd Clock" where
  "forget i c = c\<lparr>c_locs := (c_locs c)(i := None)\<rparr>"

lemma store_okD:
  assumes "store_ok c"
  shows "t \<in> set (c_tw c l s) \<Longrightarrow> c_locs c (tm_id t) = Some t" and "t \<in> set (c_tw c l s) \<Longrightarrow> l < TIME_WHEEL_LEVEL \<and> 0 \<le> s \<and> s < LEVEL_SLOTS l"
    and "distinct (c_tw c l s)" and "t \<in> set (c_tw c l s) \<Longrightarrow> t \<in> set (c_tw c l' s') \<Longrightarrow> l = l' \<and> s = s'"
    and "c_locs c i = Some t \<Longrightarrow> tm_id t = i \<and> i \<le> c_genId c" and "c_locs c i = Some t \<Longrightarrow> \<exists>l s. t \<in> set (c_tw c l s)"
  using assms unfolding store_ok_def by blast+

lemma store_inj:
  assumes "store_ok c" and "t \<in> set (c_tw c l s)" and "t' \<in> set (c_tw c l' s')" and "tm_id t' = tm_id t"
  shows "t' = t"
proof -
  have "Some t' = Some t"
    unfolding store_okD(1) [OF assms(1,2), symmetric] store_okD(1) [OF assms(1,3), symmetric] assms(4) ..
  then show ?thesis by simp
qed

lemma put_fields [simp]:
  "c_slot (putTimer l s t c) = c_slot c" "c_lastTime (putTimer l s t c) = c_lastTime c" "c_genId (putTimer l s t c) = c_genId c"
  "c_locs (putTimer l s t c) = (c_locs c)(tm_id t \<mapsto> t)"
  "c_tw (putTimer l s t c) l' s' = (if l' = l \<and> s' = s then c_tw c l s @ [t] else c_tw c l' s')"
  by (auto simp: putTimer_def set_tw_def)

lemma set_tw_fields [simp]:
  "c_slot (set_tw l s ts c) = c_slot c" "c_lastTime (set_tw l s ts c) = c_lastTime c" "c_genId (set_tw l s ts c) = c_genId c"
  "c_locs (set_tw l s ts c) = c_locs c"
  "c_tw (set_tw l s ts c) l' s' = (if l' = l \<and> s' = s then ts else c_tw c l' s')"
  by (auto simp: set_tw_def)

lemma forget_fields [simp]:
  "c_slot (forget i c) = c_slot c" "c_lastTime (forget i c) = c_lastTime c" "c_genId (forget i c) = c_genId c"
  "c_locs (forget i c) = (c_locs c)(i := None)" "c_tw (forget i c) = c_tw c"
  by (auto simp: forget_def)

lemma store_put:
  assumes c: "store_ok (forget (tm_id t) c)" and l: "l < TIME_WHEEL_LEVEL" "0 \<le> s" "s < LEVEL_SLOTS l" and g: "tm_id t \<le> c_genId c"
  shows "store_ok (putTimer l s t c)"
proof -
  have fresh: "t' \<in> set (c_tw c l' s') \<Longrightarrow> tm_id t' \<noteq> tm_id t \<and> t' \<noteq> t" for t' l' s'
    using store_okD(1) [OF c, of t' l' s'] by auto
  have old: "t' \<in> set (c_tw c l' s') \<Longrightarrow> c_locs c (tm_id t') = Some t'" for t' l' s'
    using store_okD(1) [OF c, of t' l' s'] by (simp split: if_splits)
  have locs: "\<exists>l' s'. t' \<in> set (c_tw c l' s')" "tm_id t' = i \<and> i \<le> c_genId c" if "c_locs c i = Some t'" "i \<noteq> tm_id t" for i t'
    using store_okD(5,6) [OF c, of i t'] that by simp_all
  show ?thesis
    unfolding store_ok_def
  proof (intro conjI allI impI)
    show "c_locs (putTimer l s t c) (tm_id t') = Some t'" if "t' \<in> set (c_tw (putTimer l s t c) l' s')" for l' s' t'
      using that old fresh by (simp split: if_splits) blast+
    show "l' < TIME_WHEEL_LEVEL" "0 \<le> s'" "s' < LEVEL_SLOTS l'" if "t' \<in> set (c_tw (putTimer l s t c) l' s')" for l' s' t'
      using that store_okD(2) [OF c, of t' l' s'] l by (auto split: if_splits)
    show "distinct (c_tw (putTimer l s t c) l' s')" for l' s'
      using store_okD(3) [OF c, of l' s'] fresh by auto
    show "l' = l''" "s' = s''" if "t' \<in> set (c_tw (putTimer l s t c) l' s')" "t' \<in> set (c_tw (putTimer l s t c) l'' s'')" for l' s' l'' s'' t'
      using that store_okD(4) [OF c, of t' l' s' l'' s''] fresh by (auto split: if_splits)
    show "tm_id t' = i" "i \<le> c_genId (putTimer l s t c)" if "c_locs (putTimer l s t c) i = Some t'" for i t'
      using that locs(2) [of i t'] g by (auto split: if_splits)
    show "\<exists>l' s'. t' \<in> set (c_tw (putTimer l s t c) l' s')" if lk: "c_locs (putTimer l s t c) i = Some t'" for i t'
    proof (cases "i = tm_id t")
      case True
      then have "t' \<in> set (c_tw (putTimer l s t c) l s)" using lk by simp
      then show ?thesis by blast
    next
      case False
      then obtain l' s' where "t' \<in> set (c_tw c l' s')" using lk locs(1) [of i t'] by auto
      then have "t' \<in> set (c_tw (putTimer l s t c) l' s')" by auto
      then show ?thesis by blast
    qed
  qed
qed

text \<open>Taking timers with one id out of the wheels and out of the map.\<close>

lemma store_drop:
  assumes c: "store_ok c" and tw: "\<And>l s. c_tw c' l s = [t \<leftarrow> c_tw c l s. tm_id t \<noteq> i]"
    and rest: "c_locs c' = (c_locs c)(i := None)" "c_genId c' = c_genId c"
  shows "store_ok c'"
  unfolding store_ok_def
proof (intro conjI allI impI)
  show "c_locs c' (tm_id t) = Some t" if "t \<in> set (c_tw c' l s)" for l s t
    using that store_okD(1) [OF c, of t l s] by (simp add: tw rest)
  show "l < TIME_WHEEL_LEVEL" "0 \<le> s" "s < LEVEL_SLOTS l" if "t \<in> set (c_tw c' l s)" for l s t
    using that store_okD(2) [OF c, of t l s] by (simp_all add: tw)
  show "distinct (c_tw c' l s)" for l s using store_okD(3) [OF c, of l s] by (simp add: tw)
  show "l = l'" "s = s'" if "t \<in> set (c_tw c' l s)" "t \<in> set (c_tw c' l' s')" for l s l' s' t
    using that store_okD(4) [OF c, of t l s l' s'] by (simp_all add: tw)
  show "tm_id t = j" "j \<le> c_genId c'" if "c_locs c' j = Some t" for j t
    using that store_okD(5) [OF c, of j t] by (simp_all add: rest split: if_splits)
  show "\<exists>l s. t \<in> set (c_tw c' l s)" if "c_locs c' j = Some t" for j t
    using that store_okD(5,6) [OF c, of j t] by (auto simp: rest tw split: if_splits)
qed

lemma store_pop:
  assumes c: "store_ok c" and p: "c_tw c l s = t # ts"
  shows "store_ok (forget (tm_id t) (set_tw l s ts c))"
proof (rule store_drop [OF c])
  fix l' s'
  have other: "tm_id t' \<noteq> tm_id t" if "t' \<in> set (c_tw c l' s')" "(l', s') \<noteq> (l, s) \<or> t' \<in> set ts" for t'
  proof
    assume e: "tm_id t' = tm_id t"
    have t: "t \<in> set (c_tw c l s)" by (simp add: p)
    have tt: "t' = t" by (rule store_inj [OF c t that(1) e])
    have "l' = l \<and> s' = s" by (rule store_okD(4) [OF c that(1)]) (simp add: tt t)
    then have "t \<in> set ts" using that(2) tt by auto
    then show False using store_okD(3) [OF c, of l s] by (simp add: p)
  qed
  show "c_tw (forget (tm_id t) (set_tw l s ts c)) l' s' = [t' \<leftarrow> c_tw c l' s'. tm_id t' \<noteq> tm_id t]"
  proof (cases "l' = l \<and> s' = s")
    case True
    then show ?thesis using other p by (auto intro!: filter_True [symmetric])
  next
    case False
    then show ?thesis using other by (auto intro!: filter_True [symmetric])
  qed
qed simp_all


section \<open>Triggering the timers of a slot\<close>

text \<open>A loop over a slot whose callback leaves that slot's list alone visits its timers once each.\<close>

lemma popRange_rule:
  assumes step: "\<And>pre t ts c s. I pre (c, s) \<Longrightarrow> c_tw c l p = t # ts \<Longrightarrow>
      I (pre @ [t]) (fn t (set_tw l p ts c, s)) \<and> c_tw (fst (fn t (set_tw l p ts c, s))) l p = ts"
    and init: "I pre (c, s)"
  shows "\<exists>c' s'. popRange fn l p (c, s) = Some (c', s') \<and> I (pre @ c_tw c l p) (c', s') \<and> c_tw c' l p = []"
  using init
proof (induction "c_tw c l p" arbitrary: pre c s)
  case Nil
  then show ?case by (subst popRange.simps) simp
next
  case (Cons t ts)
  obtain c1 s1 where f: "fn t (set_tw l p ts c, s) = (c1, s1)" by force
  have st: "I (pre @ [t]) (c1, s1)" "c_tw c1 l p = ts"
    using step [OF Cons.prems Cons.hyps(2) [symmetric]] f by simp_all
  have "popRange fn l p (c, s) = popRange fn l p (c1, s1)"
    using f by (subst popRange.simps) (simp add: Cons.hyps(2) [symmetric])
  then show ?case using Cons.hyps(1) [OF st(2) [symmetric] st(1)] st(2) by (simp add: Cons.hyps(2) [symmetric])
qed

definition promise_of :: "int \<Rightarrow> 'd TimerData \<Rightarrow> 'd Promise" where
  "promise_of nowMs t = \<lparr>p_TimerId = tm_id t, p_NowTs = nowMs, p_Data = tm_data t\<rparr>"

definition batch_of :: "(nat \<times> 'p list) list \<Rightarrow> nat \<Rightarrow> 'p list" where
  "batch_of bs ch = (case map_of bs ch of Some ps \<Rightarrow> ps | None \<Rightarrow> [])"

lemma batch_of_Nil [simp]: "batch_of [] ch = []"
  by (simp add: batch_of_def)

lemma batch_of_add: "batch_of (add_batch ch p bs) ch' = (if ch' = ch then batch_of bs ch @ [p] else batch_of bs ch')"
  by (induction bs) (auto simp: batch_of_def)

lemma fst_add_batch: "fst ` set (add_batch ch p bs) = insert ch (fst ` set bs)"
  by (induction ch p bs rule: add_batch.induct) (simp_all add: insert_commute)

lemma distinct_add_batch: "distinct (map fst bs) \<Longrightarrow> distinct (map fst (add_batch ch p bs))"
proof (induction ch p bs rule: add_batch.induct)
  case (2 ch p ch' ps bs)
  then show ?case by (cases "ch' = ch") (simp_all add: fst_add_batch)
qed simp

text \<open>Whether a timer that is taken off the slot is delivered.\<close>

definition fires :: "(nat \<Rightarrow> 'd Promise \<Rightarrow> bool) \<Rightarrow> int \<Rightarrow> 'd TimerData \<Rightarrow> bool" where
  "fires ready nowMs t \<longleftrightarrow> tm_when t \<le> nowMs
     \<and> (tm_batch t \<noteq> None \<or> (\<exists>ch. tm_receiver t = Some ch \<and> ready ch (promise_of nowMs t)))"

text \<open>The deliveries for the timers \<open>ts\<close>.\<close>

definition delivers :: "(nat \<Rightarrow> 'd Promise \<Rightarrow> bool) \<Rightarrow> int \<Rightarrow> 'd TimerData list \<Rightarrow> 'd Out \<Rightarrow> bool" where
  "delivers ready nowMs ts out \<longleftrightarrow>
     o_sent out = map (\<lambda>t. (the (tm_receiver t), promise_of nowMs t)) [t \<leftarrow> ts. fires ready nowMs t \<and> tm_batch t = None]
   \<and> (\<forall>ch. batch_of (o_batchs out) ch = map (promise_of nowMs) [t \<leftarrow> ts. tm_when t \<le> nowMs \<and> tm_batch t = Some ch])
   \<and> distinct (map fst (o_batchs out))"

lemma mod_moves: "0 \<le> s \<Longrightarrow> s < S \<Longrightarrow> 1 \<le> k \<Longrightarrow> k < S \<Longrightarrow> (k + s) mod S \<noteq> (s :: int)"
proof
  assume a: "0 \<le> s" "s < S" "1 \<le> k" "k < S" "(k + s) mod S = s"
  then have "(k + s) mod S = s mod S" by simp
  then have "S dvd k" by (simp add: mod_eq_dvd_iff)
  then show False using a zdvd_imp_le [of S k] by simp
qed

lemma place_moves:
  assumes "1 \<le> ticks" "place ticks slots = (l, p)" "ticks < LEVEL_TICKS l" "0 \<le> slots l" "slots l < LEVEL_SLOTS l"
  shows "p \<noteq> slots l"
proof -
  have l: "l < TIME_WHEEL_LEVEL" using place_cases [OF assms(1,2)] by blast
  have "\<not> (LEVEL_TICKS 3 \<le> ticks \<and> l = 3)" using assms(3) by auto
  then have p: "wide l \<le> ticks" "p = (ticks div wide l + slots l) mod LEVEL_SLOTS l" using place_cases [OF assms(1,2)] by blast+
  have w: "0 < wide l" by (rule wide_pos [OF l])
  have k: "1 \<le> ticks div wide l" using p(1) w by (simp add: pos_imp_zdiv_pos_iff int_one_le_iff_zero_less)
  have "wide l * (ticks div wide l) < wide l * LEVEL_SLOTS l"
    using assms(3) LEVEL_TICKS_eq [OF l] mult_div_mod_eq [of "wide l" ticks] pos_mod_sign [OF w, of ticks] by linarith
  then have "ticks div wide l < LEVEL_SLOTS l" using w by simp
  from mod_moves [OF assms(4,5) k this] show ?thesis unfolding p(2) .
qed

definition trig_inv :: "(nat \<Rightarrow> 'd Promise \<Rightarrow> bool) \<Rightarrow> int \<Rightarrow> 'd Clock \<Rightarrow> 'd TimerData list \<Rightarrow> 'd Clock \<times> 'd Out \<Rightarrow> bool" where
  "trig_inv ready nowMs c pre = (\<lambda>(c', out).
     store_ok c' \<and> c_slot c' = c_slot c \<and> c_lastTime c' = c_lastTime c \<and> c_genId c' = c_genId c
   \<and> (\<forall>i. c_locs c' i = (if \<exists>t \<in> set pre. tm_id t = i \<and> fires ready nowMs t then None else c_locs c i))
   \<and> delivers ready nowMs pre out
   \<and> (\<forall>l p t. t \<in> set (c_tw c' l p) \<longrightarrow> t \<in> set (c_tw c l p)
        \<or> t \<in> set pre \<and> (tm_when t \<le> nowMs \<and> l = 0 \<and> p = (c_slot c 0 + 1) mod LEVEL_SLOTS 0
             \<or> nowMs < tm_when t \<and> (l, p) = place (ticks_to (tm_when t) (c_lastTime c)) (c_slot c))))"

lemma level0: "0 < TIME_WHEEL_LEVEL" "LEVEL_SLOTS 0 = 1024"
  by (simp_all add: level_defs)

lemma trigger_fn_eq:
  "trigger_fn ready nowMs t (c, out) =
    (if fires ready nowMs t
     then (forget (tm_id t) c,
           case tm_batch t of Some ch \<Rightarrow> out\<lparr>o_batchs := add_batch ch (promise_of nowMs t) (o_batchs out)\<rparr>
           | None \<Rightarrow> out\<lparr>o_sent := o_sent out @ [(the (tm_receiver t), promise_of nowMs t)]\<rparr>)
     else if tm_when t \<le> nowMs then (putTimer 0 ((c_slot c 0 + 1) mod LEVEL_SLOTS 0) t (forget (tm_id t) c), out)
     else (addTimer t (forget (tm_id t) c), out))"
  by (auto simp: trigger_fn_def fires_def forget_def promise_of_def and_mask level0 Let_def split: option.splits)


lemma forget_idem [simp]: "forget i (forget i c) = forget i c"
  by (simp add: forget_def)

lemma delivers_snoc:
  assumes "delivers ready nowMs pre out" and "fires ready nowMs t"
  shows "delivers ready nowMs (pre @ [t])
    (case tm_batch t of Some ch \<Rightarrow> out\<lparr>o_batchs := add_batch ch (promise_of nowMs t) (o_batchs out)\<rparr>
     | None \<Rightarrow> out\<lparr>o_sent := o_sent out @ [(the (tm_receiver t), promise_of nowMs t)]\<rparr>)"
  using assms by (auto simp: delivers_def batch_of_add fires_def distinct_add_batch split: option.splits)

lemma delivers_skip:
  assumes "delivers ready nowMs pre out" and "\<not> fires ready nowMs t"
  shows "delivers ready nowMs (pre @ [t]) out"
  using assms by (auto simp: delivers_def fires_def)

lemma trig_step:
  assumes I: "trig_inv ready nowMs c pre (c', out)" and tw: "c_tw c' 0 (c_slot c 0) = t # ts"
    and sl: "0 \<le> c_slot c 0" "c_slot c 0 < LEVEL_SLOTS 0"
    and f: "trigger_fn ready nowMs t (set_tw 0 (c_slot c 0) ts c', out) = (c'', out'')"
  shows "trig_inv ready nowMs c (pre @ [t]) (c'', out'')" and "c_tw c'' 0 (c_slot c 0) = ts"
proof -
  let ?s = "c_slot c 0"
  define d where "d = forget (tm_id t) (set_tw 0 ?s ts c')"
  have ok: "store_ok c'" and fld: "c_slot c' = c_slot c" "c_lastTime c' = c_lastTime c" "c_genId c' = c_genId c"
    and locs: "\<And>i. c_locs c' i = (if \<exists>t \<in> set pre. tm_id t = i \<and> fires ready nowMs t then None else c_locs c i)"
    and del: "delivers ready nowMs pre out"
    and tws: "\<And>l p t. t \<in> set (c_tw c' l p) \<Longrightarrow> t \<in> set (c_tw c l p)
        \<or> t \<in> set pre \<and> (tm_when t \<le> nowMs \<and> l = 0 \<and> p = (?s + 1) mod LEVEL_SLOTS 0
             \<or> nowMs < tm_when t \<and> (l, p) = place (ticks_to (tm_when t) (c_lastTime c)) (c_slot c))"
    using I unfolding trig_inv_def by auto
  have okd: "store_ok d" unfolding d_def by (rule store_pop [OF ok tw])
  have tin: "t \<in> set (c_tw c' 0 ?s)" by (simp add: tw)
  have lt: "c_locs c' (tm_id t) = Some t" by (rule store_okD(1) [OF ok tin])
  have np: "\<not> (\<exists>t' \<in> set pre. tm_id t' = tm_id t \<and> fires ready nowMs t')" using locs [of "tm_id t"] lt by (metis option.distinct(1))
  have lc: "c_locs c (tm_id t) = Some t" using locs [of "tm_id t"] lt np by metis
  have g: "tm_id t \<le> c_genId d" using store_okD(5) [OF ok lt] by (simp add: d_def)
  have dtw: "set (c_tw d l p) \<subseteq> set (c_tw c' l p)" for l p by (auto simp: d_def tw)
  have dfld: "c_slot d = c_slot c" "c_lastTime d = c_lastTime c" "c_genId d = c_genId c" "c_tw d 0 ?s = ts"
    by (simp_all add: d_def fld)
  have put: "trig_inv ready nowMs c (pre @ [t]) (putTimer l p t d, out) \<and> c_tw (putTimer l p t d) 0 ?s = ts"
    if l: "l < TIME_WHEEL_LEVEL" "0 \<le> p" "p < LEVEL_SLOTS l" "(l, p) \<noteq> (0, ?s)" and nf: "\<not> fires ready nowMs t"
      and why: "tm_when t \<le> nowMs \<and> l = 0 \<and> p = (?s + 1) mod LEVEL_SLOTS 0
             \<or> nowMs < tm_when t \<and> (l, p) = place (ticks_to (tm_when t) (c_lastTime c)) (c_slot c)" for l p
  proof -
    have "store_ok (putTimer l p t d)"
      by (rule store_put) (use okd l g in \<open>simp_all add: d_def\<close>)
    moreover have "c_locs (putTimer l p t d) i = (if \<exists>t \<in> set (pre @ [t]). tm_id t = i \<and> fires ready nowMs t then None else c_locs c i)" for i
    proof (cases "i = tm_id t")
      case True
      then show ?thesis using nf np lc by auto
    next
      case False
      then show ?thesis using locs [of i] by (auto simp: d_def)
    qed
    moreover have "t' \<in> set (c_tw c l' p') \<or> t' \<in> set (pre @ [t]) \<and> (tm_when t' \<le> nowMs \<and> l' = 0 \<and> p' = (?s + 1) mod LEVEL_SLOTS 0
             \<or> nowMs < tm_when t' \<and> (l', p') = place (ticks_to (tm_when t') (c_lastTime c)) (c_slot c))"
      if m: "t' \<in> set (c_tw (putTimer l p t d) l' p')" for l' p' t'
    proof (cases "t' \<in> set (c_tw d l' p')")
      case True
      then have "t' \<in> set (c_tw c' l' p')" using dtw by blast
      from tws [OF this] show ?thesis by auto
    next
      case False
      then have "t' = t" "l' = l" "p' = p" using m by (auto split: if_splits)
      then show ?thesis using why by auto
    qed
    moreover have "c_tw (putTimer l p t d) 0 ?s = ts" using l(4) dfld(4) by auto
    ultimately show ?thesis
      unfolding trig_inv_def using dfld delivers_skip [OF del nf] by (simp only: case_prod_conv put_fields) blast
  qed
  have "trig_inv ready nowMs c (pre @ [t]) (c'', out'') \<and> c_tw c'' 0 ?s = ts"
  proof (cases "fires ready nowMs t")
    case True
    then have e: "c'' = d" "out'' = (case tm_batch t of Some ch \<Rightarrow> out\<lparr>o_batchs := add_batch ch (promise_of nowMs t) (o_batchs out)\<rparr>
           | None \<Rightarrow> out\<lparr>o_sent := o_sent out @ [(the (tm_receiver t), promise_of nowMs t)]\<rparr>)"
      using f by (simp_all add: trigger_fn_eq d_def)
    have "c_locs d i = (if \<exists>t \<in> set (pre @ [t]). tm_id t = i \<and> fires ready nowMs t then None else c_locs c i)" for i
      using True locs [of i] by (auto simp: d_def)
    moreover have "t' \<in> set (c_tw c l p) \<or> t' \<in> set (pre @ [t]) \<and> (tm_when t' \<le> nowMs \<and> l = 0 \<and> p = (?s + 1) mod LEVEL_SLOTS 0
             \<or> nowMs < tm_when t' \<and> (l, p) = place (ticks_to (tm_when t') (c_lastTime c)) (c_slot c))"
      if "t' \<in> set (c_tw d l p)" for l p t'
      using tws [of t' l p] that dtw [of l p] by auto
    ultimately show ?thesis
      unfolding trig_inv_def e using okd dfld delivers_snoc [OF del True] by (simp only: case_prod_conv) blast
  next
    case False
    show ?thesis
    proof (cases "tm_when t \<le> nowMs")
      case True
      have "(?s + 1) mod LEVEL_SLOTS 0 \<noteq> ?s" using mod_moves [of ?s "LEVEL_SLOTS 0" 1] sl level0 by (simp add: add.commute)
      moreover have "c'' = putTimer 0 ((?s + 1) mod LEVEL_SLOTS 0) t d" "out'' = out"
        using f False True by (simp_all add: trigger_fn_eq d_def [symmetric] fld)
      ultimately show ?thesis using put [of 0 "(?s + 1) mod LEVEL_SLOTS 0"] False True level0 by simp
    next
      case nd: False
      obtain l p where lp: "place (ticks_to (tm_when t) (c_lastTime c)) (c_slot c) = (l, p)" by force
      note pc = place_cases [OF ticks_to_pos lp]
      have "(l, p) \<noteq> (0, ?s)"
      proof
        assume e: "(l, p) = (0, ?s)"
        then have "ticks_to (tm_when t) (c_lastTime c) < LEVEL_TICKS l" using pc by auto
        from place_moves [OF ticks_to_pos lp this] e sl show False by auto
      qed
      moreover have "c'' = putTimer l p t d" "out'' = out"
        using f False nd dfld lp by (simp_all add: trigger_fn_eq d_def [symmetric] addTimer_def)
      ultimately show ?thesis using put [of l p] False nd lp pc by simp
    qed
  qed
  then show "trig_inv ready nowMs c (pre @ [t]) (c'', out'')" and "c_tw c'' 0 ?s = ts" by simp_all
qed

lemma trigger_spec:
  assumes "store_ok c" and sl: "0 \<le> c_slot c 0" "c_slot c 0 < LEVEL_SLOTS 0"
  shows "\<exists>c' out. trigger ready nowMs c = Some (c', out) \<and> trig_inv ready nowMs c (c_tw c 0 (c_slot c 0)) (c', out)
    \<and> c_tw c' 0 (c_slot c 0) = []"
proof -
  have "trig_inv ready nowMs c [] (c, \<lparr>o_sent = [], o_batchs = []\<rparr>)"
    using assms(1) by (simp add: trig_inv_def delivers_def)
  moreover have "trig_inv ready nowMs c (pre @ [t]) (trigger_fn ready nowMs t (set_tw 0 (c_slot c 0) ts c', s))
      \<and> c_tw (fst (trigger_fn ready nowMs t (set_tw 0 (c_slot c 0) ts c', s))) 0 (c_slot c 0) = ts"
    if "trig_inv ready nowMs c pre (c', s)" "c_tw c' 0 (c_slot c 0) = t # ts" for pre t ts c' s
    using trig_step [OF that sl] by (metis prod.collapse)
  ultimately show ?thesis
    using popRange_rule [where I = "trig_inv ready nowMs c" and l = 0 and p = "c_slot c 0" and fn = "trigger_fn ready nowMs"
      and pre = "[]" and c = c and s = "\<lparr>o_sent = [], o_batchs = []\<rparr>"]
    unfolding trigger_def by simp
qed

end
