(* ===== verification/Clock_Sched.thy ===== *)
theory Clock_Sched
  imports Clock
begin

text \<open>
  The schedule of the timing wheel of \<open>src/clock/clock.go\<close>. After \<open>T\<close> ticks the pointer of level \<open>l\<close> is at
  \<open>T div wide l\<close>, and every timer sits where a pointer will find it no later than one tick after it is
  due. From this follow that a tick returns, that no timer is early, late or lost, and, for a
  timer farther away than the wheels reach, that a tick need not return at all.
\<close>

section \<open>When a slot is visited\<close>

text \<open>The list at \<open>(l, p)\<close> is next taken at tick \<open>P\<close>: at level 0 the timer is then due, and was not
  before the tick before; at a higher level it is still ahead, by less than two slots of that level.\<close>

definition vis :: "int \<Rightarrow> int \<Rightarrow> nat \<Rightarrow> int \<Rightarrow> 'd TimerData \<Rightarrow> bool" where
  "vis base T l p t \<longleftrightarrow> 0 \<le> tm_when t \<and> due base t < T + LEVEL_TICKS 3
     \<and> (\<exists>P. T < P \<and> P \<le> T + LEVEL_TICKS l \<and> wide l dvd P \<and> (P div wide l) mod LEVEL_SLOTS l = p
         \<and> (if l = 0 then due base t \<le> P \<and> P \<le> max (due base t) T + 1 else P \<le> due base t \<and> due base t < P + 2 * wide l))"

definition pointers :: "(nat \<Rightarrow> int) \<Rightarrow> 'd Clock \<Rightarrow> bool" where
  "pointers T c \<longleftrightarrow> (\<forall>l < TIME_WHEEL_LEVEL. c_slot c l = (T l div wide l) mod LEVEL_SLOTS l)"

definition sched :: "int \<Rightarrow> int \<Rightarrow> 'd Clock \<Rightarrow> bool" where
  "sched base T c \<longleftrightarrow> pointers (\<lambda>_. T) c \<and> (\<forall>l p t. t \<in> set (c_tw c l p) \<longrightarrow> vis base T l p t)"

lemma vis_step:
  assumes "vis base T l p t" and "\<not> (wide l dvd T + 1 \<and> ((T + 1) div wide l) mod LEVEL_SLOTS l = p)"
  shows "vis base (T + 1) l p t"
proof -
  obtain P where P: "T < P" "P \<le> T + LEVEL_TICKS l" "wide l dvd P" "(P div wide l) mod LEVEL_SLOTS l = p"
      "if l = 0 then due base t \<le> P \<and> P \<le> max (due base t) T + 1 else P \<le> due base t \<and> due base t < P + 2 * wide l"
    and w: "0 \<le> tm_when t" "due base t < T + LEVEL_TICKS 3"
    using assms(1) unfolding vis_def by blast
  have "P \<noteq> T + 1" using P(3,4) assms(2) by auto
  then have "T + 1 < P" "P \<le> T + 1 + LEVEL_TICKS l" using P(1,2) by linarith+
  moreover have "if l = 0 then due base t \<le> P \<and> P \<le> max (due base t) (T + 1) + 1 else P \<le> due base t \<and> due base t < P + 2 * wide l"
    using P(5) by (auto simp: max_def split: if_splits)
  moreover have "due base t < T + 1 + LEVEL_TICKS 3" using w(2) by linarith
  ultimately show ?thesis using P(3,4) w(1) unfolding vis_def by blast
qed

lemma vis_now:
  assumes v: "vis base T l p t" and l: "l < TIME_WHEEL_LEVEL" and w: "wide l dvd T + 1"
    and p: "((T + 1) div wide l) mod LEVEL_SLOTS l = p"
  shows "if l = 0 then due base t \<le> T + 1 else T + 1 \<le> due base t \<and> due base t < T + 1 + 2 * wide l"
proof -
  obtain P where P: "T < P" "P \<le> T + LEVEL_TICKS l" "wide l dvd P" "(P div wide l) mod LEVEL_SLOTS l = p"
      "if l = 0 then due base t \<le> P \<and> P \<le> max (due base t) T + 1 else P \<le> due base t \<and> due base t < P + 2 * wide l"
    using v unfolding vis_def by blast
  obtain a b where a: "P = wide l * a" and b: "T + 1 = wide l * b" using P(3) w by (auto simp: dvd_def)
  have wp: "0 < wide l" by (rule wide_pos [OF l])
  have "a mod LEVEL_SLOTS l = b mod LEVEL_SLOTS l" using P(4) p a b wp by simp
  then have d: "LEVEL_SLOTS l dvd a - b" by (simp add: mod_eq_dvd_iff)
  have "wide l * b \<le> wide l * a" using P(1) a b by simp
  then have ge: "b \<le> a" using wp by simp
  have "wide l * a < wide l * b + wide l * LEVEL_SLOTS l" using P(2) a b LEVEL_TICKS_eq [OF l] by simp
  then have "wide l * a < wide l * (b + LEVEL_SLOTS l)" by (simp add: distrib_left)
  then have "a - b < LEVEL_SLOTS l" using wp by simp
  then have "a = b" using d ge zdvd_not_zless [of "a - b" "LEVEL_SLOTS l"] by linarith
  then have "P = T + 1" using a b by simp
  then show ?thesis using P(5) by (auto split: if_splits)
qed

lemma vis_place:
  assumes k: "ticks = max 1 (due base t - T)" and pl: "place ticks slots = (l, p)"
    and s: "slots l = (T div wide l) mod LEVEL_SLOTS l" and far: "ticks < LEVEL_TICKS 3" and w: "0 \<le> tm_when t"
  shows "vis base T l p t"
proof -
  have k1: "1 \<le> ticks" using k by simp
  note pc = place_cases [OF k1 pl]
  have l: "l < TIME_WHEEL_LEVEL" using pc by blast
  have p: "wide l \<le> ticks" "ticks < LEVEL_TICKS l" "p = (ticks div wide l + slots l) mod LEVEL_SLOTS l"
    using pc far not_less by blast+
  have wp: "0 < wide l" by (rule wide_pos [OF l])
  let ?P = "(T div wide l + ticks div wide l) * wide l"
  have q: "1 \<le> ticks div wide l" using p(1) wp by (simp add: pos_imp_zdiv_pos_iff int_one_le_iff_zero_less)
  have e: "wide l * (T div wide l) + T mod wide l = T" "wide l * (ticks div wide l) + ticks mod wide l = ticks" by simp_all
  have r: "0 \<le> T mod wide l" "T mod wide l < wide l" "0 \<le> ticks mod wide l" "ticks mod wide l < wide l" using wp by simp_all
  have PP: "?P = wide l * (T div wide l) + wide l * (ticks div wide l)" by (simp add: distrib_left mult.commute)
  have q': "wide l * 1 \<le> wide l * (ticks div wide l)" using q wp by (intro mult_left_mono) simp_all
  have gt: "T < ?P" unfolding PP using e(1) r(2) q' by linarith
  have le: "?P \<le> T + ticks" unfolding PP using e r by linarith
  have lo: "T + ticks < ?P + 2 * wide l" unfolding PP using e r by linarith
  have pm: "(?P div wide l) mod LEVEL_SLOTS l = p"
    unfolding p(3) s using wp by (simp add: mod_add_right_eq add.commute)
  have near: "due base t < T + LEVEL_TICKS 3" using k far by linarith
  have "if l = 0 then due base t \<le> ?P \<and> ?P \<le> max (due base t) T + 1 else ?P \<le> due base t \<and> due base t < ?P + 2 * wide l"
  proof (cases "l = 0")
    case True
    then have "?P = T + ticks" by simp
    then show ?thesis using True k by (auto simp: max_def)
  next
    case False
    have "1 < wide l" using False level_cases [OF l] by (auto simp: level_defs)
    then have "ticks = due base t - T" using k p(1) by linarith
    then show ?thesis using False le lo by auto
  qed
  then show ?thesis
    unfolding vis_def using w near gt le p(2) pm by (intro conjI exI [of _ ?P]) (auto simp: dvd_def)
qed

lemma div_step: "0 < w \<Longrightarrow> (T + 1) div w = T div w + (if w dvd T + 1 then 1 else (0 :: int))"
proof -
  assume w: "0 < w"
  let ?r = "T mod w"
  have r: "0 \<le> ?r" "?r < w" "T = w * (T div w) + ?r" using w by simp_all
  show ?thesis
  proof (cases "?r + 1 = w")
    case True
    have "w * (T div w + 1) = w * (T div w) + w" by (simp add: distrib_left)
    then have e: "T + 1 = w * (T div w + 1)" using r(3) True by linarith
    then have "w dvd T + 1" by (metis dvd_triv_left)
    moreover have "(T + 1) div w = T div w + 1" using w by (subst e) simp
    ultimately show ?thesis by simp
  next
    case False
    then have lt: "?r + 1 < w" using r(2) by simp
    have e: "T + 1 = w * (T div w) + (?r + 1)" using r(3) by linarith
    have r1: "0 \<le> ?r + 1" using r(1) by simp
    have d: "(T + 1) div w = T div w" by (rule int_div_pos_eq [OF e r1 lt])
    have "(T + 1) mod w = ?r + 1" by (rule int_mod_pos_eq [OF e r1 lt])
    then have "\<not> w dvd T + 1" using r(1) by (simp add: dvd_eq_mod_eq_0)
    then show ?thesis using d by simp
  qed
qed

lemma wide_dvd: "j < l \<Longrightarrow> l < TIME_WHEEL_LEVEL \<Longrightarrow> wide (Suc j) dvd wide l"
proof -
  assume "j < l" "l < TIME_WHEEL_LEVEL"
  then have "LEVEL_DIVIS (Suc j) \<le> LEVEL_DIVIS l"
    using level_cases [of l] by (auto simp: level_defs less_Suc_eq)
  then show ?thesis unfolding wide_def by (rule le_imp_power_dvd)
qed


section \<open>A tick of the schedule\<close>

text \<open>In the middle of tick \<open>T + 1\<close>: the levels up to \<open>j\<close> have been moved on, the others not yet.\<close>

definition at_level :: "int \<Rightarrow> nat \<Rightarrow> nat \<Rightarrow> int" where
  "at_level T j l = (if l \<le> j then T + 1 else T)"

definition stage :: "int \<Rightarrow> int \<Rightarrow> nat \<Rightarrow> 'd Clock \<Rightarrow> bool" where
  "stage base T j c \<longleftrightarrow> store_ok c \<and> pointers (at_level T j) c \<and> wide j dvd T + 1
     \<and> (\<forall>l p t. t \<in> set (c_tw c l p) \<longrightarrow> vis base (at_level T j l) l p t)"

text \<open>Within the range of the 64-bit arithmetic.\<close>

definition time_ok :: "int \<Rightarrow> int \<Rightarrow> bool" where
  "time_ok base T \<longleftrightarrow> 0 \<le> base \<and> 0 \<le> T \<and> base + 20 * T < 2 ^ 61"

lemma ticks_to_vis:
  assumes "time_ok base T" and "0 \<le> tm_when t" and "due base t < T + LEVEL_TICKS 3 + 1"
  shows "ticks_to (tm_when t) (base + 20 * T) = max 1 (due base t - T)"
proof (rule ticks_to_due)
  have pw: "(2 :: int) ^ 61 = 2305843009213693952" "(2 :: int) ^ 62 = 4611686018427387904" by simp_all
  have t3: "LEVEL_TICKS 3 = 1073741824" by (simp add: level_defs)
  have "tm_when t - base \<le> 20 * due base t" unfolding due_def by linarith
  then show "tm_when t < 2 ^ 62" using assms t3 pw unfolding time_ok_def by linarith
  show "0 \<le> base + 20 * T" "base + 20 * T < 2 ^ 62" using assms(1) pw unfolding time_ok_def by linarith+
qed (rule assms(2))


lemma LEVEL_TICKS_mono: "l \<le> k \<Longrightarrow> k < TIME_WHEEL_LEVEL \<Longrightarrow> LEVEL_TICKS l \<le> LEVEL_TICKS k"
  by (drule level_cases, elim disjE) (auto simp: level_defs le_Suc_eq)

text \<open>A timer that a higher level gives up goes to a level that has been moved on already, and not
  back to the slot it came from.\<close>

lemma place_down:
  assumes k: "1 \<le> ticks" "ticks < LEVEL_TICKS i" and pl: "place ticks slots = (l, p)" and i: "i < TIME_WHEEL_LEVEL"
  shows "l \<le> i" and "ticks < LEVEL_TICKS l" and "ticks < LEVEL_TICKS 3"
proof -
  have "LEVEL_TICKS i \<le> LEVEL_TICKS 3" using i by (intro LEVEL_TICKS_mono) (auto simp: TIME_WHEEL_LEVEL_def)
  then show far: "ticks < LEVEL_TICKS 3" using k(2) by simp
  have pc: "l < TIME_WHEEL_LEVEL" "wide l \<le> ticks" "ticks < LEVEL_TICKS l" using place_cases [OF k(1) pl] far not_less by blast+
  show "l \<le> i"
  proof (rule ccontr)
    assume "\<not> l \<le> i"
    then obtain m where m: "l = Suc m" "i \<le> m" by (metis less_imp_Suc_add not_le le_add1)
    have "LEVEL_TICKS i \<le> LEVEL_TICKS m" using m pc(1) by (intro LEVEL_TICKS_mono) auto
    then show False using wide_Suc [of m] m pc k(2) by simp
  qed
  show "ticks < LEVEL_TICKS l" by (rule pc)
qed

definition casc_inv :: "int \<Rightarrow> int \<Rightarrow> nat \<Rightarrow> 'd Clock \<Rightarrow> 'd TimerData list \<Rightarrow> 'd Clock \<times> unit \<Rightarrow> bool" where
  "casc_inv base T i c pre = (\<lambda>(c', u).
     store_ok c' \<and> c_slot c' = c_slot c \<and> c_lastTime c' = c_lastTime c \<and> c_genId c' = c_genId c \<and> c_locs c' = c_locs c
   \<and> (\<forall>l p t. t \<in> set (c_tw c' l p) \<longrightarrow> vis base (if l = i \<and> p = c_slot c i then T else at_level T i l) l p t))"

lemma casc_step:
  assumes I: "casc_inv base T i c pre (c', u)" and tw: "c_tw c' i (c_slot c i) = t # ts"
    and i: "0 < i" "i < TIME_WHEEL_LEVEL" and w: "wide i dvd T + 1" and pt: "pointers (at_level T i) c" and tm: "time_ok base (T + 1)"
    and f: "cascade_fn (base + 20 * (T + 1)) t (set_tw i (c_slot c i) ts c', u) = (c'', u'')"
  shows "casc_inv base T i c (pre @ [t]) (c'', u'')" and "c_tw c'' i (c_slot c i) = ts"
proof -
  let ?p = "c_slot c i"
  have ok: "store_ok c'" and fld: "c_slot c' = c_slot c" "c_lastTime c' = c_lastTime c" "c_genId c' = c_genId c" "c_locs c' = c_locs c"
    and v: "\<And>l p t. t \<in> set (c_tw c' l p) \<Longrightarrow> vis base (if l = i \<and> p = ?p then T else at_level T i l) l p t"
    using I unfolding casc_inv_def by auto
  have tin: "t \<in> set (c_tw c' i ?p)" by (simp add: tw)
  have lt: "c_locs c' (tm_id t) = Some t" by (rule store_okD(1) [OF ok tin])
  have sl: "c_slot c l = (at_level T i l div wide l) mod LEVEL_SLOTS l" if "l < TIME_WHEEL_LEVEL" for l
    using pt that by (simp add: pointers_def)
  have p: "((T + 1) div wide i) mod LEVEL_SLOTS i = ?p" using sl [OF i(2)] by (simp add: at_level_def)
  have vt: "vis base T i ?p t" using v [OF tin] by simp
  have d: "T + 1 \<le> due base t" "due base t < T + 1 + 2 * wide i" using vis_now [OF vt i(2) w p] i(1) by auto
  have wn: "0 \<le> tm_when t" "due base t < T + LEVEL_TICKS 3" using vt by (auto simp: vis_def)
  define ticks where "ticks = max 1 (due base t - (T + 1))"
  have tk: "ticks_to (tm_when t) (base + 20 * (T + 1)) = ticks"
    unfolding ticks_def by (rule ticks_to_vis [OF tm wn(1)]) (use wn(2) in linarith)
  have k1: "1 \<le> ticks" by (simp add: ticks_def)
  have "wide i * 64 \<le> wide i * LEVEL_SLOTS i"
    using LEVEL_SLOTS_ge [OF i(2)] wide_pos [OF i(2)] by (intro mult_left_mono) simp_all
  then have ki: "ticks < LEVEL_TICKS i" using d wide_pos [OF i(2)] LEVEL_TICKS_eq [OF i(2)] unfolding ticks_def by linarith
  obtain l q where lq: "place ticks (c_slot c) = (l, q)" by force
  have pc: "l < TIME_WHEEL_LEVEL \<and> 0 \<le> q \<and> q < LEVEL_SLOTS l" using place_cases [OF k1 lq] by blast
  note pd = place_down [OF k1 ki lq i(2)]
  have vq: "vis base (T + 1) l q t"
    by (rule vis_place [OF ticks_def lq _ pd(3) wn(1)]) (use sl [of l] pc pd(1) in \<open>simp add: at_level_def\<close>)
  have ne: "(l, q) \<noteq> (i, ?p)"
  proof
    assume e: "(l, q) = (i, ?p)"
    have "0 \<le> c_slot c l" "c_slot c l < LEVEL_SLOTS l"
      using sl [of l] pc LEVEL_SLOTS_ge [of l] by simp_all
    from place_moves [OF k1 lq pd(2) this] e show False by simp
  qed
  have c'': "c'' = putTimer l q t (set_tw i ?p ts c')"
    using f tk lq fld by (simp add: cascade_fn_def)
  have gi: "tm_id t \<le> c_genId c'" using store_okD(5) [OF ok lt] by simp
  have "store_ok c''"
    unfolding c'' by (rule store_put [OF store_pop [OF ok tw]]) (use pc gi in simp_all)
  moreover have "c_locs c'' = c_locs c" unfolding c'' using lt fld by (simp add: fun_upd_idem)
  moreover have "vis base (if l' = i \<and> p' = ?p then T else at_level T i l') l' p' t'" if m: "t' \<in> set (c_tw c'' l' p')" for l' p' t'
  proof (cases "t' \<in> set (c_tw c' l' p')")
    case False
    then have "t' = t \<and> l' = l \<and> p' = q" using m tw unfolding c'' by (auto split: if_splits)
    then show ?thesis using vq ne pd(1) by (auto simp: at_level_def)
  qed (rule v)
  ultimately show "casc_inv base T i c (pre @ [t]) (c'', u'')"
    unfolding casc_inv_def case_prod_conv using fld c'' by simp
  show "c_tw c'' i ?p = ts" using ne unfolding c'' by auto
qed


definition same_timers :: "'d Clock \<Rightarrow> 'd Clock \<Rightarrow> bool" where
  "same_timers c c' \<longleftrightarrow> c_locs c' = c_locs c \<and> c_lastTime c' = c_lastTime c \<and> c_genId c' = c_genId c"

lemma stageD:
  assumes "stage base T j c"
  shows "store_ok c" and "wide j dvd T + 1" and "t \<in> set (c_tw c l p) \<Longrightarrow> vis base (at_level T j l) l p t"
    and "l < TIME_WHEEL_LEVEL \<Longrightarrow> c_slot c l = (at_level T j l div wide l) mod LEVEL_SLOTS l"
  using assms unfolding stage_def pointers_def by blast+

lemma dvd_mult_div: "0 < w \<Longrightarrow> w dvd x \<Longrightarrow> w * s dvd x \<longleftrightarrow> s dvd x div (w :: int)"
  by (auto elim: dvdE)

lemma stage_stop:
  assumes st: "stage base T j c" and j: "Suc j < TIME_WHEEL_LEVEL" and nz: "c_slot c j \<noteq> 0"
  shows "sched base (T + 1) c"
proof -
  have jl: "j < TIME_WHEEL_LEVEL" using j by simp
  have "((T + 1) div wide j) mod LEVEL_SLOTS j \<noteq> 0" using stageD(4) [OF st jl] nz by (simp add: at_level_def)
  then have "\<not> LEVEL_SLOTS j dvd (T + 1) div wide j" by (simp add: dvd_eq_mod_eq_0)
  then have "\<not> wide j * LEVEL_SLOTS j dvd T + 1" using dvd_mult_div [OF wide_pos [OF jl] stageD(2) [OF st]] by blast
  then have "\<not> wide (Suc j) dvd T + 1" using wide_Suc [OF j] LEVEL_TICKS_eq [OF jl] by simp
  then have nd: "\<not> wide l dvd T + 1" if "j < l" "l < TIME_WHEEL_LEVEL" for l
    using wide_dvd [OF that] dvd_trans by blast
  have "pointers (\<lambda>_. T + 1) c"
    unfolding pointers_def
  proof (intro allI impI)
    fix l
    assume l: "l < TIME_WHEEL_LEVEL"
    have "at_level T j l div wide l = (T + 1) div wide l"
      using nd [of l] l div_step [OF wide_pos [OF l], of T] by (auto simp: at_level_def)
    then show "c_slot c l = ((T + 1) div wide l) mod LEVEL_SLOTS l" using stageD(4) [OF st l] by simp
  qed
  moreover have "vis base (T + 1) l p t" if m: "t \<in> set (c_tw c l p)" for l p t
  proof -
    have l: "l < TIME_WHEEL_LEVEL" and v: "vis base (at_level T j l) l p t"
      using stageD(3) [OF st m] store_okD(2) [OF stageD(1) [OF st] m] by blast+
    show ?thesis
    proof (cases "l \<le> j")
      case True
      then show ?thesis using v by (simp add: at_level_def)
    next
      case False
      then show ?thesis using v vis_step [of base T l p t] nd [of l] l by (simp add: at_level_def)
    qed
  qed
  ultimately show ?thesis by (simp add: sched_def)
qed

lemma stage_next:
  assumes st: "stage base T j c" and j: "Suc j < TIME_WHEEL_LEVEL" and z: "c_slot c j = 0" and tm: "time_ok base (T + 1)"
  shows "\<exists>c'. popRange (cascade_fn (base + 20 * (T + 1))) (Suc j) ((c_slot c (Suc j) + 1) AND LEVEL_MASKS (Suc j))
        (c\<lparr>c_slot := (c_slot c)(Suc j := (c_slot c (Suc j) + 1) AND LEVEL_MASKS (Suc j))\<rparr>, ()) = Some (c', ())
      \<and> stage base T (Suc j) c' \<and> same_timers c c'"
proof -
  let ?i = "Suc j"
  have jl: "j < TIME_WHEEL_LEVEL" using j by simp
  define s where "s = (c_slot c ?i + 1) AND LEVEL_MASKS ?i"
  define c1 where "c1 = c\<lparr>c_slot := (c_slot c)(?i := s)\<rparr>"
  have "LEVEL_SLOTS j dvd (T + 1) div wide j"
    using stageD(4) [OF st jl] z by (simp add: at_level_def dvd_eq_mod_eq_0)
  then have "wide j * LEVEL_SLOTS j dvd T + 1" using dvd_mult_div [OF wide_pos [OF jl] stageD(2) [OF st]] by blast
  then have w: "wide ?i dvd T + 1" using wide_Suc [OF j] LEVEL_TICKS_eq [OF jl] by simp
  have si: "s = ((T + 1) div wide ?i) mod LEVEL_SLOTS ?i"
    using stageD(4) [OF st j] w div_step [OF wide_pos [OF j], of T] and_mask [OF j]
    by (simp add: s_def at_level_def mod_add_left_eq)
  have pt: "pointers (at_level T ?i) c1"
    unfolding pointers_def
  proof (intro allI impI)
    fix l
    assume "l < TIME_WHEEL_LEVEL"
    from stageD(4) [OF st this] show "c_slot c1 l = (at_level T ?i l div wide l) mod LEVEL_SLOTS l"
      using si by (cases "l = ?i") (simp_all add: c1_def at_level_def)
  qed
  have sc: "c_slot c1 ?i = s" "c_tw c1 = c_tw c" by (simp_all add: c1_def)
  have "vis base (if l = ?i \<and> p = c_slot c1 ?i then T else at_level T ?i l) l p t" if m: "t \<in> set (c_tw c1 l p)" for l p t
  proof -
    have v: "vis base (at_level T j l) l p t" using stageD(3) [OF st] m by (simp only: sc)
    show ?thesis
    proof (cases "l = ?i \<and> p \<noteq> s")
      case True
      then have "vis base T l p t" using v by (simp add: at_level_def)
      moreover have "\<not> (wide l dvd T + 1 \<and> ((T + 1) div wide l) mod LEVEL_SLOTS l = p)" using True si by simp
      ultimately show ?thesis using vis_step True sc by (simp add: at_level_def)
    next
      case False
      then show ?thesis using v sc by (cases "l = ?i") (simp_all add: at_level_def le_Suc_eq)
    qed
  qed
  moreover have "store_ok c1" using stageD(1) [OF st] unfolding store_ok_def c1_def by simp
  ultimately have I0: "casc_inv base T ?i c1 [] (c1, ())" by (simp add: casc_inv_def)
  have step: "casc_inv base T ?i c1 (pre @ [t]) (cascade_fn (base + 20 * (T + 1)) t (set_tw ?i s ts c', u))
      \<and> c_tw (fst (cascade_fn (base + 20 * (T + 1)) t (set_tw ?i s ts c', u))) ?i s = ts"
    if "casc_inv base T ?i c1 pre (c', u)" "c_tw c' ?i s = t # ts" for pre t ts c' u
    using casc_step [OF that(1), of t ts] that(2) sc j w pt tm by (metis prod.collapse zero_less_Suc)
  from popRange_rule [where I = "casc_inv base T ?i c1" and l = ?i and p = s and fn = "cascade_fn (base + 20 * (T + 1))"
      and pre = "[]" and c = c1 and s = "()", OF step I0]
  obtain c' where c': "popRange (cascade_fn (base + 20 * (T + 1))) ?i s (c1, ()) = Some (c', ())"
      "casc_inv base T ?i c1 (c_tw c1 ?i s) (c', ())" "c_tw c' ?i s = []"
    by auto
  have "vis base (at_level T ?i l) l p t" if m: "t \<in> set (c_tw c' l p)" for l p t
  proof -
    have "\<not> (l = ?i \<and> p = s)" using m c'(3) by auto
    moreover have "vis base (if l = ?i \<and> p = c_slot c1 ?i then T else at_level T ?i l) l p t"
      using c'(2) m unfolding casc_inv_def by blast
    ultimately show ?thesis using sc by (simp split: if_splits)
  qed
  moreover have "pointers (at_level T ?i) c'" using pt c'(2) by (simp add: pointers_def casc_inv_def)
  moreover have "store_ok c'" "same_timers c c'" using c'(2) by (simp_all add: casc_inv_def same_timers_def c1_def)
  ultimately show ?thesis using c'(1) w unfolding s_def c1_def stage_def by blast
qed

lemma cascade_stage:
  "stage base T j c \<Longrightarrow> j < TIME_WHEEL_LEVEL \<Longrightarrow> time_ok base (T + 1) \<Longrightarrow>
     \<exists>c'. cascade (base + 20 * (T + 1)) [Suc j ..< TIME_WHEEL_LEVEL] c = Some c' \<and> sched base (T + 1) c' \<and> store_ok c' \<and> same_timers c c'"
proof (induction "TIME_WHEEL_LEVEL - j" arbitrary: j c)
  case (Suc n)
  show ?case
  proof (cases "Suc j < TIME_WHEEL_LEVEL")
    case False
    then have e: "l \<le> j" if "l < TIME_WHEEL_LEVEL" for l using that by simp
    have "sched base (T + 1) c"
      unfolding sched_def pointers_def
    proof (intro conjI allI impI)
      show "c_slot c l = ((T + 1) div wide l) mod LEVEL_SLOTS l" if "l < TIME_WHEEL_LEVEL" for l
        using stageD(4) [OF Suc.prems(1) that] e [OF that] by (simp add: at_level_def)
      show "vis base (T + 1) l p t" if "t \<in> set (c_tw c l p)" for l p t
        using stageD(3) [OF Suc.prems(1) that] e [of l] store_okD(2) [OF stageD(1) [OF Suc.prems(1)] that] by (simp add: at_level_def)
    qed
    then show ?thesis using False stageD(1) [OF Suc.prems(1)] by (simp add: same_timers_def)
  next
    case True
    then have up: "[Suc j ..< TIME_WHEEL_LEVEL] = Suc j # [Suc (Suc j) ..< TIME_WHEEL_LEVEL]" by (simp add: upt_conv_Cons)
    show ?thesis
    proof (cases "c_slot c j = 0")
      case False
      then show ?thesis using stage_stop [OF Suc.prems(1) True] stageD(1) [OF Suc.prems(1)] by (simp add: up same_timers_def)
    next
      case z: True
      have nj: "n = TIME_WHEEL_LEVEL - Suc j" using Suc.hyps(2) by simp
      obtain c1 where c1: "popRange (cascade_fn (base + 20 * (T + 1))) (Suc j) ((c_slot c (Suc j) + 1) AND LEVEL_MASKS (Suc j))
          (c\<lparr>c_slot := (c_slot c)(Suc j := (c_slot c (Suc j) + 1) AND LEVEL_MASKS (Suc j))\<rparr>, ()) = Some (c1, ())"
          "stage base T (Suc j) c1" "same_timers c c1"
        using stage_next [OF Suc.prems(1) True z Suc.prems(3)] by blast
      obtain c' where "cascade (base + 20 * (T + 1)) [Suc (Suc j) ..< TIME_WHEEL_LEVEL] c1 = Some c'" "sched base (T + 1) c'" "store_ok c'" "same_timers c1 c'"
        using Suc.hyps(1) [OF nj c1(2) True Suc.prems(3)] by blast
      then show ?thesis using c1 z by (simp add: up Let_def same_timers_def)
    qed
  qed
qed simp


lemma sched_trigger:
  assumes ok: "store_ok c" and sc: "sched base T c" and now: "base + 20 * (T + 1) \<le> nowMs"
    and c1: "c1 = c\<lparr>c_slot := (c_slot c)(0 := (T + 1) mod LEVEL_SLOTS 0)\<rparr>"
    and I: "trig_inv ready nowMs c1 (c_tw c 0 ((T + 1) mod LEVEL_SLOTS 0)) (c2, out)" and e: "c_tw c2 0 ((T + 1) mod LEVEL_SLOTS 0) = []"
  shows "stage base T 0 c2" and "\<forall>t \<in> set (c_tw c 0 ((T + 1) mod LEVEL_SLOTS 0)). due base t \<le> T + 1"
proof -
  let ?s = "(T + 1) mod LEVEL_SLOTS 0"
  have v: "vis base T l p t" if "t \<in> set (c_tw c l p)" for l p t using sc that by (simp add: sched_def)
  have pt: "c_slot c l = (T div wide l) mod LEVEL_SLOTS l" if "l < TIME_WHEEL_LEVEL" for l using sc that by (simp add: sched_def pointers_def)
  have d1: "due base t \<le> T + 1" if "t \<in> set (c_tw c 0 ?s)" for t
    using vis_now [OF v [OF that] level0(1)] by simp
  then show "\<forall>t \<in> set (c_tw c 0 ?s). due base t \<le> T + 1" by blast
  have fld: "store_ok c2" "c_slot c2 = c_slot c1"
    and tws: "\<And>l p t. t \<in> set (c_tw c2 l p) \<Longrightarrow> t \<in> set (c_tw c1 l p)
        \<or> t \<in> set (c_tw c 0 ?s) \<and> (tm_when t \<le> nowMs \<and> l = 0 \<and> p = (c_slot c1 0 + 1) mod LEVEL_SLOTS 0
             \<or> nowMs < tm_when t \<and> (l, p) = place (ticks_to (tm_when t) (c_lastTime c1)) (c_slot c1))"
    using I unfolding trig_inv_def by auto
  have "pointers (at_level T 0) c2"
    unfolding pointers_def
  proof (intro allI impI)
    fix l
    assume "l < TIME_WHEEL_LEVEL"
    from pt [OF this] show "c_slot c2 l = (at_level T 0 l div wide l) mod LEVEL_SLOTS l"
      by (cases "l = 0") (simp_all add: fld c1 at_level_def)
  qed
  moreover have "vis base (at_level T 0 l) l p t" if m: "t \<in> set (c_tw c2 l p)" for l p t
  proof (cases "t \<in> set (c_tw c l p)")
    case True
    have "\<not> (l = 0 \<and> p = ?s)" using m e by auto
    then show ?thesis using v [OF True] vis_step [OF v [OF True]] by (auto simp: at_level_def)
  next
    case False
    then have t: "t \<in> set (c_tw c 0 ?s)" "tm_when t \<le> nowMs \<and> l = 0 \<and> p = (c_slot c1 0 + 1) mod LEVEL_SLOTS 0 \<or> nowMs < tm_when t"
      using tws [OF m] by (auto simp: c1)
    have d: "due base t \<le> T + 1" by (rule d1 [OF t(1)])
    have "tm_when t - base \<le> 20 * due base t" unfolding due_def by linarith
    also have "20 * due base t \<le> 20 * (T + 1)" using d by simp
    finally have "tm_when t \<le> nowMs" using now by simp
    moreover have "((T + 1) mod LEVEL_SLOTS 0 + 1) mod LEVEL_SLOTS 0 = (T + 2) mod LEVEL_SLOTS 0"
      by (metis mod_add_left_eq add.assoc one_add_one)
    ultimately have lp: "l = 0" "p = (T + 2) mod LEVEL_SLOTS 0" using t(2) by (auto simp: c1)
    have "0 \<le> tm_when t" "due base t < T + LEVEL_TICKS 3" using v [OF t(1)] by (auto simp: vis_def)
    then show ?thesis
      unfolding vis_def lp at_level_def using d by (intro conjI exI [of _ "T + 2"]) (auto simp: level0)
  qed
  ultimately show "stage base T 0 c2" using fld(1) by (simp add: stage_def)
qed

text \<open>What a tick does, on a clock that has executed \<open>T\<close> ticks.\<close>

lemma tick_spec:
  assumes ok: "store_ok c" and sc: "sched base T c" and tm: "time_ok base (T + 1)" and now: "base + 20 * (T + 1) \<le> nowMs"
  defines "ts \<equiv> c_tw c 0 ((T + 1) mod LEVEL_SLOTS 0)"
  shows "\<exists>c' out. tick ready nowMs (base + 20 * (T + 1)) c = Some (c', out) \<and> store_ok c' \<and> sched base (T + 1) c'
    \<and> c_lastTime c' = c_lastTime c \<and> c_genId c' = c_genId c \<and> delivers ready nowMs ts out
    \<and> (\<forall>i. c_locs c' i = (if \<exists>t \<in> set ts. tm_id t = i \<and> fires ready nowMs t then None else c_locs c i))
    \<and> (\<forall>t \<in> set ts. due base t \<le> T + 1 \<and> c_locs c (tm_id t) = Some t)
    \<and> (\<forall>i t. c_locs c i = Some t \<and> due base t \<le> T \<longrightarrow> t \<in> set ts)"
proof -
  let ?s = "(T + 1) mod LEVEL_SLOTS 0"
  define c1 where "c1 = c\<lparr>c_slot := (c_slot c)(0 := ?s)\<rparr>"
  have s1: "(c_slot c 0 + 1) AND LEVEL_MASKS 0 = ?s"
    using sc level0 and_mask [OF level0(1)] by (simp add: sched_def pointers_def mod_add_left_eq)
  have ok1: "store_ok c1" using ok unfolding store_ok_def c1_def by simp
  have tw1: "c_tw c1 = c_tw c" "c_slot c1 0 = ?s" "c_locs c1 = c_locs c" by (simp_all add: c1_def)
  obtain c2 out where c2: "trigger ready nowMs c1 = Some (c2, out)" "trig_inv ready nowMs c1 ts (c2, out)" "c_tw c2 0 ?s = []"
    using trigger_spec [OF ok1, of ready nowMs] level0 unfolding tw1 ts_def by auto
  note st = sched_trigger [OF ok sc now c1_def c2(2) [unfolded ts_def] c2(3)]
  obtain c3 where c3: "cascade (base + 20 * (T + 1)) [Suc 0 ..< TIME_WHEEL_LEVEL] c2 = Some c3" "sched base (T + 1) c3" "store_ok c3" "same_timers c2 c3"
    using cascade_stage [OF st(1) level0(1) tm] by blast
  have "tick ready nowMs (base + 20 * (T + 1)) c = Some (c3, out)"
    unfolding tick_def s1 c1_def [symmetric] using c2(1) c3(1) by simp
  moreover have "t \<in> set ts" if lk: "c_locs c i = Some t" and d: "due base t \<le> T" for i t
  proof -
    obtain l p where m: "t \<in> set (c_tw c l p)" using store_okD(6) [OF ok lk] by blast
    then have "vis base T l p t" using sc by (simp add: sched_def)
    then obtain P where P: "T < P" "(P div wide l) mod LEVEL_SLOTS l = p"
        "if l = 0 then due base t \<le> P \<and> P \<le> max (due base t) T + 1 else P \<le> due base t \<and> due base t < P + 2 * wide l"
      unfolding vis_def by blast
    have "l = 0" using P(1,3) d by (auto split: if_splits)
    moreover have "P = T + 1" using P(1,3) d \<open>l = 0\<close> by (simp add: max_def)
    ultimately show ?thesis using m P(2) by (simp add: ts_def)
  qed
  moreover have "due base t \<le> T + 1 \<and> c_locs c (tm_id t) = Some t" if "t \<in> set ts" for t
    using that st(2) store_okD(1) [OF ok] by (auto simp: ts_def)
  moreover have "delivers ready nowMs ts out"
      "\<forall>i. c_locs c2 i = (if \<exists>t \<in> set ts. tm_id t = i \<and> fires ready nowMs t then None else c_locs c i)"
      "c_lastTime c2 = c_lastTime c" "c_genId c2 = c_genId c"
    using c2(2) unfolding trig_inv_def case_prod_conv tw1 by (auto simp: c1_def)
  ultimately show ?thesis using c3(2-4) unfolding same_timers_def by (intro exI [of _ c3] exI [of _ out]) (simp, blast)
qed


section \<open>The clock's goroutine\<close>

text \<open>A clock between two rounds of \<open>run\<close>'s loop, after \<open>T\<close> ticks.\<close>

definition clock_ok :: "int \<Rightarrow> int \<Rightarrow> 'd Clock \<Rightarrow> bool" where
  "clock_ok base T c \<longleftrightarrow> store_ok c \<and> sched base T c \<and> time_ok base T \<and> c_lastTime c = base + 20 * T"

definition delivered :: "int \<Rightarrow> 'd Out \<Rightarrow> 'd TimerData \<Rightarrow> bool" where
  "delivered nowMs out t \<longleftrightarrow>
    (case tm_batch t of
       Some ch \<Rightarrow> promise_of nowMs t \<in> set (batch_of (o_batchs out) ch)
     | None \<Rightarrow> \<exists>ch. tm_receiver t = Some ch \<and> (ch, promise_of nowMs t) \<in> set (o_sent out))"

lemma delivers_delivered:
  assumes "delivers ready nowMs ts out" and "t \<in> set ts" and "fires ready nowMs t"
  shows "delivered nowMs out t"
proof (cases "tm_batch t")
  case None
  then obtain ch where "tm_receiver t = Some ch" using assms(3) by (auto simp: fires_def)
  moreover have "(the (tm_receiver t), promise_of nowMs t) \<in> set (o_sent out)"
    using assms None unfolding delivers_def by auto
  ultimately show ?thesis using None by (simp add: delivered_def)
next
  case (Some ch)
  then show ?thesis using assms by (auto simp: delivered_def delivers_def fires_def)
qed

text \<open>A timer that has a batch channel, or a receiver that accepts whenever it is offered a promise.\<close>

definition deliverable :: "(nat \<Rightarrow> nat \<Rightarrow> 'd Promise \<Rightarrow> bool) \<Rightarrow> 'd TimerData \<Rightarrow> bool" where
  "deliverable ready t \<longleftrightarrow> tm_batch t \<noteq> None \<or> (\<exists>ch. tm_receiver t = Some ch \<and> (\<forall>k p. ready k ch p))"

lemma deliverable_fires: "deliverable ready t \<Longrightarrow> tm_when t \<le> nowMs \<Longrightarrow> fires (ready k) nowMs t"
  by (auto simp: deliverable_def fires_def)

lemma due_when: "due base t \<le> k \<Longrightarrow> tm_when t \<le> base + 20 * k" "tm_when t \<le> base + 20 * k \<Longrightarrow> due base t \<le> k"
  unfolding due_def by linarith+

definition loop_post :: "int \<Rightarrow> int \<Rightarrow> (nat \<Rightarrow> nat \<Rightarrow> 'd Promise \<Rightarrow> bool) \<Rightarrow> int \<Rightarrow> 'd Clock \<Rightarrow> 'd Clock \<Rightarrow> 'd Out list \<Rightarrow> bool" where
  "loop_post base nowMs ready late c c' outs \<longleftrightarrow>
     (\<forall>i t. c_locs c i = Some t \<longrightarrow> c_locs c' i = Some t \<or> c_locs c' i = None \<and> (\<exists>out \<in> set outs. delivered nowMs out t))
   \<and> (\<forall>i. c_locs c i = None \<longrightarrow> c_locs c' i = None)
   \<and> (\<forall>i t. c_locs c i = Some t \<and> deliverable ready t \<and> due base t \<le> late \<longrightarrow> c_locs c' i = None)"

lemma tick_post:
  assumes ok: "store_ok c" and sc: "sched base T c" and tm: "time_ok base (T + 1)" and now: "base + 20 * (T + 1) \<le> nowMs"
  shows "\<exists>c' out. tick (ready k) nowMs (base + 20 * (T + 1)) c = Some (c', out) \<and> store_ok c' \<and> sched base (T + 1) c'
    \<and> c_lastTime c' = c_lastTime c \<and> c_genId c' = c_genId c \<and> loop_post base nowMs ready T c c' [out]"
proof -
  let ?ts = "c_tw c 0 ((T + 1) mod LEVEL_SLOTS 0)"
  obtain c' out where c': "tick (ready k) nowMs (base + 20 * (T + 1)) c = Some (c', out)" "store_ok c'" "sched base (T + 1) c'"
      "c_lastTime c' = c_lastTime c" "c_genId c' = c_genId c" and del: "delivers (ready k) nowMs ?ts out"
    and locs: "\<And>i. c_locs c' i = (if \<exists>t \<in> set ?ts. tm_id t = i \<and> fires (ready k) nowMs t then None else c_locs c i)"
    and ts: "\<And>t. t \<in> set ?ts \<Longrightarrow> due base t \<le> T + 1 \<and> c_locs c (tm_id t) = Some t"
    and late: "\<And>i t. c_locs c i = Some t \<Longrightarrow> due base t \<le> T \<Longrightarrow> t \<in> set ?ts"
    using tick_spec [OF assms, of "ready k"] by blast
  have "c_locs c' i = Some t \<or> c_locs c' i = None \<and> (\<exists>out \<in> set [out]. delivered nowMs out t)" if l: "c_locs c i = Some t" for i t
  proof (cases "\<exists>t \<in> set ?ts. tm_id t = i \<and> fires (ready k) nowMs t")
    case True
    then obtain t' where t': "t' \<in> set ?ts" "tm_id t' = i" "fires (ready k) nowMs t'" by blast
    have "t' = t" using ts [OF t'(1)] t'(2) l by simp
    then show ?thesis using locs [of i] True delivers_delivered [OF del t'(1,3)] by simp
  next
    case False
    show ?thesis using locs [of i, unfolded if_not_P [OF False]] l by simp
  qed
  moreover have "c_locs c' i = None" if "c_locs c i = None" for i using locs [of i] that by simp
  moreover have "c_locs c' i = None" if l: "c_locs c i = Some t" and d: "deliverable ready t" "due base t \<le> T" for i t
  proof -
    have "tm_when t \<le> nowMs" using due_when(1) [OF d(2)] now by (simp add: distrib_left)
    from deliverable_fires [OF d(1) this, of k] have "fires (ready k) nowMs t" .
    moreover have "tm_id t = i" using store_okD(5) [OF ok l] by simp
    ultimately show ?thesis using locs [of i] late [OF l d(2)] by auto
  qed
  ultimately have "loop_post base nowMs ready T c c' [out]" unfolding loop_post_def by blast
  with c' show ?thesis by blast
qed

lemma loop_post_trans:
  assumes 1: "loop_post base nowMs ready a c c1 os" and 2: "loop_post base nowMs ready b c1 c2 os'"
  shows "loop_post base nowMs ready (max a b) c c2 (os @ os')"
  unfolding loop_post_def
proof (intro conjI allI impI)
  fix i t
  note p1 = 1 [unfolded loop_post_def] and p2 = 2 [unfolded loop_post_def]
  show "c_locs c2 i = Some t \<or> c_locs c2 i = None \<and> (\<exists>out \<in> set (os @ os'). delivered nowMs out t)" if "c_locs c i = Some t"
    using that p1 p2 by (metis Un_iff set_append)
  show "c_locs c2 i = None" if "c_locs c i = None" using that p1 p2 by blast
  show "c_locs c2 i = None" if a: "c_locs c i = Some t \<and> deliverable ready t \<and> due base t \<le> max a b"
  proof (cases "due base t \<le> a")
    case True
    then show ?thesis using a p1 p2 by blast
  next
    case False
    then have "due base t \<le> b" using a by linarith
    then show ?thesis using a p1 p2 by metis
  qed
qed

lemma tick_loop_spec:
  assumes "store_ok c" and "sched base T c" and "time_ok base (T + int n)" and "0 \<le> T" and "base + 20 * (T + int n) \<le> nowMs"
  shows "\<exists>c' outs. tick_loop ready nowMs (base + 20 * (T + 1)) k n c = Some (c', outs) \<and> store_ok c' \<and> sched base (T + int n) c'
    \<and> c_lastTime c' = c_lastTime c \<and> c_genId c' = c_genId c \<and> (0 < n \<longrightarrow> loop_post base nowMs ready (T + int n - 1) c c' outs)
    \<and> (n = 0 \<longrightarrow> c' = c \<and> outs = [])"
  using assms
proof (induction n arbitrary: c T k)
  case 0
  then show ?case by simp
next
  case (Suc n)
  have tm: "time_ok base (T + 1)" "base + 20 * (T + 1) \<le> nowMs" using Suc.prems by (auto simp: time_ok_def)
  obtain c1 out where c1: "tick (ready k) nowMs (base + 20 * (T + 1)) c = Some (c1, out)" "store_ok c1" "sched base (T + 1) c1"
      "c_lastTime c1 = c_lastTime c" "c_genId c1 = c_genId c" "loop_post base nowMs ready T c c1 [out]"
    using tick_post [OF Suc.prems(1,2) tm, of ready k] by blast
  have "time_ok base (T + 1 + int n)" "0 \<le> T + 1" "base + 20 * (T + 1 + int n) \<le> nowMs"
    using Suc.prems(3-5) by (simp_all add: algebra_simps)
  from Suc.IH [OF c1(2,3) this, of "Suc k"] obtain c' outs where
    c': "tick_loop ready nowMs (base + 20 * (T + 1 + 1)) (Suc k) n c1 = Some (c', outs)" "store_ok c'" "sched base (T + 1 + int n) c'"
      "c_lastTime c' = c_lastTime c1" "c_genId c' = c_genId c1" "0 < n \<longrightarrow> loop_post base nowMs ready (T + 1 + int n - 1) c1 c' outs"
      "n = 0 \<longrightarrow> c' = c1 \<and> outs = []"
    by blast
  have nx: "base + 20 * (T + 1) + SI = base + 20 * (T + 1 + 1)" by (simp add: SI_def)
  have run: "tick_loop ready nowMs (base + 20 * (T + 1)) k (Suc n) c = Some (c', out # outs)"
    unfolding tick_loop.simps nx using c1(1) c'(1) by simp
  have "loop_post base nowMs ready (T + int (Suc n) - 1) c c' (out # outs)"
  proof (cases "n = 0")
    case True
    then show ?thesis using c1(6) c'(7) by simp
  next
    case False
    then have "loop_post base nowMs ready (T + int n) c1 c' outs" using c'(6) by simp
    from loop_post_trans [OF c1(6) this] show ?thesis by (simp add: max_def)
  qed
  moreover have "sched base (T + int (Suc n)) c'" using c'(3) by (simp add: algebra_simps)
  ultimately show ?case using run c'(2,4,5) c1(4,5) by (metis nat.distinct(1))
qed


section \<open>Tasks\<close>

lemma addTimer_ok:
  assumes ok: "store_ok (forget (tm_id t) c)" and sc: "sched base T c" and tm: "time_ok base T" and lt: "c_lastTime c = base + 20 * T"
    and w: "0 \<le> tm_when t" and near: "tm_when t < c_lastTime c + 20 * LEVEL_TICKS 3 - 20" and g: "tm_id t \<le> c_genId c"
  shows "clock_ok base T (addTimer t c)" and "c_locs (addTimer t c) = (c_locs c)(tm_id t \<mapsto> t)"
    and "c_genId (addTimer t c) = c_genId c"
proof -
  have t3: "LEVEL_TICKS 3 = 1073741824" by (simp add: level_defs)
  have d: "due base t < T + LEVEL_TICKS 3" using near lt t3 unfolding due_def by linarith
  define ticks where "ticks = max 1 (due base t - T)"
  have tk: "ticks_to (tm_when t) (c_lastTime c) = ticks"
    unfolding ticks_def lt by (rule ticks_to_vis [OF tm w]) (use d in linarith)
  have far: "ticks < LEVEL_TICKS 3" using d t3 unfolding ticks_def by linarith
  obtain l p where lp: "place ticks (c_slot c) = (l, p)" by force
  have k1: "1 \<le> ticks" by (simp add: ticks_def)
  have pc: "l < TIME_WHEEL_LEVEL" "0 \<le> p" "p < LEVEL_SLOTS l" using place_cases [OF k1 lp] by blast+
  have "c_slot c l = (T div wide l) mod LEVEL_SLOTS l" using sc pc(1) by (simp add: sched_def pointers_def)
  then have v: "vis base T l p t" by (rule vis_place [OF ticks_def lp _ far w])
  have a: "addTimer t c = putTimer l p t c" using tk lp by (simp add: addTimer_def)
  have "sched base T (addTimer t c)"
    using sc v unfolding a sched_def pointers_def by auto
  moreover have "store_ok (addTimer t c)" unfolding a by (rule store_put [OF ok pc g])
  ultimately show "clock_ok base T (addTimer t c)" using tm lt by (simp add: clock_ok_def a)
  show "c_locs (addTimer t c) = (c_locs c)(tm_id t \<mapsto> t)" "c_genId (addTimer t c) = c_genId c" by (simp_all add: a)
qed

lemma delTimer_ok:
  assumes ok: "clock_ok base T c" and l: "c_locs c i = Some t" and d: "delTimer i c = (r, c')"
  shows "r = Some t" and "clock_ok base T c'" and "c_locs c' = (c_locs c)(i := None)" and "c_genId c' = c_genId c"
proof -
  have c': "r = Some t" "c' = (unlink_timer i c)\<lparr>c_locs := (c_locs c)(i := None)\<rparr>"
    using d l by (auto simp: delTimer_def unlink_timer_def)
  then show "r = Some t" "c_locs c' = (c_locs c)(i := None)" "c_genId c' = c_genId c" by (simp_all add: unlink_timer_def)
  have "store_ok c'"
    by (rule store_drop [of c c' i]) (use ok c' in \<open>simp_all add: clock_ok_def unlink_timer_def\<close>)
  moreover have "sched base T c'"
    using ok unfolding clock_ok_def sched_def pointers_def c'(2) by (auto simp: unlink_timer_def)
  ultimately show "clock_ok base T c'" using ok by (simp add: clock_ok_def c'(2) unlink_timer_def)
qed


section \<open>Properties\<close>



lemma run_start_ok:
  assumes "0 \<le> nowMs" and "nowMs < 2 ^ 61"
  shows "clock_ok nowMs 0 (run_start nowMs NewClock\<lparr>c_genId := n\<rparr>)"
  using assms
  by (auto simp: clock_ok_def run_start_def NewClock_def store_ok_def sched_def pointers_def time_ok_def)


text \<open>C18: the tasks. \<open>NewTimer\<close> adds one pending timer under a new id, whatever its time, and \<open>CancelTimer\<close>
  takes exactly that timer out and says whether it was there; \<open>UpdateTimer\<close> changes its time only. They
  keep the clock in order as long as the time lies within the 248 days that the wheels span.\<close>

theorem clock_tasks_keep_order:
  assumes ok: "clock_ok base T c" and w: "0 \<le> when" "when < c_lastTime c + 20 * LEVEL_TICKS 3 - 20"
  shows "(case NewTimer_task when data rcv bat c of (i, c') \<Rightarrow> c_locs c i = None \<and> clock_ok base T c'
        \<and> c_locs c' = (c_locs c)(i \<mapsto> \<lparr>tm_id = i, tm_when = when, tm_data = data, tm_receiver = rcv, tm_batch = bat\<rparr>))
    \<and> (case CancelTimer_task i c of (b, c') \<Rightarrow> b = (c_locs c i \<noteq> None) \<and> clock_ok base T c' \<and> c_locs c' = (c_locs c)(i := None))
    \<and> (case UpdateTimer_task i when c of (b, c') \<Rightarrow> b = (c_locs c i \<noteq> None) \<and> clock_ok base T c'
        \<and> c_locs c' = (case c_locs c i of None \<Rightarrow> c_locs c | Some t \<Rightarrow> (c_locs c)(i \<mapsto> t\<lparr>tm_when := when\<rparr>)))"
proof (intro conjI)
  have st: "store_ok c" "sched base T c" "time_ok base T" "c_lastTime c = base + 20 * T" using ok by (simp_all add: clock_ok_def)
  have none: "c_locs c (c_genId c + 1) = None" using store_okD(5) [OF st(1), of "c_genId c + 1"] by (cases "c_locs c (c_genId c + 1)") auto
  define c1 where "c1 = c\<lparr>c_genId := c_genId c + 1\<rparr>"
  define t where "t = \<lparr>tm_id = c_genId c + 1, tm_when = when, tm_data = data, tm_receiver = rcv, tm_batch = bat\<rparr>"
  have "store_ok (forget (tm_id t) c1)"
    by (rule store_mono [OF st(1)]) (use none in \<open>simp_all add: c1_def t_def fun_upd_idem\<close>)
  moreover have "sched base T c1" using st(2) by (simp add: sched_def pointers_def c1_def)
  ultimately have a: "clock_ok base T (addTimer t c1)" "c_locs (addTimer t c1) = (c_locs c1)(tm_id t \<mapsto> t)"
    using addTimer_ok [of t c1 base T] st w by (simp_all add: c1_def t_def)
  then show "case NewTimer_task when data rcv bat c of (i, c') \<Rightarrow> c_locs c i = None \<and> clock_ok base T c'
        \<and> c_locs c' = (c_locs c)(i \<mapsto> \<lparr>tm_id = i, tm_when = when, tm_data = data, tm_receiver = rcv, tm_batch = bat\<rparr>)"
    using none by (simp add: NewTimer_task_def c1_def [symmetric]) (simp add: c1_def t_def)
  obtain r c' where d: "delTimer i c = (r, c')" by force
  show "case CancelTimer_task i c of (b, c') \<Rightarrow> b = (c_locs c i \<noteq> None) \<and> clock_ok base T c' \<and> c_locs c' = (c_locs c)(i := None)"
  proof (cases "c_locs c i")
    case None
    then show ?thesis using ok d by (auto simp: CancelTimer_task_def delTimer_def fun_upd_idem)
  next
    case (Some t)
    then show ?thesis using delTimer_ok [OF ok Some d] d by (simp add: CancelTimer_task_def)
  qed
  show "case UpdateTimer_task i when c of (b, c') \<Rightarrow> b = (c_locs c i \<noteq> None) \<and> clock_ok base T c'
        \<and> c_locs c' = (case c_locs c i of None \<Rightarrow> c_locs c | Some t \<Rightarrow> (c_locs c)(i \<mapsto> t\<lparr>tm_when := when\<rparr>))"
  proof (cases "c_locs c i")
    case None
    then show ?thesis using ok d by (auto simp: UpdateTimer_task_def updateTimer_def delTimer_def)
  next
    case (Some t)
    note dl = delTimer_ok [OF ok Some d]
    have ti: "tm_id t = i" "i \<le> c_genId c" using store_okD(5) [OF st(1) Some] by simp_all
    let ?t = "t\<lparr>tm_when := when\<rparr>"
    have c4: "store_ok c'" "sched base T c'" "time_ok base T" "c_lastTime c' = base + 20 * T" using dl(2) by (simp_all add: clock_ok_def)
    have "store_ok (forget (tm_id ?t) c')"
      by (rule store_mono [OF c4(1)]) (use dl(3) ti in \<open>simp_all add: fun_upd_idem\<close>)
    moreover have "0 \<le> tm_when ?t" "tm_when ?t < c_lastTime c' + 20 * LEVEL_TICKS 3 - 20" "tm_id ?t \<le> c_genId c'"
      using w c4(4) st(4) ti dl(4) by simp_all
    ultimately have "clock_ok base T (addTimer ?t c')" "c_locs (addTimer ?t c') = (c_locs c')(i \<mapsto> ?t)"
      using addTimer_ok [of ?t, OF _ c4(2-4)] ti(1) by simp_all
    then show ?thesis using d dl Some by (simp add: UpdateTimer_task_def updateTimer_def)
  qed
qed


theorem clock_tasks_keep_order_witness:
  "case NewTimer_task 1010 () (Some 7) None (run_start 1000 NewClock\<lparr>c_genId := 1\<rparr>) of (i, c') \<Rightarrow> clock_ok 1000 0 c' \<and> c_locs c' i \<noteq> None"
proof -
  have t3: "LEVEL_TICKS 3 = 1073741824" by (simp add: level_defs)
  have c: "clock_ok 1000 0 (run_start 1000 NewClock\<lparr>c_genId := 1\<rparr> :: unit Clock)" by (rule run_start_ok) simp_all
  have w: "1010 < c_lastTime (run_start 1000 NewClock\<lparr>c_genId := 1\<rparr> :: unit Clock) + 20 * LEVEL_TICKS 3 - 20"
    unfolding t3 by (simp add: run_start_def)
  show ?thesis using clock_tasks_keep_order [OF c _ w, of "()" "Some 7" None 0] by (auto split: prod.splits)
qed

text \<open>C17: what a trigger delivers. It takes every timer off the current slot. A promise that is sent, to a
  receiver or in a batch, belongs to one of them, carries its id and data and is not early; a
  timer leaves the clock exactly if its promise was sent, and all others stay pending.\<close>

theorem trigger_never_early:
  assumes ok: "store_ok c" and sl: "0 \<le> c_slot c 0" "c_slot c 0 < LEVEL_SLOTS 0"
  shows "\<exists>c' out. trigger ready nowMs c = Some (c', out) \<and> store_ok c' \<and> c_tw c' 0 (c_slot c 0) = []
    \<and> (\<forall>ch p. (ch, p) \<in> set (o_sent out) \<longrightarrow> (\<exists>t \<in> set (c_tw c 0 (c_slot c 0)).
          p = promise_of nowMs t \<and> tm_when t \<le> nowMs \<and> tm_batch t = None \<and> tm_receiver t = Some ch \<and> ready ch p))
    \<and> (\<forall>ch p. p \<in> set (batch_of (o_batchs out) ch) \<longrightarrow> (\<exists>t \<in> set (c_tw c 0 (c_slot c 0)).
          p = promise_of nowMs t \<and> tm_when t \<le> nowMs \<and> tm_batch t = Some ch))
    \<and> (\<forall>t \<in> set (c_tw c 0 (c_slot c 0)). if fires ready nowMs t then delivered nowMs out t \<and> c_locs c' (tm_id t) = None
          else c_locs c' (tm_id t) = Some t)
    \<and> (\<forall>i. (\<forall>t \<in> set (c_tw c 0 (c_slot c 0)). tm_id t \<noteq> i) \<longrightarrow> c_locs c' i = c_locs c i)"
proof -
  let ?ts = "c_tw c 0 (c_slot c 0)"
  obtain c' out where c': "trigger ready nowMs c = Some (c', out)" "trig_inv ready nowMs c ?ts (c', out)" "c_tw c' 0 (c_slot c 0) = []"
    using trigger_spec [OF assms] by blast
  have ok': "store_ok c'" and del: "delivers ready nowMs ?ts out"
    and locs: "\<And>i. c_locs c' i = (if \<exists>t \<in> set ?ts. tm_id t = i \<and> fires ready nowMs t then None else c_locs c i)"
    using c'(2) unfolding trig_inv_def by auto
  have sent: "\<exists>t \<in> set ?ts. p = promise_of nowMs t \<and> tm_when t \<le> nowMs \<and> tm_batch t = None \<and> tm_receiver t = Some ch \<and> ready ch p"
    if m: "(ch, p) \<in> set (o_sent out)" for ch p
  proof -
    obtain t where t: "t \<in> set ?ts" "fires ready nowMs t" "tm_batch t = None" "ch = the (tm_receiver t)" "p = promise_of nowMs t"
      using m del unfolding delivers_def by auto
    then show ?thesis by (intro bexI [OF _ t(1)]) (auto simp: fires_def)
  qed
  have bat: "\<exists>t \<in> set ?ts. p = promise_of nowMs t \<and> tm_when t \<le> nowMs \<and> tm_batch t = Some ch" if "p \<in> set (batch_of (o_batchs out) ch)" for ch p
    using that del unfolding delivers_def by auto
  have each: "if fires ready nowMs t then delivered nowMs out t \<and> c_locs c' (tm_id t) = None else c_locs c' (tm_id t) = Some t"
    if m: "t \<in> set ?ts" for t
  proof (cases "fires ready nowMs t")
    case True
    then show ?thesis using delivers_delivered [OF del m True] locs [of "tm_id t"] m by auto
  next
    case False
    have lt: "c_locs c (tm_id t) = Some t" by (rule store_okD(1) [OF ok m])
    have "\<not> (\<exists>t' \<in> set ?ts. tm_id t' = tm_id t \<and> fires ready nowMs t')"
    proof
      assume "\<exists>t' \<in> set ?ts. tm_id t' = tm_id t \<and> fires ready nowMs t'"
      then obtain t' where t': "t' \<in> set ?ts" "tm_id t' = tm_id t" "fires ready nowMs t'" by blast
      have "t' = t" by (rule store_inj [OF ok m t'(1,2)])
      then show False using False t'(3) by simp
    qed
    from locs [of "tm_id t", unfolded if_not_P [OF this]] show ?thesis using False lt by simp
  qed
  have "c_locs c' i = c_locs c i" if "\<forall>t \<in> set ?ts. tm_id t \<noteq> i" for i using locs [of i] that by auto
  with c' ok' sent bat each show ?thesis by blast
qed

theorem trigger_never_early_witness:
  "\<exists>c' out. trigger (\<lambda>_ _. True) 1000 (NewClock :: unit Clock) = Some (c', out) \<and> store_ok c'"
proof -
  have ok: "store_ok (NewClock :: unit Clock)" by (simp add: store_ok_def NewClock_def)
  have s: "c_slot (NewClock :: unit Clock) 0 = 0" by (simp add: NewClock_def)
  show ?thesis using trigger_never_early [OF ok, of "\<lambda>_ _. True" 1000] by (simp add: s level0) blast
qed

lemma popRange_empty: "c_tw c l p = [] \<Longrightarrow> popRange f l p (c, x) = Some (c, x)"
  by (subst popRange.simps) simp

lemma place_far:
  assumes f: "LEVEL_TICKS 3 \<le> ticks"
  shows "place ticks slots = (3, 63)"
proof -
  obtain l p where lp: "place ticks slots = (l, p)" by force
  have t3: "LEVEL_TICKS 3 = 1073741824" "LEVEL_SLOTS 3 = 64" by (simp_all add: level_defs)
  have k: "1 \<le> ticks" using f t3 by linarith
  note pc = place_cases [OF k lp]
  have "LEVEL_TICKS l \<le> LEVEL_TICKS 3" using pc by (intro LEVEL_TICKS_mono) (auto simp: TIME_WHEEL_LEVEL_def)
  then have "l = 3 \<and> p = LEVEL_SLOTS 3 - 1" using pc f by linarith
  then show ?thesis using lp t3 by simp
qed

text \<open>The list of the last slot is refilled as fast as it is emptied when a timer in it is still
  beyond the reach of the wheels.\<close>

lemma far_loop:
  fixes st :: "'d Clock \<times> unit"
  assumes "popRange (cascade_fn tk) 3 63 st = Some r"
    and "c_slot (fst st) 3 = 63" and "\<exists>t \<in> set (c_tw (fst st) 3 63). LEVEL_TICKS 3 \<le> ticks_to (tm_when t) tk"
  shows False
proof -
  note far = place_far
  define stuck where "stuck c \<longleftrightarrow> c_slot c 3 = 63 \<and> (\<exists>t \<in> set (c_tw c 3 63). LEVEL_TICKS 3 \<le> ticks_to (tm_when t) tk)" for c :: "'d Clock"
  have step: "stuck (fst (cascade_fn tk t (set_tw 3 63 ts c, u)))" if st: "stuck c" and tw: "c_tw c 3 63 = t # ts" for c t ts u
  proof -
    obtain l p where lp: "place (ticks_to (tm_when t) tk) (c_slot c) = (l, p)" by force
    have e: "fst (cascade_fn tk t (set_tw 3 63 ts c, u)) = putTimer l p t (set_tw 3 63 ts c)"
      using lp by (simp add: cascade_fn_def)
    show ?thesis
    proof (cases "LEVEL_TICKS 3 \<le> ticks_to (tm_when t) tk")
      case True
      then have "l = 3" "p = 63" using far [OF True, of "c_slot c"] lp by auto
      then show ?thesis using True st unfolding stuck_def e by simp
    next
      case False
      then obtain t' where "t' \<in> set ts" "LEVEL_TICKS 3 \<le> ticks_to (tm_when t') tk" using st tw unfolding stuck_def by auto
      then show ?thesis using st unfolding stuck_def e by auto
    qed
  qed
  have "fn = cascade_fn tk \<and> l = 3 \<and> p = 63 \<longrightarrow> \<not> stuck (fst st)" if "popRange fn l p st = Some r"
    for fn :: "'d TimerData \<Rightarrow> 'd Clock \<times> unit \<Rightarrow> 'd Clock \<times> unit" and l p st r
  proof (rule popRange.raw_induct [where P = "\<lambda>fn l p st r. fn = cascade_fn tk \<and> l = 3 \<and> p = 63 \<longrightarrow> \<not> stuck (fst st)", OF _ that])
    fix pr :: "('d TimerData \<Rightarrow> 'd Clock \<times> unit \<Rightarrow> 'd Clock \<times> unit) \<Rightarrow> nat \<Rightarrow> int \<Rightarrow> 'd Clock \<times> unit \<Rightarrow> ('d Clock \<times> unit) option"
      and fn l p st r
    assume IH: "\<And>fn l p st r. pr fn l p st = Some r \<Longrightarrow> fn = cascade_fn tk \<and> l = 3 \<and> p = 63 \<longrightarrow> \<not> stuck (fst st)"
      and b: "(case c_tw (fst st) l p of [] \<Rightarrow> Some st | t # ts \<Rightarrow> pr fn l p (fn t (set_tw l p ts (fst st), snd st))) = Some r"
    show "fn = cascade_fn tk \<and> l = 3 \<and> p = 63 \<longrightarrow> \<not> stuck (fst st)"
    proof (intro impI notI)
      assume a: "fn = cascade_fn tk \<and> l = 3 \<and> p = 63" and s: "stuck (fst st)"
      then obtain t ts where tw: "c_tw (fst st) 3 63 = t # ts" unfolding stuck_def by (cases "c_tw (fst st) 3 63") auto
      then have "pr fn l p (fn t (set_tw l p ts (fst st), snd st)) = Some r" using b a by simp
      from IH [OF this] a step [OF s tw, of "snd st"] show False by simp
    qed
  qed
  from this [OF assms(1)] have "\<not> stuck (fst st)" by simp
  then show False using assms(2,3) unfolding stuck_def by blast
qed


text \<open>C29: a timer more than 248 days ahead stops the clock for good. It is put into the last slot of the
  last level, and when the clock reaches that slot, with the timer still that far ahead, the loop
  that redistributes the slot puts the timer back into the list it is emptying: the tick never
  returns.\<close>

theorem far_timer_stops_clock:
  assumes far: "LEVEL_TICKS 3 \<le> ticks_to (tm_when t) tk" "LEVEL_TICKS 3 \<le> ticks_to (tm_when t) (c_lastTime c)"
    and sl: "c_slot c' = (\<lambda>l. [1023, 255, 63, 62] ! l)" and tw: "t \<in> set (c_tw c' 3 63)"
    and others: "\<forall>l p. (l, p) \<noteq> (3, 63) \<longrightarrow> c_tw c' l p = []"
  shows "t \<in> set (c_tw (addTimer t c) 3 63) \<and> tick ready nowMs tk c' = None"
proof
  have "place (ticks_to (tm_when t) (c_lastTime c)) (c_slot c) = (3, 63)" by (rule place_far [OF far(2)])
  then show "t \<in> set (c_tw (addTimer t c) 3 63)" by (simp add: addTimer_def)
  have a: "(1024 :: int) AND LEVEL_MASKS 0 = 0" "(256 :: int) AND LEVEL_MASKS (Suc 0) = 0" "(64 :: int) AND LEVEL_MASKS 2 = 0" "(63 :: int) AND LEVEL_MASKS 3 = 63"
    by (simp_all add: LEVEL_MASKS_def level_defs)
  define c0 where "c0 = c'\<lparr>c_slot := (c_slot c')(0 := 0)\<rparr>"
  define c1 where "c1 = c0\<lparr>c_slot := (c_slot c0)(Suc 0 := 0)\<rparr>"
  define c2 where "c2 = c1\<lparr>c_slot := (c_slot c1)(2 := 0)\<rparr>"
  define c3 where "c3 = c2\<lparr>c_slot := (c_slot c2)(3 := 63)\<rparr>"
  have sel: "c_slot c0 0 = 0" "c_slot c0 (Suc 0) = 255" "c_slot c1 (Suc 0) = 0" "c_slot c1 2 = 63" "c_slot c2 2 = 0" "c_slot c2 3 = 62" "c_slot c3 3 = 63"
    by (simp_all add: c3_def c2_def c1_def c0_def sl numeral_2_eq_2 numeral_3_eq_3)
  have "c_tw c3 = c_tw c'" "c_tw c2 = c_tw c'" "c_tw c1 = c_tw c'" "c_tw c0 = c_tw c'" by (simp_all add: c3_def c2_def c1_def c0_def)
  note tws = this
  have e: "c_tw c0 0 0 = []" "c_tw c1 (Suc 0) 0 = []" "c_tw c2 2 0 = []" using others by (simp_all add: tws)
  note p0 = popRange_empty [OF e(1)] and p1 = popRange_empty [OF e(2)] popRange_empty [OF e(3)]
  have p3: "popRange (cascade_fn tk) 3 63 (c3, ()) = None"
    using far_loop [of tk "(c3, ())"] sel(7) tw far(1) by (cases "popRange (cascade_fn tk) 3 63 (c3, ())") (auto simp: tws)
  have "cascade tk [Suc 0, 2, 3] c0 = None"
    using sel a p3 by (simp add: p1 c1_def [symmetric] c2_def [symmetric] c3_def [symmetric])
  moreover have "tick ready nowMs tk c' = map_option (\<lambda>c3. (c3, \<lparr>o_sent = [], o_batchs = []\<rparr>)) (cascade tk [Suc 0, 2, 3] c0)"
    using a(1) sel(1) unfolding tick_def trigger_def levels_upt unfolding One_nat_def by (simp del: cascade.simps add: p0 sl c0_def [symmetric, unfolded sl])
  ultimately show "tick ready nowMs tk c' = None" by simp
qed


theorem far_timer_stops_clock_witness:
  "let t = \<lparr>tm_id = 1, tm_when = 2 ^ 40, tm_data = (), tm_receiver = Some 7, tm_batch = None\<rparr>;
       c' = \<lparr>c_genId = 1, c_lastTime = 2 ^ 34, c_slot = (\<lambda>l. [1023, 255, 63, 62] ! l),
              c_tw = (\<lambda>l p. if l = 3 \<and> p = 63 then [t] else []), c_locs = [1 \<mapsto> t]\<rparr>
   in tick (\<lambda>_ _. True) (2 ^ 34) (2 ^ 34) c' = None"
proof -
  define t :: "unit TimerData" where "t = \<lparr>tm_id = 1, tm_when = 2 ^ 40, tm_data = (), tm_receiver = Some 7, tm_batch = None\<rparr>"
  define c' where "c' = \<lparr>c_genId = 1, c_lastTime = 2 ^ 34, c_slot = (\<lambda>l. [1023, 255, 63, 62] ! l),
              c_tw = (\<lambda>l p. if l = 3 \<and> p = 63 then [t] else []), c_locs = [1 \<mapsto> t]\<rparr>"
  have w: "tm_when t = 2 ^ 40" by (simp add: t_def)
  have "LEVEL_TICKS 3 \<le> ticks_to (tm_when t) (2 ^ 34)"
    unfolding w by (simp add: ticks_to_def i64_def SI_def signed_take_bit_int_eq_self signed_divide_int_def level_defs)
  moreover have "c_lastTime c' = 2 ^ 34" by (simp add: c'_def)
  ultimately show ?thesis
    using far_timer_stops_clock [of t "2 ^ 34" c' c' "\<lambda>_ _. True" "2 ^ 34"]
    unfolding Let_def t_def [symmetric] c'_def [symmetric] by (simp add: c'_def)
qed

end
