(* ===== verification/Clock_Push.thy ===== *)
theory Clock_Push
  imports Clock_Sched
begin

text \<open>
  How callers hand tasks to the goroutine of \<open>src/clock/clock.go\<close>: \<open>pushTask\<close> checks the \<open>closed\<close> flag, sends
  the task into a buffered channel, and waits for the task to be run; \<open>run\<close> receives tasks until it is told to
  quit, when it sets the flag and closes the channel. The interleavings of any number of callers
  with the goroutine are the runs of a step relation, one step per atomic action.
\<close>

section \<open>The protocol\<close>

datatype push_error = ClockClosed | TaskChannelFull

text \<open>Where a caller is in \<open>pushTask\<close>: before the check, before the send, waiting on \<open>done\<close>, or back.\<close>

datatype push_phase = AtCheck | AtSend | AtDone | Returned "push_error option" | Panicked

text \<open>Where the goroutine is: in its select, between \<open>closed.Store\<close> and \<open>close\<close>, or gone.\<close>

datatype run_phase = InSelect | AtClose | Gone

record push_state =
  ps_closed :: bool
  ps_chanClosed :: bool
  ps_taskch :: "nat list"
  ps_callers :: "nat \<Rightarrow> push_phase"
  ps_run :: run_phase

definition taskch_cap :: nat where
  "taskch_cap = 10240"

definition push_init :: push_state where
  "push_init = \<lparr>ps_closed = False, ps_chanClosed = False, ps_taskch = [], ps_callers = (\<lambda>_. AtCheck), ps_run = InSelect\<rparr>"

definition set_caller :: "nat \<Rightarrow> push_phase \<Rightarrow> push_state \<Rightarrow> push_state" where
  "set_caller i p s = s\<lparr>ps_callers := (ps_callers s)(i := p)\<rparr>"

definition pushTask_check :: "nat \<Rightarrow> push_state \<Rightarrow> push_state" where
  "pushTask_check i s = (if ps_closed s then set_caller i (Returned (Some ClockClosed)) s else set_caller i AtSend s)"

text \<open>A send on a closed channel panics, in a select with a default branch, too.\<close>

definition pushTask_send :: "nat \<Rightarrow> push_state \<Rightarrow> push_state" where
  "pushTask_send i s =
    (if ps_chanClosed s then set_caller i Panicked s
     else if length (ps_taskch s) < taskch_cap then set_caller i AtDone (s\<lparr>ps_taskch := ps_taskch s @ [i]\<rparr>)
     else set_caller i (Returned (Some TaskChannelFull)) s)"

text \<open>The goroutine runs the task of caller \<open>i\<close> and closes its \<open>done\<close> channel, on which \<open>i\<close> is waiting.\<close>

definition run_task :: "push_state \<Rightarrow> push_state" where
  "run_task s = (case ps_taskch s of [] \<Rightarrow> s | i # is \<Rightarrow> set_caller i (Returned None) (s\<lparr>ps_taskch := is\<rparr>))"

inductive push_step :: "push_state \<Rightarrow> push_state \<Rightarrow> bool" where
  check: "ps_callers s i = AtCheck \<Longrightarrow> push_step s (pushTask_check i s)"
| send: "ps_callers s i = AtSend \<Longrightarrow> push_step s (pushTask_send i s)"
| task: "ps_run s = InSelect \<Longrightarrow> ps_taskch s \<noteq> [] \<Longrightarrow> push_step s (run_task s)"
| quit: "ps_run s = InSelect \<Longrightarrow> push_step s (s\<lparr>ps_closed := True, ps_run := AtClose\<rparr>)"
| close: "ps_run s = AtClose \<Longrightarrow> push_step s (s\<lparr>ps_chanClosed := True, ps_run := Gone\<rparr>)"

inductive_cases push_stepE: "push_step s s'"

inductive push_run :: "push_state \<Rightarrow> push_state \<Rightarrow> bool" where
  refl: "push_run s s"
| step: "push_run s s' \<Longrightarrow> push_step s' s'' \<Longrightarrow> push_run s s''"


section \<open>While the clock runs\<close>

text \<open>The waiting callers are those whose tasks are in the channel; a caller has panicked only if the channel
  was closed.\<close>

definition push_ok :: "push_state \<Rightarrow> bool" where
  "push_ok s \<longleftrightarrow> distinct (ps_taskch s) \<and> set (ps_taskch s) = {i. ps_callers s i = AtDone} \<and> length (ps_taskch s) \<le> taskch_cap
     \<and> (ps_chanClosed s \<longleftrightarrow> ps_run s = Gone) \<and> (ps_closed s \<longleftrightarrow> ps_run s \<noteq> InSelect)
     \<and> (\<forall>i. ps_callers s i = Panicked \<longrightarrow> ps_chanClosed s) \<and> (\<forall>i. ps_callers s i = Returned (Some ClockClosed) \<longrightarrow> ps_closed s)"

lemmas push_defs = pushTask_check_def pushTask_send_def run_task_def set_caller_def

lemma push_ok_step:
  assumes ok: "push_ok s" and "push_step s s'"
  shows "push_ok s'"
  using assms(2)
proof cases
  case (check i)
  then show ?thesis using ok by (auto simp: push_ok_def push_defs)
next
  case (send i)
  have "i \<notin> set (ps_taskch s)" using ok send(2) by (simp add: push_ok_def)
  then show ?thesis using ok send by (auto simp: push_ok_def push_defs)
next
  case task
  then obtain i r where q: "ps_taskch s = i # r" by (cases "ps_taskch s") auto
  then show ?thesis using ok task by (auto simp: push_ok_def push_defs)
qed (use ok in \<open>auto simp: push_ok_def\<close>)

lemma push_ok_run: "push_run s s' \<Longrightarrow> push_ok s \<Longrightarrow> push_ok s'"
  by (induction rule: push_run.induct) (auto intro: push_ok_step)

lemma push_init_ok: "push_ok push_init"
  by (simp add: push_ok_def push_init_def taskch_cap_def)

lemma run_task_iter:
  assumes "push_ok s" and "ps_run s = InSelect" and "ps_taskch s = p @ i # js"
  shows "\<exists>s'. push_run s s' \<and> ps_callers s' i = Returned None \<and> ps_run s' = InSelect"
  using assms
proof (induction p arbitrary: s)
  case Nil
  then have "push_step s (run_task s)" by (auto intro: push_step.task)
  then have "push_run s (run_task s)" by (auto intro: push_run.intros)
  then show ?case using Nil by (intro exI [of _ "run_task s"]) (simp add: push_defs)
next
  case (Cons a as)
  have st: "push_step s (run_task s)" using Cons.prems by (auto intro: push_step.task)
  have "ps_run (run_task s) = InSelect" "ps_taskch (run_task s) = as @ i # js" using Cons.prems by (simp_all add: push_defs)
  from Cons.IH [OF push_ok_step [OF Cons.prems(1) st] this] obtain s' where
    s': "push_run (run_task s) s'" "ps_callers s' i = Returned None" "ps_run s' = InSelect" by blast
  have "push_run x y \<Longrightarrow> push_step s x \<Longrightarrow> push_run s y" for x y
    by (induction rule: push_run.induct) (auto intro: push_run.intros)
  then show ?case using s' st by blast
qed


section \<open>After the clock has quit\<close>

lemma gone_stuck:
  assumes "ps_run s = Gone" and "ps_callers s i = AtDone" and "push_run s s'"
  shows "ps_run s' = Gone \<and> ps_callers s' i = AtDone"
  using assms(3,1,2)
proof (induction rule: push_run.induct)
  case (step s s' s'')
  from step.hyps(2) step.IH [OF step.prems] show ?case
    by cases (auto simp: push_defs)
qed simp


section \<open>Properties\<close>


lemma push_run_trans1: "push_step s s' \<Longrightarrow> push_run s s'"
  by (auto intro: push_run.intros)

lemma demo_push_run:
  "push_run push_init (pushTask_send 0 (pushTask_check 0 push_init))"
  by (rule push_run.step [OF push_run_trans1 [OF push_step.check] push_step.send]) (simp_all add: push_init_def push_defs)


text \<open>C30: quitting strands callers. There is a run in which a caller that has passed the check sends on the
  closed channel and panics, and one in which a caller has sent its task before the clock quit and
  then waits for ever: in every continuation its \<open>pushTask\<close> has not returned.\<close>

theorem quitting_strands_callers:
  "(\<exists>s. push_run push_init s \<and> ps_callers s 0 = Panicked)
   \<and> (\<exists>s. push_run push_init s \<and> ps_callers s 0 = AtDone \<and> (\<forall>s'. push_run s s' \<longrightarrow> ps_callers s' 0 = AtDone))"
proof
  let ?q = "\<lambda>s. s\<lparr>ps_closed := True, ps_run := AtClose\<rparr>" and ?c = "\<lambda>s. s\<lparr>ps_chanClosed := True, ps_run := Gone\<rparr>"
  have r1: "push_run push_init (pushTask_check 0 push_init)"
    by (rule push_run_trans1 [OF push_step.check]) (simp add: push_init_def)
  have r2: "push_run push_init (?c (?q (pushTask_check 0 push_init)))"
    by (rule push_run.step [OF push_run.step [OF r1 push_step.quit] push_step.close]) (simp_all add: push_init_def push_defs)
  have "push_run push_init (pushTask_send 0 (?c (?q (pushTask_check 0 push_init))))"
    by (rule push_run.step [OF r2 push_step.send]) (simp add: push_init_def push_defs)
  moreover have "ps_callers (pushTask_send 0 (?c (?q (pushTask_check 0 push_init)))) 0 = Panicked"
    by (simp add: push_init_def push_defs)
  ultimately show "\<exists>s. push_run push_init s \<and> ps_callers s 0 = Panicked" by blast
  let ?s = "?c (?q (pushTask_send 0 (pushTask_check 0 push_init)))"
  have "push_run push_init ?s"
    by (rule push_run.step [OF push_run.step [OF demo_push_run push_step.quit] push_step.close]) (simp_all add: push_init_def push_defs taskch_cap_def)
  moreover have "ps_run ?s = Gone" "ps_callers ?s 0 = AtDone" by (simp_all add: push_init_def push_defs taskch_cap_def)
  ultimately show "\<exists>s. push_run push_init s \<and> ps_callers s 0 = AtDone \<and> (\<forall>s'. push_run s s' \<longrightarrow> ps_callers s' 0 = AtDone)"
    using gone_stuck by blast
qed


theorem quitting_strands_callers_witness:
  "\<exists>s. push_run push_init s \<and> ps_callers s 0 = AtDone \<and> ps_callers s 0 \<noteq> Returned None"
  using quitting_strands_callers by fastforce

end
