(* ===== verification/Ws_Token.thy ===== *)
theory Ws_Token
  imports Prelude
begin

text \<open>
  The header tokenizers of \<open>src/wsg/upgrader.go\<close>: tokens, comma-separated token lists, quoted strings and extension
  lists. Strings are byte strings, as in Go.
\<close>

section \<open>Tokens\<close>

text \<open>The table \<open>isTokenOctet\<close>.\<close>

definition isTokenOctet :: "char \<Rightarrow> bool" where
  "isTokenOctet b \<longleftrightarrow> b \<in> set (''!#$%&'' @ [CHR 0x27] @ ''*+-.'' @ ''0123456789'' @ ''ABCDEFGHIJKLMNOPQRSTUWVXYZ'' @ ''^_''
     @ [CHR 0x60] @ ''abcdefghijklmnopqrstuvwxyz'' @ ''|~'')"

definition skipSpace :: "string \<Rightarrow> string" where
  "skipSpace s = dropWhile (\<lambda>b. b = CHR '' '' \<or> b = CHR 0x09) s"

definition nextToken :: "string \<Rightarrow> string \<times> string" where
  "nextToken s = (takeWhile isTokenOctet s, dropWhile isTokenOctet s)"

lemma skipSpace_length: "length (skipSpace s) \<le> length s"
  by (simp add: skipSpace_def length_dropWhile_le)

lemma nextToken_length: "nextToken s = (t, r) \<Longrightarrow> length r \<le> length s"
  by (auto simp: nextToken_def length_dropWhile_le)

lemma nextToken_consumes: "nextToken s = (t, r) \<Longrightarrow> t \<noteq> [] \<Longrightarrow> length r < length s"
  by (cases s) (auto simp: nextToken_def le_imp_less_Suc length_dropWhile_le split: if_splits)


section \<open>Comparing without case\<close>

text \<open>\<open>utf8.DecodeRuneInString\<close> of a nonempty string: the rune and the number of its bytes; an ill-formed byte is
  \<open>RuneError\<close> and has size 1.\<close>

definition cont_byte :: "nat \<Rightarrow> bool" where
  "cont_byte b \<longleftrightarrow> 0x80 \<le> b \<and> b \<le> 0xBF"

definition DecodeRune :: "string \<Rightarrow> nat \<times> nat" where
  "DecodeRune s =
    (let n = length s; b = (\<lambda>i. of_char (s ! i) :: nat); b0 = b 0 in
     if b0 < 0x80 then (b0, 1)
     else if 0xC2 \<le> b0 \<and> b0 \<le> 0xDF \<and> 2 \<le> n \<and> cont_byte (b 1) then ((b0 - 0xC0) * 64 + (b 1 - 0x80), 2)
     else if 0xE0 \<le> b0 \<and> b0 \<le> 0xEF \<and> 3 \<le> n \<and> (if b0 = 0xE0 then 0xA0 else 0x80) \<le> b 1
       \<and> b 1 \<le> (if b0 = 0xED then 0x9F else 0xBF) \<and> cont_byte (b 2)
     then ((b0 - 0xE0) * 4096 + (b 1 - 0x80) * 64 + (b 2 - 0x80), 3)
     else if 0xF0 \<le> b0 \<and> b0 \<le> 0xF4 \<and> 4 \<le> n \<and> (if b0 = 0xF0 then 0x90 else 0x80) \<le> b 1
       \<and> b 1 \<le> (if b0 = 0xF4 then 0x8F else 0xBF) \<and> cont_byte (b 2) \<and> cont_byte (b 3)
     then ((b0 - 0xF0) * 262144 + (b 1 - 0x80) * 4096 + (b 2 - 0x80) * 64 + (b 3 - 0x80), 4)
     else (0xFFFD, 1))"

lemma DecodeRune_size: "DecodeRune s = (r, n) \<Longrightarrow> 0 < n"
  by (auto simp: DecodeRune_def Let_def split: if_splits)

definition lower_rune :: "nat \<Rightarrow> nat" where
  "lower_rune r = (if 65 \<le> r \<and> r \<le> 90 then r + 97 - 65 else r)"

function equalASCIIFold :: "string \<Rightarrow> string \<Rightarrow> bool" where
  "equalASCIIFold s t =
    (if s \<noteq> [] \<and> t \<noteq> []
     then (case DecodeRune s of (sr, sn) \<Rightarrow> case DecodeRune t of (tr, tn) \<Rightarrow>
             if sr = tr then equalASCIIFold (drop sn s) (drop tn t)
             else if lower_rune sr \<noteq> lower_rune tr then False
             else equalASCIIFold (drop sn s) (drop tn t))
     else s = t)"
  by pat_completeness auto
termination
  by (relation "measure (\<lambda>(s, t). length s)") (auto dest: DecodeRune_size [OF sym])

declare equalASCIIFold.simps [simp del]


section \<open>Token lists\<close>

function token_loop :: "string \<Rightarrow> string \<Rightarrow> bool" where
  "token_loop value s =
    (case nextToken (skipSpace s) of (t, s1) \<Rightarrow>
       if t = [] then False
       else let s2 = skipSpace s1 in
         if s2 \<noteq> [] \<and> hd s2 \<noteq> CHR '','' then False
         else if equalASCIIFold t value then True
         else if s2 = [] then False
         else token_loop value (tl s2))"
  by pat_completeness auto
termination
proof (relation "measure (\<lambda>(v, s). length s)")
  fix v s t s1 s2
  assume a: "(t, s1) = nextToken (skipSpace s)" "t \<noteq> []" "s2 = skipSpace s1" "s2 \<noteq> []"
  have "length s1 < length (skipSpace s)" by (rule nextToken_consumes [OF a(1) [symmetric] a(2)])
  then have "length s2 < length s" unfolding a(3) using skipSpace_length [of s1] skipSpace_length [of s] by linarith
  then show "((v :: string, tl s2), (v, s)) \<in> measure (\<lambda>(v, s). length s)" by simp
qed simp

declare token_loop.simps [simp del]

text \<open>A header is a map from names to the values that were sent for them.\<close>

type_synonym http_header = "string \<Rightarrow> string list"

definition tokenListContainsValue :: "http_header \<Rightarrow> string \<Rightarrow> string \<Rightarrow> bool" where
  "tokenListContainsValue header name value = list_ex (token_loop value) (header name)"


section \<open>Quoted strings and extensions\<close>

text \<open>The two loops of \<open>nextTokenOrQuoted\<close>: before the first backslash, and after it, where \<open>p\<close> collects the value.\<close>

fun quoted_escaped :: "string \<Rightarrow> bool \<Rightarrow> string \<Rightarrow> string \<times> string" where
  "quoted_escaped p escape [] = ('''', '''')"
| "quoted_escaped p escape (b # s) =
    (if escape then quoted_escaped (p @ [b]) False s
     else if b = CHR 0x5C then quoted_escaped p True s
     else if b = CHR 0x22 then (p, s)
     else quoted_escaped (p @ [b]) False s)"

fun quoted_plain :: "string \<Rightarrow> string \<Rightarrow> string \<times> string" where
  "quoted_plain p [] = ('''', '''')"
| "quoted_plain p (b # s) =
    (if b = CHR 0x22 then (p, s)
     else if b = CHR 0x5C then quoted_escaped p True s
     else quoted_plain (p @ [b]) s)"

definition nextTokenOrQuoted :: "string \<Rightarrow> string \<times> string" where
  "nextTokenOrQuoted s = (case s of b # s1 \<Rightarrow> if b = CHR 0x22 then quoted_plain '''' s1 else nextToken s | [] \<Rightarrow> nextToken s)"

lemma quoted_escaped_length: "length (snd (quoted_escaped p e s)) \<le> length s"
  by (induction s arbitrary: p e) (auto intro: le_SucI)

lemma quoted_plain_length: "length (snd (quoted_plain p s)) \<le> length s"
proof (induction p s rule: quoted_plain.induct)
  case (2 p b s)
  then show ?case using quoted_escaped_length [of p True s] by (auto intro: le_SucI)
qed simp

lemma nextTokenOrQuoted_length: "length (snd (nextTokenOrQuoted s)) \<le> length s"
proof (cases s)
  case (Cons b s1)
  then show ?thesis using quoted_plain_length [of "''''" s1] nextToken_length [of s]
    by (auto simp: nextTokenOrQuoted_def nextToken_def length_dropWhile_le le_SucI)
qed (simp add: nextTokenOrQuoted_def nextToken_def)

text \<open>The parameters of one extension: \<open>None\<close> abandons the header value, else the extension and what follows it. A Go map keeps
  the last value of a key.\<close>

type_synonym extension = "(string \<rightharpoonup> string)"

definition ext_value :: "string \<Rightarrow> string \<times> string" where
  "ext_value s = (if s \<noteq> [] \<and> hd s = CHR ''='' then (case nextTokenOrQuoted (skipSpace (tl s)) of (v, r) \<Rightarrow> (v, skipSpace r)) else ('''', s))"

lemma ext_value_length: "length (snd (ext_value s)) \<le> length s"
proof (cases "nextTokenOrQuoted (skipSpace (tl s))")
  case (Pair v r)
  have "length r \<le> length s" using nextTokenOrQuoted_length [of "skipSpace (tl s)"] Pair skipSpace_length [of "tl s"] by simp
  then show ?thesis using Pair skipSpace_length [of r] by (simp add: ext_value_def)
qed

lemma ext_param_shrinks:
  assumes "(k, s1) = nextToken (skipSpace (tl (skipSpace s0)))" "k \<noteq> []" "(v, s3) = ext_value (skipSpace s1)"
  shows "length s3 < length s0"
proof -
  have "length s1 < length (skipSpace (tl (skipSpace s0)))" by (rule nextToken_consumes [OF assms(1) [symmetric] assms(2)])
  moreover have "length s3 \<le> length (skipSpace s1)" using ext_value_length [of "skipSpace s1"] assms(3) by (metis snd_conv)
  ultimately show ?thesis
    using skipSpace_length [of s0] skipSpace_length [of s1] skipSpace_length [of "tl (skipSpace s0)"] by simp
qed

function ext_params :: "extension \<Rightarrow> string \<Rightarrow> (extension \<times> string) option" where
  "ext_params ext s0 =
    (let s = skipSpace s0 in
     if s = [] \<or> hd s \<noteq> CHR '';'' then Some (ext, s)
     else case nextToken (skipSpace (tl s)) of (k, s1) \<Rightarrow>
       if k = [] then None
       else case ext_value (skipSpace s1) of (v, s3) \<Rightarrow>
         if s3 \<noteq> [] \<and> hd s3 \<noteq> CHR '','' \<and> hd s3 \<noteq> CHR '';'' then None
         else ext_params (ext(k \<mapsto> v)) s3)"
  by pat_completeness auto

termination
  by (relation "measure (\<lambda>(e, s). length s)") (simp_all add: ext_param_shrinks)

declare ext_params.simps [simp del]

lemma ext_params_length: "ext_params ext s = Some (e, r) \<Longrightarrow> length r \<le> length s"
proof (induction ext s rule: ext_params.induct)
  case (1 ext s0)
  show ?case
  proof (cases "skipSpace s0 = [] \<or> hd (skipSpace s0) \<noteq> CHR '';''")
    case True
    then show ?thesis using 1(2) skipSpace_length [of s0] by (auto simp: ext_params.simps [of ext s0] Let_def)
  next
    case False
    obtain k s1 where k: "nextToken (skipSpace (tl (skipSpace s0))) = (k, s1)" by force
    obtain v s3 where v: "ext_value (skipSpace s1) = (v, s3)" by force
    have kn: "k \<noteq> []" and rec: "\<not> (s3 \<noteq> [] \<and> hd s3 \<noteq> CHR '','' \<and> hd s3 \<noteq> CHR '';'')" "ext_params (ext(k \<mapsto> v)) s3 = Some (e, r)"
      using 1(2) False k v by (auto simp: ext_params.simps [of ext s0] Let_def split: if_splits)
    have "length r \<le> length s3" by (rule 1(1) [OF refl False k [symmetric] kn v [symmetric] rec])
    then show ?thesis using ext_param_shrinks [OF k [symmetric] kn v [symmetric]] by simp
  qed
qed

function ext_loop :: "string \<Rightarrow> extension list" where
  "ext_loop s =
    (case nextToken (skipSpace s) of (t, s1) \<Rightarrow>
       if t = [] then []
       else (case ext_params ['''' \<mapsto> t] s1 of
         None \<Rightarrow> []
       | Some (ext, s2) \<Rightarrow>
           if s2 \<noteq> [] \<and> hd s2 \<noteq> CHR '','' then []
           else ext # (if s2 = [] then [] else ext_loop (tl s2))))"
  by pat_completeness auto
termination
proof (relation "measure length")
  fix s t s1 x ext s2
  assume a: "(t, s1) = nextToken (skipSpace s)" "t \<noteq> []" "ext_params ['''' \<mapsto> t] s1 = Some x" "(ext, s2) = x" "s2 \<noteq> []"
  have l: "length s1 < length (skipSpace s)" by (rule nextToken_consumes [OF a(1) [symmetric] a(2)])
  have "length s2 \<le> length s1" by (rule ext_params_length) (use a(3,4) in auto)
  with l skipSpace_length [of s] show "(tl s2, s) \<in> measure length" by simp
qed simp

declare ext_loop.simps [simp del]

definition parseExtensions :: "http_header \<Rightarrow> extension list" where
  "parseExtensions header = concat (map ext_loop (header ''Sec-Websocket-Extensions''))"



section \<open>What the tokenizers recognise\<close>

definition separators :: string where
  "separators = ''()<>@,;:'' @ [CHR 0x5C, CHR 0x22] @ ''/[]?={} '' @ [CHR 0x09]"

definition token :: "string \<Rightarrow> bool" where
  "token t \<longleftrightarrow> t \<noteq> [] \<and> list_all isTokenOctet t"

definition blank :: "string \<Rightarrow> bool" where
  "blank w \<longleftrightarrow> list_all (\<lambda>b. b = CHR '' '' \<or> b = CHR 0x09) w"

lemma not_octet [simp]:
  "\<not> isTokenOctet (CHR '' '')" "\<not> isTokenOctet (CHR 0x09)" "\<not> isTokenOctet (CHR '','')" "\<not> isTokenOctet (CHR '';'')"
  "\<not> isTokenOctet (CHR ''='')" "\<not> isTokenOctet (CHR 0x22)"
  by (simp_all add: isTokenOctet_def)

lemma skipSpace_blank: "blank w \<Longrightarrow> skipSpace (w @ r) = skipSpace r"
  by (induction w) (simp_all add: blank_def skipSpace_def)

lemma skipSpace_octet: "isTokenOctet b \<Longrightarrow> skipSpace (b # r) = b # r"
  by (auto simp: skipSpace_def isTokenOctet_def)

lemma skipSpace_token: "token t \<Longrightarrow> skipSpace (t @ r) = t @ r"
  by (cases t) (simp_all add: token_def skipSpace_octet)

lemma skipSpace_stop: "b \<noteq> CHR '' '' \<Longrightarrow> b \<noteq> CHR 0x09 \<Longrightarrow> skipSpace (b # r) = b # r"
  by (simp add: skipSpace_def)

lemma skipSpace_Nil [simp]: "skipSpace [] = []"
  by (simp add: skipSpace_def)

lemma nextToken_token: "token t \<Longrightarrow> r = [] \<or> \<not> isTokenOctet (hd r) \<Longrightarrow> nextToken (t @ r) = (t, r)"
  by (cases r) (auto simp: nextToken_def token_def list_all_iff)

lemma next_after_blank: "blank w \<Longrightarrow> token t \<Longrightarrow> r = [] \<or> \<not> isTokenOctet (hd r) \<Longrightarrow> nextToken (skipSpace (w @ t @ r)) = (t, r)"
  by (simp add: skipSpace_blank skipSpace_token nextToken_token)

text \<open>The rune of a byte string is an ASCII rune only when its first byte is, so folding compares ASCII bytes.\<close>

lemma DecodeRune_ascii: "of_char c < (128 :: nat) \<Longrightarrow> DecodeRune (c # s) = (of_char c, 1)"
  by (simp add: DecodeRune_def Let_def)

lemma DecodeRune_high: "128 \<le> (of_char c :: nat) \<Longrightarrow> DecodeRune (c # s) = (r, n) \<Longrightarrow> 128 \<le> r"
  by (auto simp: DecodeRune_def Let_def split: if_splits)

definition lower :: "char \<Rightarrow> nat" where
  "lower c = lower_rune (of_char c)"

lemma lower_high: "128 \<le> r \<Longrightarrow> lower_rune r = r" and lower_low: "r < 128 \<Longrightarrow> lower_rune r < 128"
  by (simp_all add: lower_rune_def)

lemma equalASCIIFold_ascii:
  "list_all (\<lambda>c. of_char c < (128 :: nat)) t \<Longrightarrow> equalASCIIFold s t \<longleftrightarrow> map lower s = map lower t"
proof (induction t arbitrary: s)
  case Nil
  then show ?case by (simp add: equalASCIIFold.simps)
next
  case (Cons d t)
  show ?case
  proof (cases s)
    case Nil
    then show ?thesis by (simp add: equalASCIIFold.simps)
  next
    case (Cons c s')
    have d: "DecodeRune (d # t) = (of_char d, 1)" "(of_char d :: nat) < 128" using Cons.prems by (simp_all add: DecodeRune_ascii)
    show ?thesis
    proof (cases "of_char c < (128 :: nat)")
      case True
      then show ?thesis using Cons.IH [of s'] Cons.prems d
        by (auto simp: Cons equalASCIIFold.simps [of "c # s'"] DecodeRune_ascii lower_def)
    next
      case False
      obtain r n where rn: "DecodeRune (c # s') = (r, n)" by force
      then have "128 \<le> r" using False DecodeRune_high [of c s' r n] by simp
      then show ?thesis using d rn False lower_low [OF d(2)]
        by (auto simp: Cons equalASCIIFold.simps [of "c # s'"] lower_def lower_high)
    qed
  qed
qed

text \<open>An octet is in the token table exactly when it is a token character of RFC 2616: a visible ASCII character that is not a
  separator.\<close>

theorem token_octets_rfc2616:
  "isTokenOctet b \<longleftrightarrow> 32 < (of_char b :: nat) \<and> (of_char b :: nat) < 127 \<and> b \<notin> set separators"
proof -
  have "\<forall>b. isTokenOctet b \<longleftrightarrow> 32 < (of_char b :: nat) \<and> (of_char b :: nat) < 127 \<and> b \<notin> set separators" by code_simp
  then show ?thesis by blast
qed

text \<open>A header value that lists tokens separated by commas, with any blanks around them.\<close>

fun comma_list :: "(string \<times> string \<times> string) list \<Rightarrow> string" where
  "comma_list [] = []"
| "comma_list [(w, t, w')] = w @ t @ w'"
| "comma_list ((w, t, w') # y # ys) = w @ t @ w' @ CHR '','' # comma_list (y # ys)"

definition item_ok :: "string \<times> string \<times> string \<Rightarrow> bool" where
  "item_ok x \<longleftrightarrow> (case x of (w, t, w') \<Rightarrow> blank w \<and> token t \<and> blank w')"

lemma blank_stop: "blank w \<Longrightarrow> r = [] \<or> \<not> isTokenOctet (hd r) \<Longrightarrow> w @ r = [] \<or> \<not> isTokenOctet (hd (w @ r))"
  by (cases w) (auto simp: blank_def)

lemma token_loop_item:
  assumes "blank w" "token t" "blank w'" "r = [] \<or> hd r = CHR '',''"
  shows "token_loop v (w @ t @ w' @ r) \<longleftrightarrow> equalASCIIFold t v \<or> (r \<noteq> [] \<and> token_loop v (tl r))"
proof -
  have "r = [] \<or> \<not> isTokenOctet (hd r)" using assms(4) by auto
  then have n: "nextToken (skipSpace (w @ t @ w' @ r)) = (t, w' @ r)" by (intro next_after_blank assms blank_stop)
  have "skipSpace (w' @ r) = r" using assms(3,4) using skipSpace_blank [of w' r] by (cases r) (simp_all add: skipSpace_stop)
  then show ?thesis using assms(2,4) n by (auto simp: token_loop.simps [of v "w @ t @ w' @ r"] token_def)
qed

lemma token_loop_comma_list:
  "list_all item_ok items \<Longrightarrow> items \<noteq> [] \<Longrightarrow> token_loop v (comma_list items) \<longleftrightarrow> (\<exists>(w, t, w') \<in> set items. equalASCIIFold t v)"
proof (induction items rule: comma_list.induct)
  case (2 w t w')
  then show ?case using token_loop_item [of w t w' "[]" v] by (simp add: item_ok_def)
next
  case (3 w t w' y ys)
  then show ?case using token_loop_item [of w t w' "CHR '','' # comma_list (y # ys)" v] by (simp add: item_ok_def)
qed simp

lemma token_list_spec:
  assumes "header name = map comma_list lsts" "list_all (\<lambda>l. l \<noteq> [] \<and> list_all item_ok l) lsts"
    and "list_all (\<lambda>c. of_char c < (128 :: nat)) v"
  shows "tokenListContainsValue header name v
    \<longleftrightarrow> (\<exists>l \<in> set lsts. \<exists>t \<in> set (map (fst \<circ> snd) l). map lower t = map lower v)"
proof -
  have "token_loop v (comma_list l) \<longleftrightarrow> (\<exists>t \<in> set (map (fst \<circ> snd) l). map lower t = map lower v)" if "l \<in> set lsts" for l
  proof -
    have "l \<noteq> []" "list_all item_ok l" using assms(2) that by (auto simp: list_all_iff)
    then show ?thesis by (force simp: token_loop_comma_list equalASCIIFold_ascii [OF assms(3)])
  qed
  then show ?thesis by (simp add: tokenListContainsValue_def assms(1) list_ex_iff)
qed





section \<open>Printing and parsing extension lists\<close>

definition quote :: "string \<Rightarrow> string" where
  "quote v = CHR 0x22 # concat (map (\<lambda>b. if b = CHR 0x22 \<or> b = CHR 0x5C then [CHR 0x5C, b] else [b]) v) @ [CHR 0x22]"

lemma quoted_escaped_quote:
  "quoted_escaped p False (concat (map (\<lambda>b. if b = CHR 0x22 \<or> b = CHR 0x5C then [CHR 0x5C, b] else [b]) v) @ CHR 0x22 # r) = (p @ v, r)"
  by (induction v arbitrary: p) auto

lemma quoted_plain_quote:
  "quoted_plain p (concat (map (\<lambda>b. if b = CHR 0x22 \<or> b = CHR 0x5C then [CHR 0x5C, b] else [b]) v) @ CHR 0x22 # r) = (p @ v, r)"
  by (induction v arbitrary: p) (auto simp: quoted_escaped_quote)

lemma nextTokenOrQuoted_quote: "nextTokenOrQuoted (quote v @ r) = (v, r)"
  using quoted_plain_quote [of "[]" v r] by (simp add: nextTokenOrQuoted_def quote_def)

text \<open>An extension is its name and its parameters; a parameter with no value is printed as its key alone.\<close>

fun print_params :: "(string \<times> string) list \<Rightarrow> string" where
  "print_params [] = []"
| "print_params ((k, v) # ps) = ''; '' @ k @ (if v = [] then [] else CHR ''='' # quote v) @ print_params ps"

fun print_exts :: "(string \<times> (string \<times> string) list) list \<Rightarrow> string" where
  "print_exts [] = []"
| "print_exts [(t, ps)] = t @ print_params ps"
| "print_exts ((t, ps) # e # es) = t @ print_params ps @ '', '' @ print_exts (e # es)"

definition ext_ok :: "string \<times> (string \<times> string) list \<Rightarrow> bool" where
  "ext_ok e \<longleftrightarrow> token (fst e) \<and> list_all (\<lambda>p. token (fst p)) (snd e)"

definition ext_map :: "string \<times> (string \<times> string) list \<Rightarrow> extension" where
  "ext_map e = map_of (rev ((''''  , fst e) # snd e))"

definition ends :: "string \<Rightarrow> bool" where
  "ends r \<longleftrightarrow> r = [] \<or> hd r = CHR '',''"

lemma params_stop: "ends r \<Longrightarrow> print_params ps @ r = [] \<or> hd (print_params ps @ r) = CHR '','' \<or> hd (print_params ps @ r) = CHR '';''"
  by (cases ps) (auto simp: ends_def)

lemma params_skip: "ends r \<Longrightarrow> skipSpace (print_params ps @ r) = print_params ps @ r"
  using params_stop [of r ps] by (cases "print_params ps @ r") (auto simp: skipSpace_stop)

lemma ext_value_print:
  assumes "ends r"
  shows "ext_value ((if v = [] then [] else CHR ''='' # quote v) @ print_params ps @ r) = (v, print_params ps @ r)"
proof (cases "v = []")
  case True
  then show ?thesis using params_stop [OF assms, of ps] by (auto simp: ext_value_def)
next
  case False
  have "skipSpace (quote v @ print_params ps @ r) = quote v @ print_params ps @ r" by (simp add: quote_def skipSpace_stop)
  with False show ?thesis by (simp add: ext_value_def nextTokenOrQuoted_quote params_skip [OF assms])
qed

lemma ext_params_print:
  "list_all (\<lambda>p. token (fst p)) ps \<Longrightarrow> ends r \<Longrightarrow> ext_params ext (print_params ps @ r) = Some (ext ++ map_of (rev ps), r)"
proof (induction ps arbitrary: ext)
  case Nil
  then show ?case using params_skip [of r "[]"] by (auto simp: ext_params.simps ends_def)
next
  case (Cons p ps)
  obtain k v where p: "p = (k, v)" by force
  define rest where rest: "rest = (if v = [] then [] else CHR ''='' # quote v) @ print_params ps @ r"
  have k: "token k" using Cons.prems p by simp
  have stop: "rest = [] \<or> \<not> isTokenOctet (hd rest)" using params_stop [OF Cons.prems(2), of ps] by (auto simp: rest)
  have n: "nextToken (skipSpace ('' '' @ k @ rest)) = (k, rest)" by (rule next_after_blank) (use k stop in \<open>simp_all add: blank_def\<close>)
  have sk: "skipSpace rest = rest" using params_skip [OF Cons.prems(2), of ps] by (auto simp: rest skipSpace_stop)
  have whole: "print_params (p # ps) @ r = CHR '';'' # '' '' @ k @ rest" by (simp add: p rest)
  have ev: "ext_value rest = (v, print_params ps @ r)" unfolding rest by (rule ext_value_print [OF Cons.prems(2)])
  have "ext_params ext (print_params (p # ps) @ r) = ext_params (ext(k \<mapsto> v)) (print_params ps @ r)"
    unfolding whole ext_params.simps [of ext "CHR '';'' # '' '' @ k @ rest"]
    using n sk k ev params_stop [OF Cons.prems(2), of ps] by (auto simp: skipSpace_stop token_def Let_def)
  also have "\<dots> = Some (ext(k \<mapsto> v) ++ map_of (rev ps), r)" using Cons by simp
  finally show ?case by (simp add: p)
qed

lemma ext_loop_item:
  assumes "blank w" "ext_ok (t, ps)" "ends r"
  shows "ext_loop (w @ t @ print_params ps @ r) = ext_map (t, ps) # (if r = [] then [] else ext_loop (tl r))"
proof -
  have t: "token t" and ps: "list_all (\<lambda>p. token (fst p)) ps" using assms(2) by (simp_all add: ext_ok_def)
  have n: "nextToken (skipSpace (w @ t @ print_params ps @ r)) = (t, print_params ps @ r)"
    by (rule next_after_blank) (use assms(1) t params_stop [OF assms(3), of ps] in auto)
  show ?thesis
    using n t assms(3) by (auto simp: ext_loop.simps [of "w @ t @ print_params ps @ r"] ext_params_print [OF ps assms(3)] token_def ends_def ext_map_def)
qed

lemma ext_loop_print: "list_all ext_ok es \<Longrightarrow> es \<noteq> [] \<Longrightarrow> blank w \<Longrightarrow> ext_loop (w @ print_exts es) = map ext_map es"
proof (induction es arbitrary: w rule: print_exts.induct)
  case (2 t ps)
  then show ?case using ext_loop_item [of w t ps "[]"] by (simp add: ends_def)
next
  case (3 t ps e es)
  have "ext_loop ('' '' @ print_exts (e # es)) = map ext_map (e # es)" by (rule 3(1)) (use 3(2) in \<open>simp_all add: blank_def\<close>)
  then show ?case using ext_loop_item [of w t ps "CHR '','' # '' '' @ print_exts (e # es)"] 3(2,4) by (simp add: ends_def)
qed simp

text \<open>C33: parsing reads back what a peer prints: for every list of extensions with token names and keys, and parameter values that
  are any strings (quoted, with quotes and backslashes escaped), \<open>parseExtensions\<close> returns one map per extension, with the
  extension's name under the empty key and the last value of each parameter.\<close>

theorem extensions_roundtrip:
  assumes "header ''Sec-Websocket-Extensions'' = [print_exts es]" "list_all ext_ok es" "es \<noteq> []"
  shows "parseExtensions header = map ext_map es"
  using ext_loop_print [OF assms(2,3), of "[]"] by (simp add: parseExtensions_def assms(1) blank_def)

theorem extensions_roundtrip_witness:
  "parseExtensions (\<lambda>n. if n = ''Sec-Websocket-Extensions'' then [print_exts [(''permessage-deflate'', [(''m'', ''1 0'')]), (''x'', [])]] else [])
    = [['''' \<mapsto> ''permessage-deflate'', ''m'' \<mapsto> ''1 0''], ['''' \<mapsto> ''x'']]"
  using extensions_roundtrip [where es = "[(''permessage-deflate'', [(''m'', ''1 0'')]), (''x'', [])]" and
      header = "\<lambda>n. if n = ''Sec-Websocket-Extensions'' then [print_exts [(''permessage-deflate'', [(''m'', ''1 0'')]), (''x'', [])]] else []"]
  by (simp add: ext_ok_def token_def isTokenOctet_def ext_map_def)

end
