(* ===== verification/Ws_Frame.thy ===== *)
theory Ws_Frame
  imports Prelude
begin

text \<open>
  The WebSocket frame codec of \<open>src/wsg/ws_util.go\<close>: frame headers, masking, close payloads and the two
  error replies. Readers and writers over a byte sequence are byte lists; \<open>[]byte\<close> in network order is
  written with \<open>put_be\<close> and read with \<open>get_be\<close>.
\<close>

unbundle bit_operations_syntax

section \<open>Errors and heads\<close>

datatype io_err = EOF | ErrUnexpectedEOF | ErrShortBuffer | IoOther string

datatype ws_err =
    errInvalidControlFrame | errHandshakeDataTooLarge | errHandshakeSendFrameData
  | errHeaderLengthUnexpected | errHeaderLengthMSB | errNotSupportTextData | errPayloadTooLarge | errClientClosed
  | errMustMasked | errCloseReasonTooLong | errIO io_err

definition MaxWsHeaderSize :: nat where "MaxWsHeaderSize = 14"

definition OpContinuation :: byte where "OpContinuation = 0x0"
definition OpText :: byte where "OpText = 0x1"
definition OpBinary :: byte where "OpBinary = 0x2"
definition OpClose :: byte where "OpClose = 0x8"
definition OpPing :: byte where "OpPing = 0x9"
definition OpPong :: byte where "OpPong = 0xa"

record WsHead =
  wh_Fin :: bool
  wh_Rsv :: byte
  wh_OpCode :: byte
  wh_Masked :: bool
  wh_Length :: int
  wh_Mask :: bytes

definition zeroHead :: WsHead where
  "zeroHead = \<lparr>wh_Fin = False, wh_Rsv = 0, wh_OpCode = 0, wh_Masked = False, wh_Length = 0, wh_Mask = [0, 0, 0, 0]\<rparr>"

text \<open>\<open>WsHeadPool.Put\<close> clears every field before the head goes back to the pool, so \<open>Get\<close> hands out a zero head.\<close>

definition WsHeadPool_Put :: "WsHead \<Rightarrow> WsHead" where
  "WsHeadPool_Put h = h\<lparr>wh_Fin := False, wh_Rsv := 0, wh_OpCode := 0, wh_Masked := False, wh_Length := 0, wh_Mask := replicate (length (wh_Mask h)) 0\<rparr>"


section \<open>Numbers in network order\<close>

fun put_be :: "nat \<Rightarrow> nat \<Rightarrow> bytes" where
  "put_be 0 n = []"
| "put_be (Suc k) n = put_be k (n div 256) @ [word_of_nat (n mod 256)]"

definition get_be :: "bytes \<Rightarrow> nat" where
  "get_be bs = foldl (\<lambda>a b. a * 256 + unat b) 0 bs"

lemma put_be_length [simp]: "length (put_be k n) = k"
  by (induction k arbitrary: n) auto

lemma get_put_be [simp]: "n < 256 ^ k \<Longrightarrow> get_be (put_be k n) = n"
proof (induction k arbitrary: n)
  case (Suc k)
  have "n div 256 < 256 ^ k" using Suc.prems by (simp add: div_less_iff_less_mult mult.commute)
  moreover have "unat (word_of_nat (n mod 256) :: byte) = n mod 256" by (simp add: unat_of_nat)
  ultimately show ?case using Suc.IH [of "n div 256"] by (simp add: get_be_def)
qed (simp add: get_be_def)


section \<open>Headers\<close>

text \<open>\<open>io.ReadFull\<close>: all of the \<open>n\<close> bytes, or an error.\<close>

definition ReadFull :: "nat \<Rightarrow> bytes \<Rightarrow> (io_err + bytes) \<times> bytes" where
  "ReadFull n r =
    (if n \<le> length r then (Inr (take n r), drop n r)
     else (Inl (if r = [] then EOF else ErrUnexpectedEOF), []))"

text \<open>The fields that the first two bytes of a header determine, and the number of bytes that follow them.\<close>

definition head_fields :: "byte \<Rightarrow> byte \<Rightarrow> WsHead" where
  "head_fields b0 b1 = zeroHead\<lparr>wh_Fin := b0 AND 0x80 \<noteq> 0, wh_Rsv := drop_bit 4 (b0 AND 0x70), wh_OpCode := b0 AND 0x0f,
     wh_Masked := b1 AND 0x80 \<noteq> 0, wh_Length := (if unat (b1 AND 0x7f) < 126 then int (unat (b1 AND 0x7f)) else 0)\<rparr>"

definition head_extra :: "byte \<Rightarrow> nat" where
  "head_extra b1 = (if b1 AND 0x80 \<noteq> 0 then 4 else 0)
     + (let l = unat (b1 AND 0x7f) in if l < 126 then 0 else if l = 126 then 2 else 8)"

text \<open>The rest of a header: the extended length and the mask.\<close>

definition head_rest :: "byte \<Rightarrow> WsHead \<Rightarrow> bytes \<Rightarrow> ws_err + WsHead" where
  "head_rest b1 h bts =
    (let l = unat (b1 AND 0x7f) in
     if l = 127 \<and> bts ! 0 AND 0x80 \<noteq> 0 then Inl errHeaderLengthMSB
     else let (h1, bts1) = (if l = 126 then (h\<lparr>wh_Length := int (get_be (take 2 bts))\<rparr>, drop 2 bts)
                            else if l = 127 then (h\<lparr>wh_Length := int (get_be (take 8 bts))\<rparr>, drop 8 bts)
                            else (h, bts))
          in Inr (if wh_Masked h1 then h1\<lparr>wh_Mask := go_copy (wh_Mask h1) 0 bts1\<rparr> else h1))"

definition ReadWsHeader :: "bytes \<Rightarrow> (ws_err + WsHead) \<times> bytes" where
  "ReadWsHeader r =
    (case ReadFull 2 r of
       (Inl e, r1) \<Rightarrow> (Inl (errIO e), r1)
     | (Inr bts, r1) \<Rightarrow>
         let h = head_fields (bts ! 0) (bts ! 1); extra = head_extra (bts ! 1)
         in if extra = 0 then (Inr h, r1)
            else (case ReadFull extra r1 of
                    (Inl e, r2) \<Rightarrow> (Inl (errIO e), r2)
                  | (Inr bts2, r2) \<Rightarrow> (head_rest (bts ! 1) h bts2, r2)))"

definition MaskWsPayload :: "bytes \<Rightarrow> bytes \<Rightarrow> bytes" where
  "MaskWsPayload key payload = map (\<lambda>i. payload ! i XOR key ! (i AND 3)) [0 ..< length payload]"

definition MakeWsHeadBuff :: "WsHead \<Rightarrow> ws_err + bytes" where
  "MakeWsHeadBuff h =
    (let b0 = (if wh_Fin h then 0x80 else 0) OR push_bit 4 (wh_Rsv h) OR wh_OpCode h;
         mbit = (if wh_Masked h then 0x80 else 0);
         key = (if wh_Masked h then wh_Mask h else [])
     in if wh_Length h \<le> 125 then Inr ([b0, word_of_int (wh_Length h) OR mbit] @ key)
        else if wh_Length h \<le> 2 ^ 16 - 1 then Inr ([b0, 126 OR mbit] @ put_be 2 (nat (wh_Length h)) @ key)
        else if wh_Length h \<le> 2 ^ 63 - 1 then Inr ([b0, 127 OR mbit] @ put_be 8 (nat (wh_Length h)) @ key)
        else Inl errHeaderLengthUnexpected)"


section \<open>Close frames and replies\<close>

text \<open>\<open>p\<close> is made with its final length and the reason then appended to it.\<close>

definition MakeWsClosePayload :: "u16 \<Rightarrow> bytes \<Rightarrow> ws_err + bytes" where
  "MakeWsClosePayload statusCode reason =
    (if length reason > 123 then Inl errCloseReasonTooLong
     else let p = put_be 2 (unat statusCode) @ replicate (length reason) 0 in Inr (p @ reason))"

text \<open>The bytes that \<open>ReplyWsError\<close> writes; a payload that could not be made is nil.\<close>

definition ReplyWsError :: "u16 \<Rightarrow> bytes \<Rightarrow> bytes list" where
  "ReplyWsError statusCode reasonDesc =
    (let wsh = zeroHead\<lparr>wh_Fin := True, wh_OpCode := OpClose, wh_Length := int (2 + length reasonDesc)\<rparr>
     in [case MakeWsHeadBuff wsh of Inr b \<Rightarrow> b | Inl _ \<Rightarrow> [], case MakeWsClosePayload statusCode reasonDesc of Inr p \<Rightarrow> p | Inl _ \<Rightarrow> []])"

definition IsControlOp :: "byte \<Rightarrow> bool" where
  "IsControlOp p = (p AND 0x8 \<noteq> 0)"


section \<open>Reading back what was written\<close>

definition head_ok :: "WsHead \<Rightarrow> bool" where
  "head_ok h \<longleftrightarrow> wh_Rsv h < 8 \<and> wh_OpCode h < 16 \<and> 0 \<le> wh_Length h \<and> wh_Length h < 2 ^ 63 \<and> length (wh_Mask h) = 4
     \<and> (\<not> wh_Masked h \<longrightarrow> wh_Mask h = [0, 0, 0, 0])"

lemma word_small_cases:
  assumes "x < word_of_nat n" and "n < 256"
  shows "\<exists>k < n. (x :: byte) = word_of_nat k"
proof -
  have "unat x < n" using assms by (simp add: word_less_nat_alt unat_of_nat)
  moreover have "x = word_of_nat (unat x)" by simp
  ultimately show ?thesis by blast
qed

text \<open>The first byte and the second one, case by case.\<close>

lemma first_byte_all:
  "\<forall>f \<in> {0, 0x80}. \<forall>r \<in> set (map word_of_nat [0 ..< 8]). \<forall>c \<in> set (map word_of_nat [0 ..< 16]).
     let b = f OR push_bit 4 r OR (c :: byte) in (b AND 0x80 = f) \<and> drop_bit 4 (b AND 0x70) = r \<and> b AND 0x0f = c"
  by code_simp

lemma first_byte:
  assumes "r < 8" and "c < 16" and "f = 0 \<or> f = 0x80" and "b = f OR push_bit 4 r OR (c :: byte)"
  shows "b AND 0x80 = f" and "drop_bit 4 (b AND 0x70) = r" and "b AND 0x0f = c"
proof -
  have "r \<in> set (map word_of_nat [0 ..< 8])" "c \<in> set (map word_of_nat [0 ..< 16])"
    using word_small_cases [of r 8] word_small_cases [of c 16] assms(1,2) by auto
  then show "b AND 0x80 = f" "drop_bit 4 (b AND 0x70) = r" "b AND 0x0f = c"
    using first_byte_all assms(3,4) by (auto simp: Let_def)
qed

lemma second_byte_all:
  "\<forall>l \<in> set (map word_of_nat [0 ..< 128]). \<forall>m \<in> {0, 0x80}. let b = l OR m in (b AND 0x80 = m) \<and> b AND 0x7f = (l :: byte)"
  by code_simp

lemma second_byte:
  assumes "k < 128" and "m = 0 \<or> m = 0x80" and "b = word_of_nat k OR (m :: byte)"
  shows "b AND 0x80 = m" and "unat (b AND 0x7f) = k"
proof -
  have "word_of_nat k \<in> set (map (word_of_nat :: nat \<Rightarrow> byte) [0 ..< 128])" using assms(1) by auto
  then have "b AND 0x80 = m" "b AND 0x7f = word_of_nat k" using second_byte_all assms(2,3) by (auto simp: Let_def)
  then show "b AND 0x80 = m" "unat (b AND 0x7f) = k" using assms(1) by (simp_all add: unat_of_nat)
qed


lemma head_fields_eq:
  assumes h: "head_ok h" and k: "k < 128"
    and b0: "b0 = (if wh_Fin h then 0x80 else 0) OR push_bit 4 (wh_Rsv h) OR wh_OpCode h"
    and b1: "b1 = word_of_nat k OR (if wh_Masked h then 0x80 else 0)"
  shows "head_fields b0 b1 = h\<lparr>wh_Length := (if k < 126 then int k else 0), wh_Mask := [0, 0, 0, 0]\<rparr>"
    and "head_extra b1 = (if wh_Masked h then 4 else 0) + (if k < 126 then 0 else if k = 126 then 2 else 8)"
    and "unat (b1 AND 0x7f) = k"
proof -
  have f: "b0 AND 0x80 = (if wh_Fin h then 0x80 else 0)" "drop_bit 4 (b0 AND 0x70) = wh_Rsv h" "b0 AND 0x0f = wh_OpCode h"
    using first_byte [of "wh_Rsv h" "wh_OpCode h" "if wh_Fin h then 0x80 else 0" b0] h b0 by (auto simp: head_ok_def)
  have s: "b1 AND 0x80 = (if wh_Masked h then 0x80 else 0)" "unat (b1 AND 0x7f) = k"
    using second_byte [OF k _ b1] by auto
  show "head_fields b0 b1 = h\<lparr>wh_Length := (if k < 126 then int k else 0), wh_Mask := [0, 0, 0, 0]\<rparr>"
    using f s by (cases h) (simp add: head_fields_def zeroHead_def)
  show "head_extra b1 = (if wh_Masked h then 4 else 0) + (if k < 126 then 0 else if k = 126 then 2 else 8)"
    unfolding head_extra_def Let_def s by simp
  show "unat (b1 AND 0x7f) = k" by (rule s(2))
qed

lemma go_copy_4: "length a = 4 \<Longrightarrow> length b = 4 \<Longrightarrow> go_copy a 0 b = b"
  by (simp add: go_copy_def)

text \<open>The first byte of a length below \<open>2 ^ 63\<close> has its top bit clear.\<close>

lemma put_be_hd: "put_be (Suc k) n ! 0 = word_of_nat ((n div 256 ^ k) mod 256)"
proof (induction k arbitrary: n)
  case (Suc k)
  have "put_be (Suc (Suc k)) n ! 0 = put_be (Suc k) (n div 256) ! 0" by (simp add: nth_append)
  then show ?case using Suc.IH [of "n div 256"] by (simp add: div_mult2_eq)
qed simp

lemma put_be_8_top:
  assumes "n < 2 ^ 63"
  shows "put_be 8 n ! 0 AND 0x80 = 0"
proof -
  have k: "n div 256 ^ 7 < 128" using assms by (simp add: div_less_iff_less_mult)
  have e: "(8 :: nat) = Suc 7" by simp
  have "put_be 8 n ! 0 = word_of_nat (n div 256 ^ 7) OR 0" unfolding e put_be_hd using k by simp
  from second_byte(1) [OF k _ this] show ?thesis by simp
qed

text \<open>The three layouts of a header: \<open>k\<close> is the value of the 7-bit length field.\<close>

definition len_field :: "int \<Rightarrow> nat" where
  "len_field l = (if l \<le> 125 then nat l else if l \<le> 65535 then 126 else 127)"

definition len_ext :: "int \<Rightarrow> bytes" where
  "len_ext l = (if l \<le> 125 then [] else if l \<le> 65535 then put_be 2 (nat l) else put_be 8 (nat l))"

definition b0_of :: "WsHead \<Rightarrow> byte" where
  "b0_of h = (if wh_Fin h then 0x80 else 0) OR push_bit 4 (wh_Rsv h) OR wh_OpCode h"

definition b1_of :: "WsHead \<Rightarrow> byte" where
  "b1_of h = word_of_nat (len_field (wh_Length h)) OR (if wh_Masked h then 0x80 else 0)"

definition head_tail :: "WsHead \<Rightarrow> bytes" where
  "head_tail h = len_ext (wh_Length h) @ (if wh_Masked h then wh_Mask h else [])"

lemma MakeWsHeadBuff_eq:
  assumes "head_ok h"
  shows "MakeWsHeadBuff h = Inr ([b0_of h, b1_of h] @ head_tail h)"
proof -
  have "word_of_int (wh_Length h) = (word_of_nat (nat (wh_Length h)) :: byte)" using assms by (simp add: head_ok_def)
  then show ?thesis
    using assms by (auto simp: MakeWsHeadBuff_def Let_def b0_of_def b1_of_def head_tail_def len_field_def len_ext_def head_ok_def)
qed

lemma head_parts:
  assumes h: "head_ok h"
  shows "head_extra (b1_of h) = length (head_tail h)"
    and "head_extra (b1_of h) = 0 \<longrightarrow> head_fields (b0_of h) (b1_of h) = h"
    and "head_rest (b1_of h) (head_fields (b0_of h) (b1_of h)) (head_tail h) = Inr h"
proof -
  let ?k = "len_field (wh_Length h)" and ?l = "wh_Length h"
  have l: "0 \<le> ?l" "?l < 2 ^ 63" "length (wh_Mask h) = 4" "\<not> wh_Masked h \<longrightarrow> wh_Mask h = [0, 0, 0, 0]" using h by (auto simp: head_ok_def)
  have k: "?k < 128" using l(1) by (auto simp: len_field_def)
  note e = head_fields_eq [OF h k b0_of_def b1_of_def]
  have lx: "length (len_ext ?l) = (if ?k < 126 then 0 else if ?k = 126 then 2 else 8)"
    using l by (auto simp: len_ext_def len_field_def)
  show x: "head_extra (b1_of h) = length (head_tail h)" unfolding e(2) head_tail_def using l(3) lx by simp
  show "head_extra (b1_of h) = 0 \<longrightarrow> head_fields (b0_of h) (b1_of h) = h"
  proof
    assume "head_extra (b1_of h) = 0"
    then have "\<not> wh_Masked h" "?k < 126" unfolding e(2) by (auto split: if_splits)
    then show "head_fields (b0_of h) (b1_of h) = h" unfolding e(1) using l by (auto simp: len_field_def split: if_splits)
  qed
  show "head_rest (b1_of h) (head_fields (b0_of h) (b1_of h)) (head_tail h) = Inr h"
  proof (cases "?l \<le> 125")
    case True
    then show ?thesis unfolding head_rest_def e Let_def using l
      by (auto simp: len_field_def len_ext_def head_tail_def go_copy_4)
  next
    case a: False
    show ?thesis
    proof (cases "?l \<le> 65535")
      case True
      then have "nat ?l < 256 ^ 2" by simp
      then show ?thesis unfolding head_rest_def e Let_def using a True l
        by (auto simp: len_field_def len_ext_def head_tail_def go_copy_4)
    next
      case False
      then have "nat ?l < 256 ^ 8" "nat ?l < 2 ^ 63" using l by simp_all
      then show ?thesis unfolding head_rest_def e Let_def using a False l put_be_8_top [of "nat ?l"]
        by (auto simp: len_field_def len_ext_def head_tail_def go_copy_4 nth_append)
    qed
  qed
qed


section \<open>Properties\<close>

text \<open>C31: reading a header inverts writing it. For every head whose fields fit their bits, of any length below
  \<open>2 ^ 63\<close>, masked or not, the header that \<open>MakeWsHeadBuff\<close> writes has 2 to 14 bytes, and \<open>ReadWsHeader\<close> reads exactly these
  bytes and returns that head; masking a payload twice gives it back.\<close>

theorem ws_head_roundtrip:
  assumes h: "head_ok h" and m: "length key = 4"
  shows "\<exists>bts. MakeWsHeadBuff h = Inr bts \<and> 2 \<le> length bts \<and> length bts \<le> MaxWsHeaderSize \<and> ReadWsHeader (bts @ r) = (Inr h, r)
    \<and> MaskWsPayload key (MaskWsPayload key payload) = payload"
proof (intro exI conjI)
  show "MakeWsHeadBuff h = Inr ([b0_of h, b1_of h] @ head_tail h)" by (rule MakeWsHeadBuff_eq [OF h])
  show "2 \<le> length ([b0_of h, b1_of h] @ head_tail h)" by simp
  show "length ([b0_of h, b1_of h] @ head_tail h) \<le> MaxWsHeaderSize"
    using h by (auto simp: head_tail_def len_ext_def head_ok_def MaxWsHeaderSize_def)
  show "ReadWsHeader (([b0_of h, b1_of h] @ head_tail h) @ r) = (Inr h, r)"
    using head_parts [OF h] by (auto simp: ReadWsHeader_def ReadFull_def Let_def)
  have "(payload ! i XOR key ! (i AND 3)) XOR key ! (i AND 3) = payload ! i" for i by (simp add: xor.assoc)
  then show "MaskWsPayload key (MaskWsPayload key payload) = payload"
    by (intro nth_equalityI) (simp_all add: MaskWsPayload_def)
qed

theorem ws_head_roundtrip_witness:
  "\<exists>bts. MakeWsHeadBuff \<lparr>wh_Fin = True, wh_Rsv = 0, wh_OpCode = OpBinary, wh_Masked = True, wh_Length = 70000, wh_Mask = [1, 2, 3, 4]\<rparr> = Inr bts
     \<and> fst (ReadWsHeader bts) = Inr \<lparr>wh_Fin = True, wh_Rsv = 0, wh_OpCode = OpBinary, wh_Masked = True, wh_Length = 70000, wh_Mask = [1, 2, 3, 4]\<rparr>"
  using ws_head_roundtrip [of "\<lparr>wh_Fin = True, wh_Rsv = 0, wh_OpCode = OpBinary, wh_Masked = True, wh_Length = 70000, wh_Mask = [1, 2, 3, 4]\<rparr>" "[1, 2, 3, 4]" "[]" "[]"]
  by (auto simp: head_ok_def OpBinary_def)

text \<open>C36: an error reply with a reason is not a WebSocket frame. Its header announces two bytes for the status
  and the reason, but the payload that follows has zeros in place of the reason and then the reason
  again, beyond the end of the frame: a client reads a reason of zeros and takes the text for
  further frames.\<close>

theorem close_reply_overruns:
  assumes "reason \<noteq> []" and "length reason \<le> 123"
  shows "\<exists>h p. ReplyWsError code reason = [h, p] \<and> fst (ReadWsHeader h) = Inr (zeroHead\<lparr>wh_Fin := True, wh_OpCode := OpClose, wh_Length := int (2 + length reason)\<rparr>)
    \<and> take (2 + length reason) p = put_be 2 (unat code) @ replicate (length reason) 0 \<and> drop (2 + length reason) p = reason"
proof -
  let ?h = "zeroHead\<lparr>wh_Fin := True, wh_OpCode := OpClose, wh_Length := int (2 + length reason)\<rparr>"
  have ok: "head_ok ?h" using assms(2) by (simp add: head_ok_def zeroHead_def OpClose_def)
  let ?b = "[b0_of ?h, b1_of ?h] @ head_tail ?h"
  have "ReadWsHeader (?b @ []) = (Inr ?h, [])"
    using head_parts [OF ok] by (auto simp: ReadWsHeader_def ReadFull_def Let_def)
  then show ?thesis
    using assms(2) MakeWsHeadBuff_eq [OF ok]
    by - (rule exI [of _ ?b], rule exI [of _ "put_be 2 (unat code) @ replicate (length reason) 0 @ reason"],
        simp add: ReplyWsError_def MakeWsClosePayload_def Let_def)
qed

theorem close_reply_overruns_witness:
  "\<exists>h p. ReplyWsError 1002 [98, 97, 100] = [h, p] \<and> drop 5 p = [98, 97, 100]"
proof -
  have e: "2 + length [98, 97, 100 :: byte] = 5" "[98, 97, 100 :: byte] \<noteq> []" "length [98, 97, 100 :: byte] \<le> 123" by simp_all
  show ?thesis using close_reply_overruns [OF e(2,3), of 1002] unfolding e(1) by blast
qed

end
