(* ===== verification/Ws_Conn.thy ===== *)
theory Ws_Conn
  imports Ws_Frame
begin

text \<open>
  Reading frames from a connection: \<open>src/wsg/connection.go\<close> and \<open>readFrame\<close> of \<open>src/wsg/server.go\<close>. The network
  library gnet is not part of the repository; its connection is a parameter, a record of the four
  operations the code calls, with their documented behaviour as a hypothesis about the bytes that
  are waiting. What is handed to \<open>router.PushData\<close> is recorded in order.
\<close>

unbundle bit_operations_syntax

section \<open>The network connection\<close>

record 'c gnetConn =
  g_Peek :: "int \<Rightarrow> 'c \<Rightarrow> io_err + bytes"
  g_Next :: "int \<Rightarrow> 'c \<Rightarrow> (io_err + bytes) \<times> 'c"
  g_Discard :: "int \<Rightarrow> 'c \<Rightarrow> 'c"
  g_Write :: "bytes \<Rightarrow> 'c \<Rightarrow> io_err option \<times> 'c"
  g_Writev :: "bytes list \<Rightarrow> 'c \<Rightarrow> io_err option \<times> 'c"
  g_feed :: "bytes \<Rightarrow> 'c \<Rightarrow> 'c"

text \<open>\<open>inb c\<close> are the bytes that have arrived and not been read: \<open>Peek\<close> shows the first \<open>n\<close> of them, \<open>Next\<close> takes them, \<open>Discard\<close>
  drops them, and \<open>io.ErrShortBuffer\<close> says that there are fewer. Arriving data (\<open>g_feed\<close>) is appended; writing does not touch them.\<close>

definition gnet_ok :: "'c gnetConn \<Rightarrow> ('c \<Rightarrow> bytes) \<Rightarrow> bool" where
  "gnet_ok io inb \<longleftrightarrow>
     (\<forall>n c. 0 < n \<longrightarrow> g_Peek io n c = (if n \<le> int (length (inb c)) then Inr (take (nat n) (inb c)) else Inl ErrShortBuffer))
   \<and> (\<forall>n c. 0 < n \<longrightarrow> fst (g_Next io n c) = (if n \<le> int (length (inb c)) then Inr (take (nat n) (inb c)) else Inl ErrShortBuffer)
        \<and> inb (snd (g_Next io n c)) = (if n \<le> int (length (inb c)) then drop (nat n) (inb c) else inb c))
   \<and> (\<forall>n c. 0 < n \<and> n \<le> int (length (inb c)) \<longrightarrow> inb (g_Discard io n c) = drop (nat n) (inb c))
   \<and> (\<forall>b c. inb (snd (g_Write io b c)) = inb c) \<and> (\<forall>b c. inb (snd (g_Writev io b c)) = inb c)
   \<and> (\<forall>b c. inb (g_feed io b c) = inb c @ b)"

definition writes_ok :: "'c gnetConn \<Rightarrow> bool" where
  "writes_ok io \<longleftrightarrow> (\<forall>b c. fst (g_Write io b c) = None) \<and> (\<forall>b c. fst (g_Writev io b c) = None)"


section \<open>A connection\<close>

record Conn =
  cn_isUpgrade :: bool
  cn_wsHeadOk :: bool
  cn_wsHeadLen :: nat
  cn_wsHead :: "WsHead option"
  cn_buff :: "bytes option"

definition newConn :: Conn where
  "newConn = \<lparr>cn_isUpgrade = False, cn_wsHeadOk = False, cn_wsHeadLen = 0, cn_wsHead = None, cn_buff = None\<rparr>"

text \<open>The part of \<open>ReadWsHeader\<close> after the first two bytes have been seen; \<open>h\<close> is set whenever \<open>wsHeadLen\<close> is.\<close>

definition read_whole :: "'c gnetConn \<Rightarrow> WsHead \<Rightarrow> Conn \<Rightarrow> 'c \<Rightarrow> (bool \<times> ws_err option) \<times> Conn \<times> 'c" where
  "read_whole io h conn c =
    (case g_Next io (int (cn_wsHeadLen conn)) c of
       (Inl e, c1) \<Rightarrow> ((False, if e = ErrShortBuffer then None else Some (errIO e)), conn, c1)
     | (Inr bts, c1) \<Rightarrow>
         (case head_rest (bts ! 1) h (drop 2 bts) of
            Inl e \<Rightarrow> ((False, Some e), conn, c1)
          | Inr h1 \<Rightarrow> ((True, None), conn\<lparr>cn_wsHead := Some h1\<rparr>, c1)))"

definition Conn_ReadWsHeader :: "'c gnetConn \<Rightarrow> Conn \<Rightarrow> 'c \<Rightarrow> (bool \<times> ws_err option) \<times> Conn \<times> 'c" where
  "Conn_ReadWsHeader io conn c =
    (if cn_wsHeadLen conn = 0
     then (case g_Peek io 2 c of
             Inl e \<Rightarrow> ((False, if e = ErrShortBuffer then None else Some (errIO e)), conn, c)
           | Inr bts \<Rightarrow>
               let h = head_fields (bts ! 0) (bts ! 1);
                   extra = head_extra (bts ! 1);
                   conn1 = conn\<lparr>cn_wsHead := Some h, cn_wsHeadLen := 2 + extra\<rparr>
               in if extra = 0 then ((True, None), conn1, g_Discard io 2 c) else read_whole io h conn1 c)
     else read_whole io (the (cn_wsHead conn)) conn c)"

text \<open>The text of an error, and the reply that carries it.\<close>

definition str_bytes :: "string \<Rightarrow> bytes" where
  "str_bytes s = map (\<lambda>ch. word_of_nat (of_char ch)) s"

fun ws_err_msg :: "ws_err \<Rightarrow> string" where
  "ws_err_msg errInvalidControlFrame = ''websocket: invalid control frame''"
| "ws_err_msg errHandshakeDataTooLarge = ''handshake data too large''"
| "ws_err_msg errHandshakeSendFrameData = ''websocket: client sent data before handshake is complete''"
| "ws_err_msg errHeaderLengthUnexpected = ''ErrHeaderLengthUnexpected''"
| "ws_err_msg errHeaderLengthMSB = ''ErrHeaderLengthMSB''"
| "ws_err_msg errNotSupportTextData = ''not support text data''"
| "ws_err_msg errPayloadTooLarge = ''payload too large''"
| "ws_err_msg errClientClosed = ''client ws closed''"
| "ws_err_msg errMustMasked = ''must masked''"
| "ws_err_msg errCloseReasonTooLong = ''ErrCloseReasonTooLong''"
| "ws_err_msg (errIO e) = (case e of EOF \<Rightarrow> ''EOF'' | ErrUnexpectedEOF \<Rightarrow> ''unexpected EOF'' | ErrShortBuffer \<Rightarrow> ''short buffer'' | IoOther s \<Rightarrow> s)"

definition replyWsError :: "'c gnetConn \<Rightarrow> u16 \<Rightarrow> ws_err \<Rightarrow> 'c \<Rightarrow> 'c" where
  "replyWsError io statusCode reason c =
    (let parts = ReplyWsError statusCode (str_bytes (ws_err_msg reason))
     in case g_Write io (parts ! 0) c of
          (Some e, c1) \<Rightarrow> c1
        | (None, c1) \<Rightarrow> snd (g_Write io (parts ! 1) c1))"

definition innerSendWsOpFrame :: "'c gnetConn \<Rightarrow> byte \<Rightarrow> bytes \<Rightarrow> 'c \<Rightarrow> ws_err option \<times> 'c" where
  "innerSendWsOpFrame io opc payload c =
    (let wsh = zeroHead\<lparr>wh_Fin := True, wh_OpCode := opc, wh_Length := int (length payload)\<rparr>;
         hbuff = (case MakeWsHeadBuff wsh of Inr b \<Rightarrow> b | Inl _ \<Rightarrow> []);
         (err, c1) = (if payload = [] then g_Write io hbuff c else g_Writev io [hbuff, payload] c)
     in (map_option errIO err, c1))"

definition processOpFrame :: "'c gnetConn \<Rightarrow> WsHead \<Rightarrow> bytes \<Rightarrow> 'c \<Rightarrow> ws_err option \<times> 'c" where
  "processOpFrame io wsh payload c =
    (if \<not> wh_Fin wsh then (Some errInvalidControlFrame, replyWsError io 1002 errInvalidControlFrame c)
     else if wh_OpCode wsh = OpClose
     then (if length payload = 1 \<or> length payload > 125
           then (Some errInvalidControlFrame, replyWsError io 1002 errInvalidControlFrame c)
           else (Some errClientClosed, snd (innerSendWsOpFrame io OpClose payload c)))
     else if wh_OpCode wsh = OpPing
     then (if length payload > 125 then (Some errInvalidControlFrame, replyWsError io 1002 errInvalidControlFrame c)
           else innerSendWsOpFrame io OpPong payload c)
     else (None, c))"

text \<open>\<open>Conn.Send\<close>: the two buffers it hands to the asynchronous writer, if any.\<close>

definition Conn_Send :: "bytes \<Rightarrow> ws_err + bytes list" where
  "Conn_Send content =
    (if content = [] then Inr []
     else case MakeWsHeadBuff (zeroHead\<lparr>wh_Fin := True, wh_OpCode := OpBinary, wh_Length := int (length content)\<rparr>) of
            Inl e \<Rightarrow> Inl e
          | Inr hbuff \<Rightarrow> Inr [hbuff, content])"


section \<open>The frame loop\<close>

record 'c frameState =
  fr_conn :: Conn
  fr_io :: 'c
  fr_pushed :: "bytes list"

text \<open>One round of the loop of \<open>readFrame\<close>: \<open>None\<close> to go on, \<open>Some err\<close> to return.\<close>

definition frame_header :: "'c gnetConn \<Rightarrow> 'c frameState \<Rightarrow> 'c frameState \<times> ws_err option option" where
  "frame_header io st =
    (if cn_wsHeadOk (fr_conn st) then (st, None)
     else case Conn_ReadWsHeader io (fr_conn st) (fr_io st) of
            ((ok, Some e), conn, c) \<Rightarrow> (st\<lparr>fr_conn := conn, fr_io := c\<rparr>, Some (Some e))
          | ((False, None), conn, c) \<Rightarrow> (st\<lparr>fr_conn := conn, fr_io := c\<rparr>, Some None)
          | ((True, None), conn, c) \<Rightarrow>
              let conn1 = conn\<lparr>cn_wsHeadOk := True\<rparr>; wsh = the (cn_wsHead conn)
              in if \<not> wh_Masked wsh
                 then (st\<lparr>fr_conn := conn1, fr_io := replyWsError io 1002 errMustMasked c\<rparr>, Some (Some errMustMasked))
                 else if wh_OpCode wsh = OpText
                 then (st\<lparr>fr_conn := conn1, fr_io := replyWsError io 1002 errNotSupportTextData c\<rparr>, Some (Some errNotSupportTextData))
                 else (st\<lparr>fr_conn := conn1, fr_io := c\<rparr>, None))"

definition frame_payload :: "'c gnetConn \<Rightarrow> int \<Rightarrow> 'c frameState \<Rightarrow> (bytes \<times> 'c frameState) \<times> ws_err option option" where
  "frame_payload io maxPayloadSize st =
    (let conn = fr_conn st; wsh = the (cn_wsHead conn)
     in if wh_Length wsh > 0
        then (if i64 (wh_Length wsh + int (case cn_buff conn of None \<Rightarrow> 0 | Some b \<Rightarrow> length b)) > maxPayloadSize
              then (([], st\<lparr>fr_io := replyWsError io 1009 errPayloadTooLarge (fr_io st)\<rparr>), Some (Some errPayloadTooLarge))
              else case g_Next io (wh_Length wsh) (fr_io st) of
                     (Inl e, c) \<Rightarrow> (([], st\<lparr>fr_io := c\<rparr>), Some (if e = ErrShortBuffer then None else Some (errIO e)))
                   | (Inr payload, c) \<Rightarrow> ((MaskWsPayload (wh_Mask wsh) payload, st\<lparr>fr_io := c\<rparr>), None))
        else (([], st), None))"

definition frame_handle :: "'c gnetConn \<Rightarrow> bytes \<Rightarrow> 'c frameState \<Rightarrow> 'c frameState \<times> ws_err option option" where
  "frame_handle io payload st =
    (let conn = fr_conn st; wsh = the (cn_wsHead conn);
         (st1, err) =
           (if IsControlOp (wh_OpCode wsh)
            then (case processOpFrame io wsh payload (fr_io st) of (err, c) \<Rightarrow> (st\<lparr>fr_io := c\<rparr>, err))
            else if payload \<noteq> []
            then (let b = (case cn_buff conn of None \<Rightarrow> [] | Some b \<Rightarrow> b) @ payload
                  in if wh_Fin wsh then (st\<lparr>fr_conn := conn\<lparr>cn_buff := None\<rparr>, fr_pushed := fr_pushed st @ [b]\<rparr>, None)
                     else (st\<lparr>fr_conn := conn\<lparr>cn_buff := Some b\<rparr>\<rparr>, None))
            else (st, None))
     in case err of
          Some e \<Rightarrow> (st1, Some (Some e))
        | None \<Rightarrow> (st1\<lparr>fr_conn := (fr_conn st1)\<lparr>cn_wsHeadOk := False, cn_wsHeadLen := 0, cn_wsHead := None\<rparr>\<rparr>, None))"

definition frame_step :: "'c gnetConn \<Rightarrow> int \<Rightarrow> 'c frameState \<Rightarrow> 'c frameState \<times> ws_err option option" where
  "frame_step io maxPayloadSize st =
    (case frame_header io st of
       (st1, Some r) \<Rightarrow> (st1, Some r)
     | (st1, None) \<Rightarrow>
         (case frame_payload io maxPayloadSize st1 of
            ((_, st2), Some r) \<Rightarrow> (st2, Some r)
          | ((payload, st2), None) \<Rightarrow> frame_handle io payload st2))"

partial_function (option) frame_loop :: "'c gnetConn \<Rightarrow> int \<Rightarrow> 'c frameState \<Rightarrow> ('c frameState \<times> ws_err option) option" where
  "frame_loop io maxPayloadSize st =
    (case frame_step io maxPayloadSize st of
       (st1, Some r) \<Rightarrow> Some (st1, r)
     | (st1, None) \<Rightarrow> frame_loop io maxPayloadSize st1)"

text \<open>\<open>readFrame\<close> with its deferred clean-up: on an error the head goes back to the pool.\<close>

definition readFrame :: "'c gnetConn \<Rightarrow> int \<Rightarrow> 'c frameState \<Rightarrow> ('c frameState \<times> ws_err option) option" where
  "readFrame io maxPayloadSize st =
    map_option (\<lambda>(st1, err). if err \<noteq> None \<and> err \<noteq> Some (errIO ErrShortBuffer) then (st1\<lparr>fr_conn := (fr_conn st1)\<lparr>cn_wsHead := None\<rparr>\<rparr>, err) else (st1, err))
      (frame_loop io maxPayloadSize st)"

text \<open>\<open>OnTraffic\<close> of an upgraded connection, called whenever data have arrived, until it asks to close.\<close>

fun traffic :: "'c gnetConn \<Rightarrow> int \<Rightarrow> bytes list \<Rightarrow> 'c frameState \<Rightarrow> ('c frameState \<times> ws_err option) option" where
  "traffic io maxPayloadSize [] st = Some (st, None)"
| "traffic io maxPayloadSize (chunk # chunks) st =
    (case readFrame io maxPayloadSize (st\<lparr>fr_io := g_feed io chunk (fr_io st)\<rparr>) of
       None \<Rightarrow> None
     | Some (st1, Some e) \<Rightarrow> Some (st1, Some e)
     | Some (st1, None) \<Rightarrow> traffic io maxPayloadSize chunks st1)"


section \<open>Frames of a client\<close>

type_synonym frame = "WsHead \<times> bytes"

definition hdr :: "WsHead \<Rightarrow> bytes" where
  "hdr h = [b0_of h, b1_of h] @ head_tail h"

definition enc :: "frame \<Rightarrow> bytes" where
  "enc f = hdr (fst f) @ MaskWsPayload (wh_Mask (fst f)) (snd f)"

text \<open>What a client may send: masked binary, continuation and control frames; a control frame neither fragmented nor long
  nor a close, and no message above the limit.\<close>

definition client_frame :: "frame \<Rightarrow> bool" where
  "client_frame f \<longleftrightarrow> head_ok (fst f) \<and> wh_Masked (fst f) \<and> wh_Length (fst f) = int (length (snd f)) \<and> wh_OpCode (fst f) \<noteq> OpText
     \<and> (IsControlOp (wh_OpCode (fst f)) \<longrightarrow> wh_Fin (fst f) \<and> wh_OpCode (fst f) \<noteq> OpClose \<and> length (snd f) \<le> 125)"

definition good :: "int \<Rightarrow> bytes \<Rightarrow> frame \<Rightarrow> bool" where
  "good mx acc f \<longleftrightarrow> client_frame f \<and> int (length (snd f)) + int (length acc) \<le> mx"

text \<open>The messages that a sequence of frames makes by RFC 6455: the fragment in progress and the finished ones. The code
  takes no notice of an empty data frame, final or not.\<close>

definition take_frame :: "frame \<Rightarrow> bytes \<times> bytes list \<Rightarrow> bytes \<times> bytes list" where
  "take_frame f am = (if IsControlOp (wh_OpCode (fst f)) then am
     else if wh_Fin (fst f) then ([], snd am @ [fst am @ snd f]) else (fst am @ snd f, snd am))"

definition take_code :: "frame \<Rightarrow> bytes \<times> bytes list \<Rightarrow> bytes \<times> bytes list" where
  "take_code f am = (if snd f = [] then am else take_frame f am)"

fun all_good :: "int \<Rightarrow> bytes \<Rightarrow> frame list \<Rightarrow> bool" where
  "all_good mx acc [] = True"
| "all_good mx acc (f # fs) = (good mx acc f \<and> all_good mx (fst (take_code f (acc, []))) fs)"

definition messages :: "frame list \<Rightarrow> bytes list" where
  "messages fs = snd (fold take_frame fs ([], []))"

definition acc_of :: "Conn \<Rightarrow> bytes" where
  "acc_of conn = (case cn_buff conn of None \<Rightarrow> [] | Some b \<Rightarrow> b)"

lemma Mask_length [simp]: "length (MaskWsPayload key p) = length p"
  by (simp add: MaskWsPayload_def)

lemma Mask_twice [simp]: "MaskWsPayload key (MaskWsPayload key p) = p"
  by (intro nth_equalityI) (simp_all add: MaskWsPayload_def xor.assoc)

lemma hdr_nth [simp]: "hdr h ! 0 = b0_of h" "hdr h ! Suc 0 = b1_of h" "hdr h \<noteq> []"
  by (simp_all add: hdr_def)

lemma hdr_length: "head_ok h \<Longrightarrow> length (hdr h) = 2 + head_extra (b1_of h)"
  using head_parts(1) by (simp add: hdr_def)

text \<open>Two heads whose headers begin alike are the same.\<close>

lemma hdr_inj:
  assumes "head_ok h" "head_ok h'" "hdr h @ x = hdr h' @ y"
  shows "h = h'" "x = y"
proof -
  have b: "b0_of h = b0_of h'" "b1_of h = b1_of h'" "head_tail h @ x = head_tail h' @ y" using assms(3) by (simp_all add: hdr_def)
  have "length (head_tail h) = length (head_tail h')" using head_parts(1) [OF assms(1)] head_parts(1) [OF assms(2)] b(2) by simp
  then have t: "head_tail h = head_tail h'" "x = y" using b(3) by simp_all
  show "x = y" by (rule t)
  have "Inr h = (Inr h' :: ws_err + WsHead)"
    unfolding head_parts(3) [OF assms(1), symmetric] head_parts(3) [OF assms(2), symmetric] b(1,2) t(1) ..
  then show "h = h'" by simp
qed

lemma hdr_prefix:
  assumes "head_ok h" "head_ok h'" "hdr h @ x = r" "r @ y = hdr h' @ z"
  shows "h = h'"
  by (rule hdr_inj(1) [OF assms(1,2), of "x @ y" z]) (simp add: assms(4) [symmetric] assms(3) [symmetric])


section \<open>Where a connection is in its stream\<close>

text \<open>\<open>rest\<close> are the bytes since the end of the last complete frame: none of their header may have been looked at, or its
  first two bytes, or all of it taken.\<close>

definition at_rest :: "bytes \<Rightarrow> Conn \<Rightarrow> bytes \<Rightarrow> bool" where
  "at_rest rest conn inb \<longleftrightarrow>
     (if cn_wsHeadOk conn then \<exists>h. cn_wsHead conn = Some h \<and> head_ok h \<and> wh_Masked h \<and> rest = hdr h @ inb
      else inb = rest \<and> (cn_wsHeadLen conn = 0
        \<or> 2 \<le> length rest \<and> cn_wsHeadLen conn = 2 + head_extra (rest ! 1) \<and> cn_wsHead conn = Some (head_fields (rest ! 0) (rest ! 1))))"

lemma at_rest_feed: "at_rest rest conn inb \<Longrightarrow> at_rest (rest @ chunk) conn (inb @ chunk)"
  by (auto simp: at_rest_def nth_append split: if_splits)

lemma gnetD:
  assumes "gnet_ok io inb"
  shows "0 < n \<Longrightarrow> g_Peek io n c = (if n \<le> int (length (inb c)) then Inr (take (nat n) (inb c)) else Inl ErrShortBuffer)"
    and "0 < n \<Longrightarrow> n \<le> int (length (inb c)) \<Longrightarrow> \<exists>c'. g_Next io n c = (Inr (take (nat n) (inb c)), c') \<and> inb c' = drop (nat n) (inb c)"
    and "0 < n \<Longrightarrow> int (length (inb c)) < n \<Longrightarrow> \<exists>c'. g_Next io n c = (Inl ErrShortBuffer, c') \<and> inb c' = inb c"
    and "0 < n \<Longrightarrow> n \<le> int (length (inb c)) \<Longrightarrow> inb (g_Discard io n c) = drop (nat n) (inb c)"
    and "inb (snd (g_Write io b c)) = inb c" and "inb (snd (g_Writev io bs c)) = inb c" and "inb (g_feed io b c) = inb c @ b"
proof -
  note g = assms [unfolded gnet_ok_def]
  show "0 < n \<Longrightarrow> g_Peek io n c = (if n \<le> int (length (inb c)) then Inr (take (nat n) (inb c)) else Inl ErrShortBuffer)"
    "0 < n \<Longrightarrow> n \<le> int (length (inb c)) \<Longrightarrow> inb (g_Discard io n c) = drop (nat n) (inb c)"
    "inb (snd (g_Write io b c)) = inb c" "inb (snd (g_Writev io bs c)) = inb c" "inb (g_feed io b c) = inb c @ b"
    using g by blast+
  show "\<exists>c'. g_Next io n c = (Inr (take (nat n) (inb c)), c') \<and> inb c' = drop (nat n) (inb c)" if "0 < n" "n \<le> int (length (inb c))"
    using g that by (intro exI [of _ "snd (g_Next io n c)"]) (simp add: prod_eq_iff)
  show "\<exists>c'. g_Next io n c = (Inl ErrShortBuffer, c') \<and> inb c' = inb c" if "0 < n" "int (length (inb c)) < n"
    using g that by (intro exI [of _ "snd (g_Next io n c)"]) (simp add: prod_eq_iff)
qed

text \<open>A complete header is read, however much of it has been seen before.\<close>

lemma read_whole_full:
  assumes g: "gnet_ok io inb" and h: "head_ok h" and i: "inb c = hdr h @ mo" and n: "cn_wsHeadLen conn = length (hdr h)"
  shows "\<exists>c'. read_whole io (head_fields (b0_of h) (b1_of h)) conn c = ((True, None), conn\<lparr>cn_wsHead := Some h\<rparr>, c') \<and> inb c' = mo"
proof -
  have "0 < int (cn_wsHeadLen conn)" "int (cn_wsHeadLen conn) \<le> int (length (inb c))" by (simp_all add: n i)
  from gnetD(2) [OF g this] obtain c' where c': "g_Next io (int (cn_wsHeadLen conn)) c = (Inr (hdr h), c')" "inb c' = mo"
    by (auto simp: i n)
  have "drop 2 (hdr h) = head_tail h" by (simp add: hdr_def)
  then show ?thesis using c' head_parts(3) [OF h] by (simp add: read_whole_def)
qed

lemma read_header_full:
  assumes g: "gnet_ok io inb" and h: "head_ok h" and r: "at_rest rest conn (inb c)" and ok: "\<not> cn_wsHeadOk conn" and e: "rest = hdr h @ mo"
  shows "\<exists>c'. Conn_ReadWsHeader io conn c = ((True, None), conn\<lparr>cn_wsHead := Some h, cn_wsHeadLen := length (hdr h)\<rparr>, c') \<and> inb c' = mo"
proof -
  have i: "inb c = hdr h @ mo" using r ok e by (simp add: at_rest_def)
  have l: "2 \<le> length (inb c)" by (simp add: i hdr_def)
  have b: "rest ! 0 = b0_of h" "rest ! 1 = b1_of h" by (simp_all add: e hdr_def)
  show ?thesis
  proof (cases "cn_wsHeadLen conn = 0")
    case True
    have pk: "g_Peek io 2 c = Inr [b0_of h, b1_of h]" using gnetD(1) [OF g, of 2 c] l by (simp add: i hdr_def)
    show ?thesis
    proof (cases "head_extra (b1_of h) = 0")
      case x: True
      then have "head_tail h = []" using head_parts(1) [OF h] by simp
      then have "inb (g_Discard io 2 c) = mo" "length (hdr h) = 2" using gnetD(4) [OF g, of 2 c] l by (simp_all add: i hdr_def)
      then show ?thesis using True pk x head_parts(2) [OF h] by (simp add: Conn_ReadWsHeader_def)
    next
      case x: False
      define conn1 where "conn1 = conn\<lparr>cn_wsHead := Some (head_fields (b0_of h) (b1_of h)), cn_wsHeadLen := 2 + head_extra (b1_of h)\<rparr>"
      have n: "cn_wsHeadLen conn1 = length (hdr h)" using hdr_length [OF h] by (simp add: conn1_def)
      from read_whole_full [OF g h i n] obtain c' where
        "read_whole io (head_fields (b0_of h) (b1_of h)) conn1 c = ((True, None), conn1\<lparr>cn_wsHead := Some h\<rparr>, c')" "inb c' = mo" by blast
      then show ?thesis using True pk x hdr_length [OF h] by (simp add: Conn_ReadWsHeader_def conn1_def)
    qed
  next
    case False
    then have p: "cn_wsHeadLen conn = length (hdr h)" "cn_wsHead conn = Some (head_fields (b0_of h) (b1_of h))"
      using r ok hdr_length [OF h] b by (simp_all add: at_rest_def)
    from read_whole_full [OF g h i p(1)] show ?thesis using False p by (auto simp: Conn_ReadWsHeader_def)
  qed
qed

lemma read_header_short:
  assumes g: "gnet_ok io inb" and h: "head_ok h" and r: "at_rest rest conn (inb c)" and ok: "\<not> cn_wsHeadOk conn"
    and e: "rest @ x = hdr h" "x \<noteq> []"
  shows "\<exists>conn' c'. Conn_ReadWsHeader io conn c = ((False, None), conn', c') \<and> inb c' = inb c \<and> at_rest rest conn' (inb c)
    \<and> \<not> cn_wsHeadOk conn' \<and> cn_buff conn' = cn_buff conn"
proof -
  have i: "inb c = rest" using r ok by (simp add: at_rest_def)
  show ?thesis
  proof (cases "length rest < 2")
    case True
    then have "cn_wsHeadLen conn = 0" using r ok by (simp add: at_rest_def)
    moreover have "g_Peek io 2 c = Inl ErrShortBuffer" using gnetD(1) [OF g, of 2 c] True i by simp
    ultimately show ?thesis using r ok by (simp add: Conn_ReadWsHeader_def)
  next
    case False
    have b: "rest ! 0 = b0_of h" "rest ! 1 = b1_of h"
    proof -
      have "0 < length rest" "1 < length rest" using False by auto
      then have "(rest @ x) ! 0 = rest ! 0" "(rest @ x) ! 1 = rest ! 1" by (simp_all add: nth_append)
      then show "rest ! 0 = b0_of h" "rest ! 1 = b1_of h" unfolding e(1) by simp_all
    qed
    have lx: "length (inb c) < 2 + head_extra (b1_of h)"
      using hdr_length [OF h] e i by (metis length_append length_greater_0_conv less_add_same_cancel1)
    then have x0: "head_extra (b1_of h) \<noteq> 0" using False i by auto
    from gnetD(3) [OF g, of "int (2 + head_extra (b1_of h))" c] lx obtain c' where
      nx: "g_Next io (int (2 + head_extra (b1_of h))) c = (Inl ErrShortBuffer, c')" "inb c' = inb c" by auto
    show ?thesis
    proof (cases "cn_wsHeadLen conn = 0")
      case True
      have "take 2 rest = [b0_of h, b1_of h]"
        using False b by (cases rest; cases "tl rest") auto
      then have pk: "g_Peek io 2 c = Inr [b0_of h, b1_of h]" using gnetD(1) [OF g, of 2 c] False i by simp
      define conn1 where "conn1 = conn\<lparr>cn_wsHead := Some (head_fields (b0_of h) (b1_of h)), cn_wsHeadLen := 2 + head_extra (b1_of h)\<rparr>"
      have "Conn_ReadWsHeader io conn c = ((False, None), conn1, c')"
        using True pk x0 nx by (simp add: Conn_ReadWsHeader_def read_whole_def conn1_def)
      moreover have "at_rest rest conn1 (inb c)" using ok False b i by (simp add: at_rest_def conn1_def)
      ultimately show ?thesis using nx(2) ok by (simp add: conn1_def)
    next
      case n: False
      then have "cn_wsHeadLen conn = 2 + head_extra (b1_of h)" using r ok b by (simp add: at_rest_def)
      then have "Conn_ReadWsHeader io conn c = ((False, None), conn, c')"
        using nx by (simp add: Conn_ReadWsHeader_def read_whole_def)
      then show ?thesis using nx(2) ok r by simp
    qed
  qed
qed


section \<open>One round of the loop\<close>

lemma header_step_full:
  assumes g: "gnet_ok io inb" and h: "head_ok h" "wh_Masked h" "wh_OpCode h \<noteq> OpText"
    and r: "at_rest rest (fr_conn st) (inb (fr_io st))" and e: "rest = hdr h @ mo"
  shows "\<exists>conn' c'. frame_header io st = (st\<lparr>fr_conn := conn', fr_io := c'\<rparr>, None) \<and> inb c' = mo
    \<and> cn_wsHeadOk conn' \<and> cn_wsHead conn' = Some h \<and> cn_buff conn' = cn_buff (fr_conn st)"
proof (cases "cn_wsHeadOk (fr_conn st)")
  case True
  then obtain h' where h': "cn_wsHead (fr_conn st) = Some h'" "head_ok h'" "rest = hdr h' @ inb (fr_io st)"
    using r by (auto simp: at_rest_def)
  have "hdr h' @ inb (fr_io st) = hdr h @ mo" unfolding h'(3) [symmetric] by (rule e)
  from hdr_inj [OF h'(2) h(1) this] have "h' = h" "inb (fr_io st) = mo" .
  then show ?thesis using True h'(1)
    by (intro exI [of _ "fr_conn st"] exI [of _ "fr_io st"]) (simp add: frame_header_def)
next
  case False
  obtain c' where c': "Conn_ReadWsHeader io (fr_conn st) (fr_io st)
      = ((True, None), (fr_conn st)\<lparr>cn_wsHead := Some h, cn_wsHeadLen := length (hdr h)\<rparr>, c')" "inb c' = mo"
    using read_header_full [OF g h(1) r False e] by blast
  let ?conn = "(fr_conn st)\<lparr>cn_wsHeadOk := True, cn_wsHead := Some h, cn_wsHeadLen := length (hdr h)\<rparr>"
  have "frame_header io st = (st\<lparr>fr_conn := ?conn, fr_io := c'\<rparr>, None)"
    using False c'(1) h(2,3) by (simp add: frame_header_def)
  then show ?thesis using c'(2) by (intro exI [of _ ?conn] exI [of _ c']) simp
qed

lemma header_step_short:
  assumes g: "gnet_ok io inb" and h: "head_ok h" and r: "at_rest rest (fr_conn st) (inb (fr_io st))" and e: "rest @ x = hdr h" "x \<noteq> []"
  shows "\<exists>conn' c'. frame_header io st = (st\<lparr>fr_conn := conn', fr_io := c'\<rparr>, Some None) \<and> at_rest rest conn' (inb c')
    \<and> cn_buff conn' = cn_buff (fr_conn st)"
proof -
  have nok: "\<not> cn_wsHeadOk (fr_conn st)"
  proof
    assume "cn_wsHeadOk (fr_conn st)"
    then obtain h' where h': "head_ok h'" "hdr h' @ inb (fr_io st) = rest" using r by (auto simp: at_rest_def)
    have "h' = h" by (rule hdr_prefix [OF h'(1) h h'(2), of x "[]"]) (simp add: e(1))
    then show False using h'(2) e by auto
  qed
  from read_header_short [OF g h r nok e] obtain conn' c' where
    c': "Conn_ReadWsHeader io (fr_conn st) (fr_io st) = ((False, None), conn', c')" "inb c' = inb (fr_io st)"
      "at_rest rest conn' (inb (fr_io st))" "cn_buff conn' = cn_buff (fr_conn st)" by blast
  then show ?thesis using nok by (intro exI [of _ conn'] exI [of _ c']) (simp add: frame_header_def)
qed

lemma payload_step:
  assumes g: "gnet_ok io inb" and h: "cn_wsHead (fr_conn st) = Some h" "wh_Length h = int (length p)"
    and mx: "int (length p) + int (length (acc_of (fr_conn st))) \<le> mx" "mx < 2 ^ 63"
  shows "inb (fr_io st) = MaskWsPayload (wh_Mask h) p @ r \<Longrightarrow>
      \<exists>c'. frame_payload io mx st = ((p, st\<lparr>fr_io := c'\<rparr>), None) \<and> inb c' = r"
    and "length (inb (fr_io st)) < length p \<Longrightarrow> \<exists>c'. frame_payload io mx st = (([], st\<lparr>fr_io := c'\<rparr>), Some None) \<and> inb c' = inb (fr_io st)"
proof -
  have bl: "(case cn_buff (fr_conn st) of None \<Rightarrow> 0 | Some b \<Rightarrow> length b) = length (acc_of (fr_conn st))"
    by (simp add: acc_of_def split: option.splits)
  have i: "i64 (wh_Length h + int (length (acc_of (fr_conn st)))) = wh_Length h + int (length (acc_of (fr_conn st)))"
    by (rule i64_small) (use mx h(2) in linarith)+
  have small: "\<not> mx < i64 (wh_Length h + int (length (acc_of (fr_conn st))))" unfolding i unfolding h(2) using mx(1) by linarith
  show "\<exists>c'. frame_payload io mx st = ((p, st\<lparr>fr_io := c'\<rparr>), None) \<and> inb c' = r" if f: "inb (fr_io st) = MaskWsPayload (wh_Mask h) p @ r"
  proof (cases "p = []")
    case True
    then show ?thesis using f h by (intro exI [of _ "fr_io st"]) (simp add: frame_payload_def MaskWsPayload_def)
  next
    case False
    then obtain c' where c': "g_Next io (wh_Length h) (fr_io st) = (Inr (MaskWsPayload (wh_Mask h) p), c')" "inb c' = r"
      using gnetD(2) [OF g, of "wh_Length h" "fr_io st"] h(2) f by auto
    then show ?thesis using False h small unfolding frame_payload_def Let_def bl by (intro exI [of _ c']) simp
  qed
  show "\<exists>c'. frame_payload io mx st = (([], st\<lparr>fr_io := c'\<rparr>), Some None) \<and> inb c' = inb (fr_io st)" if f: "length (inb (fr_io st)) < length p"
  proof -
    have pos: "0 < wh_Length h" "int (length (inb (fr_io st))) < wh_Length h" using f h(2) by linarith+
    from gnetD(3) [OF g this] obtain c' where c': "g_Next io (wh_Length h) (fr_io st) = (Inl ErrShortBuffer, c')" "inb c' = inb (fr_io st)"
      by blast
    then show ?thesis using pos(1) h(1) small unfolding frame_payload_def Let_def bl by (intro exI [of _ c']) simp
  qed
qed

lemma control_step:
  assumes g: "gnet_ok io inb" and w: "writes_ok io" and f: "wh_Fin h" "wh_OpCode h \<noteq> OpClose" "length p \<le> 125"
  shows "\<exists>c'. processOpFrame io h p c = (None, c') \<and> inb c' = inb c"
proof (cases "wh_OpCode h = OpPing")
  case True
  then show ?thesis
    using f w gnetD(5,6) [OF g]
    by (auto simp: processOpFrame_def innerSendWsOpFrame_def Let_def writes_ok_def prod_eq_iff split: prod.splits if_splits)
next
  case False
  then show ?thesis using f by (simp add: processOpFrame_def)
qed


lemma handle_step:
  assumes g: "gnet_ok io inb" and w: "writes_ok io" and h: "cn_wsHead (fr_conn st) = Some h" and f: "good mx (acc_of (fr_conn st)) (h, p)"
  shows "\<exists>st'. frame_handle io p st = (st', None) \<and> \<not> cn_wsHeadOk (fr_conn st') \<and> cn_wsHeadLen (fr_conn st') = 0
    \<and> (acc_of (fr_conn st'), fr_pushed st') = take_code (h, p) (acc_of (fr_conn st), fr_pushed st) \<and> inb (fr_io st') = inb (fr_io st)"
proof (cases "IsControlOp (wh_OpCode h)")
  case True
  then have c: "wh_Fin h" "wh_OpCode h \<noteq> OpClose" "length p \<le> 125" using f by (auto simp: good_def client_frame_def)
  obtain c' where "processOpFrame io h p (fr_io st) = (None, c')" "inb c' = inb (fr_io st)" using control_step [OF g w c] by blast
  then show ?thesis using True h by (simp add: frame_handle_def Let_def take_code_def take_frame_def acc_of_def)
next
  case False
  then show ?thesis using h by (cases "p = []") (auto simp: frame_handle_def Let_def take_code_def take_frame_def acc_of_def)
qed

lemma step_full:
  assumes g: "gnet_ok io inb" and w: "writes_ok io" and mx: "mx < 2 ^ 63" and f: "good mx (acc_of (fr_conn st)) (h, p)"
    and r: "at_rest rest (fr_conn st) (inb (fr_io st))" and e: "rest = enc (h, p) @ mo"
  shows "\<exists>st'. frame_step io mx st = (st', None) \<and> at_rest mo (fr_conn st') (inb (fr_io st'))
    \<and> (acc_of (fr_conn st'), fr_pushed st') = take_code (h, p) (acc_of (fr_conn st), fr_pushed st)"
proof -
  have cf: "head_ok h" "wh_Masked h" "wh_Length h = int (length p)" "wh_OpCode h \<noteq> OpText"
    and m1: "int (length p) + int (length (acc_of (fr_conn st))) \<le> mx"
    using f by (auto simp: good_def client_frame_def)
  have e': "rest = hdr h @ MaskWsPayload (wh_Mask h) p @ mo" using e by (simp add: enc_def)
  obtain conn1 c1 where 1: "frame_header io st = (st\<lparr>fr_conn := conn1, fr_io := c1\<rparr>, None)" "inb c1 = MaskWsPayload (wh_Mask h) p @ mo"
      "cn_wsHead conn1 = Some h" "cn_buff conn1 = cn_buff (fr_conn st)"
    using header_step_full [OF g cf(1,2,4) r e'] by blast
  define st1 where "st1 = st\<lparr>fr_conn := conn1, fr_io := c1\<rparr>"
  have s1: "cn_wsHead (fr_conn st1) = Some h" "acc_of (fr_conn st1) = acc_of (fr_conn st)" "fr_pushed st1 = fr_pushed st"
      "inb (fr_io st1) = MaskWsPayload (wh_Mask h) p @ mo"
    using 1 by (simp_all add: st1_def acc_of_def)
  obtain c2 where 2: "frame_payload io mx st1 = ((p, st1\<lparr>fr_io := c2\<rparr>), None)" "inb c2 = mo"
    using payload_step(1) [OF g s1(1) cf(3) _ mx s1(4)] m1 s1(2) by auto
  define st2 where "st2 = st1\<lparr>fr_io := c2\<rparr>"
  have s2: "cn_wsHead (fr_conn st2) = Some h" "acc_of (fr_conn st2) = acc_of (fr_conn st)" "fr_pushed st2 = fr_pushed st" "inb (fr_io st2) = mo"
    using s1 2(2) by (simp_all add: st2_def)
  have "good mx (acc_of (fr_conn st2)) (h, p)" using f s2(2) by simp
  from handle_step [OF g w s2(1) this] obtain st' where
    3: "frame_handle io p st2 = (st', None)" "\<not> cn_wsHeadOk (fr_conn st')" "cn_wsHeadLen (fr_conn st') = 0" "inb (fr_io st') = mo"
      "(acc_of (fr_conn st'), fr_pushed st') = take_code (h, p) (acc_of (fr_conn st), fr_pushed st)"
    unfolding s2 by blast
  have "frame_step io mx st = (st', None)"
    using 1(1) 2(1) 3(1) by (simp add: frame_step_def st1_def [symmetric] st2_def [symmetric])
  moreover have "at_rest mo (fr_conn st') (inb (fr_io st'))" using 3 by (simp add: at_rest_def)
  ultimately show ?thesis using 3(5) by blast
qed

lemma step_short:
  assumes g: "gnet_ok io inb" and mx: "mx < 2 ^ 63" and f: "good mx (acc_of (fr_conn st)) (h, p)"
    and r: "at_rest rest (fr_conn st) (inb (fr_io st))" and e: "rest @ x = enc (h, p)" "x \<noteq> []"
  shows "\<exists>st'. frame_step io mx st = (st', Some None) \<and> at_rest rest (fr_conn st') (inb (fr_io st'))
    \<and> acc_of (fr_conn st') = acc_of (fr_conn st) \<and> fr_pushed st' = fr_pushed st"
proof -
  have cf: "head_ok h" "wh_Masked h" "wh_Length h = int (length p)" "wh_OpCode h \<noteq> OpText"
    and m1: "int (length p) + int (length (acc_of (fr_conn st))) \<le> mx"
    using f by (auto simp: good_def client_frame_def)
  have e1: "rest @ x = hdr h @ MaskWsPayload (wh_Mask h) p" using e(1) by (simp add: enc_def)
  show ?thesis
  proof (cases "length rest < length (hdr h)")
    case True
    have tk: "rest @ drop (length rest) (hdr h) = hdr h"
    proof -
      have "take (length rest) (rest @ x) = take (length rest) (hdr h @ MaskWsPayload (wh_Mask h) p)" unfolding e1 ..
      then have "take (length rest) (hdr h) = rest" using True by simp
      then show ?thesis by (metis append_take_drop_id)
    qed
    have "drop (length rest) (hdr h) \<noteq> []" using True by simp
    from header_step_short [OF g cf(1) r tk this] show ?thesis by (auto simp: frame_step_def acc_of_def)
  next
    case False
    define mo where "mo = drop (length (hdr h)) rest"
    have t: "take (length (hdr h)) (rest @ x) = hdr h" unfolding e1 by simp
    then have rs: "rest = hdr h @ mo" using False by (metis append_eq_conv_conj append_take_drop_id mo_def take_append diff_is_0_eq not_less take0 append_Nil2)
    then have "mo @ x = MaskWsPayload (wh_Mask h) p" using e1 by simp
    then have lt: "length mo < length p" using e(2) by (metis Mask_length length_append length_greater_0_conv less_add_same_cancel1)
    obtain conn1 c1 where 1: "frame_header io st = (st\<lparr>fr_conn := conn1, fr_io := c1\<rparr>, None)" "inb c1 = mo"
        "cn_wsHeadOk conn1" "cn_wsHead conn1 = Some h" "cn_buff conn1 = cn_buff (fr_conn st)"
      using header_step_full [OF g cf(1,2,4) r rs] by blast
    define st1 where "st1 = st\<lparr>fr_conn := conn1, fr_io := c1\<rparr>"
    have s1: "cn_wsHead (fr_conn st1) = Some h" "acc_of (fr_conn st1) = acc_of (fr_conn st)" "inb (fr_io st1) = mo"
      using 1 by (simp_all add: st1_def acc_of_def)
    obtain c2 where 2: "frame_payload io mx st1 = (([], st1\<lparr>fr_io := c2\<rparr>), Some None)" "inb c2 = mo"
      using payload_step(2) [OF g s1(1) cf(3) _ mx] m1 s1 lt by auto
    have "frame_step io mx st = (st1\<lparr>fr_io := c2\<rparr>, Some None)" using 1(1) 2(1) by (simp add: frame_step_def st1_def [symmetric])
    moreover have "at_rest rest conn1 mo" using 1(3,4) cf(1,2) rs by (auto simp: at_rest_def)
    ultimately show ?thesis using 2(2) s1(2) by (auto simp: st1_def)
  qed
qed

lemma step_empty:
  assumes g: "gnet_ok io inb" and r: "at_rest [] (fr_conn st) (inb (fr_io st))"
  shows "frame_step io mx st = (st, Some None)"
proof -
  have n: "\<not> cn_wsHeadOk (fr_conn st)" using r by (auto simp: at_rest_def hdr_def split: if_splits)
  then have i: "inb (fr_io st) = []" "cn_wsHeadLen (fr_conn st) = 0" using r by (auto simp: at_rest_def)
  have "g_Peek io 2 (fr_io st) = Inl ErrShortBuffer" using gnetD(1) [OF g, of 2 "fr_io st"] i by simp
  then show ?thesis using n i by (simp add: frame_step_def frame_header_def Conn_ReadWsHeader_def)
qed


section \<open>A stream of frames\<close>

lemma take_code_fst: "fst (take_code f (a, m)) = fst (take_code f (a, m'))"
  by (simp add: take_code_def take_frame_def)

lemma enc_ne: "enc f \<noteq> []"
  by (simp add: enc_def hdr_def)

lemma frame_loop_spec:
  assumes g: "gnet_ok io inb" and w: "writes_ok io" and mx: "mx < 2 ^ 63"
  shows "all_good mx (acc_of (fr_conn st)) fs \<Longrightarrow> at_rest rest (fr_conn st) (inb (fr_io st)) \<Longrightarrow> rest @ fut = concat (map enc fs) \<Longrightarrow>
    \<exists>st' fs1 fs2 rest'. frame_loop io mx st = Some (st', None) \<and> fs = fs1 @ fs2 \<and> at_rest rest' (fr_conn st') (inb (fr_io st'))
      \<and> rest' @ fut = concat (map enc fs2) \<and> all_good mx (acc_of (fr_conn st')) fs2 \<and> (fut = [] \<longrightarrow> fs2 = [])
      \<and> (acc_of (fr_conn st'), fr_pushed st') = fold take_code fs1 (acc_of (fr_conn st), fr_pushed st)"
proof (induction fs arbitrary: st rest)
  case Nil
  then have e: "rest = []" "fut = []" by simp_all
  have "frame_loop io mx st = Some (st, None)"
    using step_empty [OF g, of st mx] Nil(2) e by (subst frame_loop.simps) simp
  then show ?case using Nil e by (intro exI [of _ st] exI [of _ "[]"] exI [of _ rest]) simp
next
  case (Cons f fs)
  obtain h p where f: "f = (h, p)" by force
  have gd: "good mx (acc_of (fr_conn st)) (h, p)" using Cons.prems(1) f by simp
  show ?case
  proof (cases "length (enc f) \<le> length rest")
    case True
    define mo where "mo = drop (length (enc f)) rest"
    have "take (length (enc f)) (rest @ fut) = enc f" unfolding Cons.prems(3) by simp
    then have e: "rest = enc (h, p) @ mo" using True f by (simp add: mo_def) (metis append_take_drop_id)
    obtain st1 where 1: "frame_step io mx st = (st1, None)" "at_rest mo (fr_conn st1) (inb (fr_io st1))"
        "(acc_of (fr_conn st1), fr_pushed st1) = take_code (h, p) (acc_of (fr_conn st), fr_pushed st)"
      using step_full [OF g w mx gd Cons.prems(2) e] by blast
    have "acc_of (fr_conn st1) = fst (take_code (h, p) (acc_of (fr_conn st), []))"
      using 1(3) take_code_fst [of "(h, p)"] by (metis fst_conv)
    then have ag: "all_good mx (acc_of (fr_conn st1)) fs" using Cons.prems(1) f by simp
    have "mo @ fut = concat (map enc fs)" using Cons.prems(3) e f by simp
    from Cons.IH [OF ag 1(2) this] obtain st' fs1 fs2 rest' where
      r: "frame_loop io mx st1 = Some (st', None)" "fs = fs1 @ fs2" "at_rest rest' (fr_conn st') (inb (fr_io st'))"
        "rest' @ fut = concat (map enc fs2)" "all_good mx (acc_of (fr_conn st')) fs2" "fut = [] \<longrightarrow> fs2 = []"
        "(acc_of (fr_conn st'), fr_pushed st') = fold take_code fs1 (acc_of (fr_conn st1), fr_pushed st1)" by blast
    have "frame_loop io mx st = Some (st', None)" using 1(1) r(1) by (subst frame_loop.simps) simp
    moreover have "(acc_of (fr_conn st'), fr_pushed st') = fold take_code (f # fs1) (acc_of (fr_conn st), fr_pushed st)"
      using r(7) 1(3) f by simp
    moreover have "f # fs = (f # fs1) @ fs2" using r(2) by simp
    ultimately show ?thesis using r(3-6) by blast
  next
    case False
    define x where "x = drop (length rest) (enc f)"
    have "take (length rest) (rest @ fut) = take (length rest) (enc f)" unfolding Cons.prems(3) using False by simp
    then have tr: "take (length rest) (enc f) = rest" by simp
    then have e: "rest @ x = enc (h, p)" "x \<noteq> []" using False f by (metis append_take_drop_id x_def, simp add: x_def)
    obtain st1 where 1: "frame_step io mx st = (st1, Some None)" "at_rest rest (fr_conn st1) (inb (fr_io st1))"
        "acc_of (fr_conn st1) = acc_of (fr_conn st)" "fr_pushed st1 = fr_pushed st"
      using step_short [OF g mx gd Cons.prems(2) e] by blast
    have "frame_loop io mx st = Some (st1, None)" using 1(1) by (subst frame_loop.simps) simp
    moreover have "fut \<noteq> []"
    proof
      assume "fut = []"
      then have "length rest = length (concat (map enc (f # fs)))" using Cons.prems(3) by simp
      then show False using False by simp
    qed
    ultimately show ?thesis using 1 Cons.prems by (intro exI [of _ st1] exI [of _ "[]"] exI [of _ "f # fs"] exI [of _ rest]) simp
  qed
qed

lemma traffic_spec:
  assumes g: "gnet_ok io inb" and w: "writes_ok io" and mx: "mx < 2 ^ 63"
  shows "all_good mx (acc_of (fr_conn st)) fs \<Longrightarrow> at_rest rest (fr_conn st) (inb (fr_io st)) \<Longrightarrow> rest @ concat chunks = concat (map enc fs) \<Longrightarrow>
    (chunks = [] \<longrightarrow> fs = []) \<Longrightarrow>
    \<exists>st'. traffic io mx chunks st = Some (st', None) \<and> at_rest [] (fr_conn st') (inb (fr_io st'))
      \<and> (acc_of (fr_conn st'), fr_pushed st') = fold take_code fs (acc_of (fr_conn st), fr_pushed st)"
proof (induction chunks arbitrary: st rest fs)
  case Nil
  then show ?case by simp
next
  case (Cons ch chunks)
  define st0 where "st0 = st\<lparr>fr_io := g_feed io ch (fr_io st)\<rparr>"
  have s0: "acc_of (fr_conn st0) = acc_of (fr_conn st)" "fr_pushed st0 = fr_pushed st" by (simp_all add: st0_def)
  have r0: "at_rest (rest @ ch) (fr_conn st0) (inb (fr_io st0))"
    using at_rest_feed [OF Cons.prems(2), of ch] gnetD(7) [OF g] by (simp add: st0_def)
  have ag: "all_good mx (acc_of (fr_conn st0)) fs" using Cons.prems(1) s0 by simp
  have "(rest @ ch) @ concat chunks = concat (map enc fs)" using Cons.prems(3) by simp
  from frame_loop_spec [OF g w mx ag r0 this] obtain st1 fs1 fs2 rest' where
    1: "frame_loop io mx st0 = Some (st1, None)" "fs = fs1 @ fs2" "at_rest rest' (fr_conn st1) (inb (fr_io st1))"
      "rest' @ concat chunks = concat (map enc fs2)" "all_good mx (acc_of (fr_conn st1)) fs2" "concat chunks = [] \<longrightarrow> fs2 = []"
      "(acc_of (fr_conn st1), fr_pushed st1) = fold take_code fs1 (acc_of (fr_conn st0), fr_pushed st0)" by blast
  have "chunks = [] \<longrightarrow> fs2 = []" using 1(6) by simp
  from Cons.IH [OF 1(5,3,4) this] obtain st' where
    2: "traffic io mx chunks st1 = Some (st', None)" "at_rest [] (fr_conn st') (inb (fr_io st'))"
      "(acc_of (fr_conn st'), fr_pushed st') = fold take_code fs2 (acc_of (fr_conn st1), fr_pushed st1)" by blast
  have "readFrame io mx st0 = Some (st1, None)" using 1(1) by (simp add: readFrame_def)
  then have "traffic io mx (ch # chunks) st = Some (st', None)" using 2(1) by (simp add: st0_def)
  then show ?case using 2(2,3) 1(2,7) s0 by simp
qed


lemma stream_spec:
  assumes "gnet_ok io inb" and "writes_ok io" and "mx < 2 ^ 63" and "all_good mx [] fs" and "concat chunks = concat (map enc fs)" and "inb c = []"
  shows "\<exists>st'. traffic io mx chunks \<lparr>fr_conn = newConn, fr_io = c, fr_pushed = []\<rparr> = Some (st', None)
    \<and> fr_pushed st' = snd (fold take_code fs ([], [])) \<and> inb (fr_io st') = []"
proof -
  let ?st = "\<lparr>fr_conn = newConn, fr_io = c, fr_pushed = []\<rparr>"
  have s: "acc_of (fr_conn ?st) = []" "at_rest [] (fr_conn ?st) (inb (fr_io ?st))" using assms(6) by (simp_all add: acc_of_def newConn_def at_rest_def)
  have "chunks = [] \<longrightarrow> fs = []" using assms(5) enc_ne by (cases fs) auto
  with traffic_spec [OF assms(1-3), of ?st fs "[]" chunks] s assms(4,5) obtain st' where
    st': "traffic io mx chunks ?st = Some (st', None)" "at_rest [] (fr_conn st') (inb (fr_io st'))"
      "(acc_of (fr_conn st'), fr_pushed st') = fold take_code fs ([], [])" by auto
  have "fr_pushed st' = snd (fold take_code fs ([], []))" unfolding st'(3) [symmetric] by simp
  moreover have "inb (fr_io st') = []" using st'(2) by (auto simp: at_rest_def hdr_def split: if_splits)
  ultimately show ?thesis using st'(1) by blast
qed


section \<open>Properties\<close>

text \<open>A buffer in memory that behaves as the network library documents.\<close>

definition buf_conn :: "bytes gnetConn" where
  "buf_conn = \<lparr>g_Peek = (\<lambda>n c. if n \<le> int (length c) then Inr (take (nat n) c) else Inl ErrShortBuffer),
     g_Next = (\<lambda>n c. if n \<le> int (length c) then (Inr (take (nat n) c), drop (nat n) c) else (Inl ErrShortBuffer, c)),
     g_Discard = (\<lambda>n c. drop (nat n) c), g_Write = (\<lambda>b c. (None, c)), g_Writev = (\<lambda>b c. (None, c)), g_feed = (\<lambda>b c. c @ b)\<rparr>"

lemma buf_conn_ok: "gnet_ok buf_conn (\<lambda>c. c)" "writes_ok buf_conn"
  by (simp_all add: gnet_ok_def writes_ok_def buf_conn_def)

text \<open>C4: messages arrive whole and in order, however the network cuts the stream. A client sends masked binary and
  continuation frames, with pings and pongs between them, fragmented as it likes, no data frame empty and
  no message above the limit. Whatever the pieces in which the bytes arrive, the server reads all
  of them without an error and pushes exactly the messages, in order.\<close>

theorem ws_stream_delivered:
  assumes "gnet_ok io inb" and "writes_ok io" and "mx < 2 ^ 63" and "all_good mx [] fs" and "concat chunks = concat (map enc fs)" and "inb c = []"
    and "\<forall>f \<in> set fs. IsControlOp (wh_OpCode (fst f)) \<or> snd f \<noteq> []"
  shows "\<exists>st'. traffic io mx chunks \<lparr>fr_conn = newConn, fr_io = c, fr_pushed = []\<rparr> = Some (st', None)
    \<and> fr_pushed st' = messages fs \<and> inb (fr_io st') = []"
proof -
  have "take_code f = take_frame f" if "f \<in> set fs" for f
    by (rule ext) (use assms(7) that in \<open>auto simp: take_code_def take_frame_def\<close>)
  then have "fold take_code fs am = fold take_frame fs am" for am by (intro fold_cong) simp_all
  then show ?thesis using stream_spec [OF assms(1-6)] by (simp add: messages_def)
qed

definition demo_frame :: "bool \<Rightarrow> byte \<Rightarrow> bytes \<Rightarrow> frame" where
  "demo_frame fin opc p = (\<lparr>wh_Fin = fin, wh_Rsv = 0, wh_OpCode = opc, wh_Masked = True, wh_Length = int (length p), wh_Mask = [1, 2, 3, 4]\<rparr>, p)"

lemma demo_ops: "IsControlOp OpPing" "\<not> IsControlOp OpBinary" "\<not> IsControlOp OpContinuation" "OpPing < 16" "OpBinary < 16" "OpContinuation < 16"
  "OpPing \<noteq> OpText" "OpBinary \<noteq> OpText" "OpContinuation \<noteq> OpText" "OpPing \<noteq> OpClose"
  by code_simp+

lemmas demo_defs = demo_frame_def good_def client_frame_def head_ok_def take_code_def take_frame_def demo_ops

theorem ws_stream_delivered_witness:
  "let fs = [demo_frame False OpBinary [10, 20], demo_frame True OpPing [], demo_frame True OpContinuation [30]]
   in \<exists>st'. traffic buf_conn 100 [take 5 (concat (map enc fs)), drop 5 (concat (map enc fs))] \<lparr>fr_conn = newConn, fr_io = [], fr_pushed = []\<rparr> = Some (st', None)
        \<and> fr_pushed st' = [[10, 20, 30]]"
proof -
  define fs where "fs = [demo_frame False OpBinary [10, 20], demo_frame True OpPing [], demo_frame True OpContinuation [30]]"
  have gd: "all_good 100 [] fs" by (simp add: fs_def demo_defs)
  have ms: "messages fs = [[10, 20, 30]]" by (simp add: messages_def fs_def demo_defs)
  have ne: "\<forall>f \<in> set fs. IsControlOp (wh_OpCode (fst f)) \<or> snd f \<noteq> []" by (simp add: fs_def demo_defs)
  have "concat [take 5 (concat (map enc fs)), drop 5 (concat (map enc fs))] = concat (map enc fs)" by simp
  from ws_stream_delivered [OF buf_conn_ok _ gd this _ ne, of "[]"] ms show ?thesis
    unfolding fs_def [symmetric] Let_def by auto
qed

text \<open>C35: an empty final fragment glues two messages together. The last frame of a fragmented message may be
  empty, but the server takes no notice of an empty data frame: it does not push the message, and the next one is
  appended to it. By the protocol the frames below make two messages, the server pushes one.\<close>

theorem empty_final_fragment_glues:
  assumes "gnet_ok io inb" and "writes_ok io" and "mx < 2 ^ 63" and "inb c = []"
    and "p \<noteq> []" and "q \<noteq> []" and "int (length p) + int (length q) \<le> mx"
  shows "let fs = [demo_frame False OpBinary p, demo_frame True OpContinuation [], demo_frame True OpBinary q]
   in messages fs = [p, q]
    \<and> (\<exists>st'. traffic io mx [concat (map enc fs)] \<lparr>fr_conn = newConn, fr_io = c, fr_pushed = []\<rparr> = Some (st', None) \<and> fr_pushed st' = [p @ q])"
proof -
  define fs where "fs = [demo_frame False OpBinary p, demo_frame True OpContinuation [], demo_frame True OpBinary q]"
  have gd: "all_good mx [] fs" using assms(3,5-7) by (simp add: fs_def demo_defs)
  have cd: "snd (fold take_code fs ([], [])) = [p @ q]" "messages fs = [p, q]" using assms(5,6) by (simp_all add: fs_def demo_defs messages_def)
  have "concat [concat (map enc fs)] = concat (map enc fs)" by simp
  from stream_spec [OF assms(1-3) gd this assms(4)] cd show ?thesis unfolding Let_def fs_def [symmetric] by auto
qed

theorem empty_final_fragment_glues_witness:
  "\<exists>st'. traffic buf_conn 100 [concat (map enc [demo_frame False OpBinary [10], demo_frame True OpContinuation [], demo_frame True OpBinary [20]])]
     \<lparr>fr_conn = newConn, fr_io = [], fr_pushed = []\<rparr> = Some (st', None) \<and> fr_pushed st' = [[10, 20]]"
  using empty_final_fragment_glues [OF buf_conn_ok, of 100 "[]" "[10]" "[20]"] by (simp add: Let_def)

text \<open>The payload limit can be evaded. The sum of a frame's length and the bytes already buffered is taken in 64
  bits; with a length close to \<open>2 ^ 63\<close> and something in the buffer it wraps around to a negative number,
  which passes the check: the server waits for the payload instead of refusing it.\<close>

theorem payload_limit_wraps:
  assumes g: "gnet_ok io inb" and h: "cn_wsHeadOk (fr_conn st)" "cn_wsHead (fr_conn st) = Some h" "cn_buff (fr_conn st) = Some b"
    and l: "wh_Length h < 2 ^ 63" "2 ^ 63 \<le> wh_Length h + int (length b)" "int (length b) < 2 ^ 63"
    and mx: "0 \<le> mx" and i: "int (length (inb (fr_io st))) < wh_Length h"
  shows "mx < wh_Length h \<longrightarrow> (\<exists>st'. frame_step io mx st = (st', Some None) \<and> cn_wsHeadOk (fr_conn st'))"
proof -
  have "i64 (wh_Length h + int (length b)) = wh_Length h + int (length b) - 2 ^ 64" by (rule i64_wraps) (use l in simp_all)
  then have small: "\<not> mx < i64 (wh_Length h + int (length b))" using l mx by simp
  have pos: "0 < wh_Length h" using i by linarith
  from gnetD(3) [OF g pos i] obtain c' where "g_Next io (wh_Length h) (fr_io st) = (Inl ErrShortBuffer, c')" by blast
  then show ?thesis using h small pos by (simp add: frame_step_def frame_header_def frame_payload_def)
qed

theorem payload_limit_wraps_witness:
  "let h = (fst (demo_frame True OpContinuation []))\<lparr>wh_Length := 2 ^ 63 - 1\<rparr>;
       st = \<lparr>fr_conn = newConn\<lparr>cn_wsHeadOk := True, cn_wsHead := Some h, cn_buff := Some [10]\<rparr>, fr_io = [], fr_pushed = []\<rparr>
   in \<exists>st'. frame_step buf_conn 100 st = (st', Some None)"
  using payload_limit_wraps [OF buf_conn_ok(1), of "\<lparr>fr_conn = newConn\<lparr>cn_wsHeadOk := True,
      cn_wsHead := Some ((fst (demo_frame True OpContinuation []))\<lparr>wh_Length := 2 ^ 63 - 1\<rparr>), cn_buff := Some [10]\<rparr>, fr_io = [], fr_pushed = []\<rparr>"
      "(fst (demo_frame True OpContinuation []))\<lparr>wh_Length := 2 ^ 63 - 1\<rparr>" "[10]" 100]
  by (auto simp: Let_def)

end
