(* ===== verification/Ws_Upgrade.thy ===== *)
theory Ws_Upgrade
  imports Ws_Token Ws_Conn
begin

text \<open>
  The opening handshake: \<open>Upgrade\<close> of \<open>src/wsg/upgrader.go\<close>, the HTTP replies of \<open>src/wsg/ws_util.go\<close> and \<open>handshake\<close> of
  \<open>src/wsg/server.go\<close>, with the Base64 and SHA-1 routines of the standard library that they use. The request parser of
  \<open>net/http\<close> and the URL parser of \<open>net/url\<close> are arguments.
\<close>

section \<open>Base64 and SHA-1\<close>

text \<open>The alphabet of RFC 4648: letters, small letters, digits, plus and slash.\<close>

definition b64_char :: "nat \<Rightarrow> char" where
  "b64_char n = char_of (if n < 26 then n + 65 else if n < 52 then n + 71 else if n < 62 then n - 4 else if n = 62 then 43 else 47)"

definition b64_val :: "char \<Rightarrow> nat option" where
  "b64_val c =
    (let n = of_char c in
     if 65 \<le> n \<and> n \<le> 90 then Some (n - 65) else if 97 \<le> n \<and> n \<le> 122 then Some (n - 71)
     else if 48 \<le> n \<and> n \<le> 57 then Some (n + 4) else if n = 43 then Some 62 else if n = 47 then Some 63 else None)"

text \<open>\<open>StdEncoding.EncodeToString\<close>: three bytes to four characters, padded with \<open>=\<close>.\<close>

fun EncodeToString :: "bytes \<Rightarrow> string" where
  "EncodeToString [] = []"
| "EncodeToString [a] = [b64_char (unat a div 4), b64_char (unat a mod 4 * 16), CHR ''='', CHR ''='']"
| "EncodeToString [a, b] =
    [b64_char (unat a div 4), b64_char (unat a mod 4 * 16 + unat b div 16), b64_char (unat b mod 16 * 4), CHR ''='']"
| "EncodeToString (a # b # c # r) =
    [b64_char (unat a div 4), b64_char (unat a mod 4 * 16 + unat b div 16), b64_char (unat b mod 16 * 4 + unat c div 64),
     b64_char (unat c mod 64)] @ EncodeToString r"

text \<open>\<open>StdEncoding.DecodeString\<close>: line breaks are skipped, padding is required and ends the input.\<close>

fun decode_quads :: "string \<Rightarrow> bytes option" where
  "decode_quads [] = Some []"
| "decode_quads (a # b # c # d # r) =
    (case (b64_val a, b64_val b) of
       (Some x, Some y) \<Rightarrow>
         if c = CHR ''='' then (if d = CHR ''='' \<and> r = [] then Some [word_of_nat (x * 4 + y div 16)] else None)
         else (case b64_val c of
             None \<Rightarrow> None
           | Some z \<Rightarrow>
               if d = CHR ''='' then (if r = [] then Some [word_of_nat (x * 4 + y div 16), word_of_nat (y mod 16 * 16 + z div 4)] else None)
               else (case (b64_val d, decode_quads r) of
                   (Some u, Some bs) \<Rightarrow>
                     Some ([word_of_nat (x * 4 + y div 16), word_of_nat (y mod 16 * 16 + z div 4), word_of_nat (z mod 4 * 64 + u)] @ bs)
                 | _ \<Rightarrow> None))
     | _ \<Rightarrow> None)"
| "decode_quads _ = None"

definition DecodeString :: "string \<Rightarrow> bytes option" where
  "DecodeString s = decode_quads (List.filter (\<lambda>c. c \<noteq> CHR 0x0A \<and> c \<noteq> CHR 0x0D) s)"

definition rotl32 :: "nat \<Rightarrow> u32 \<Rightarrow> u32" where
  "rotl32 n x = or (push_bit n x) (drop_bit (32 - n) x)"

fun sha1_sched :: "nat \<Rightarrow> u32 list \<Rightarrow> u32 list" where
  "sha1_sched 0 w = w"
| "sha1_sched (Suc n) w =
    (let t = length w in sha1_sched n (w @ [rotl32 1 (xor (xor (w ! (t - 3)) (w ! (t - 8))) (xor (w ! (t - 14)) (w ! (t - 16))))]))"

definition sha1_f :: "nat \<Rightarrow> u32 \<Rightarrow> u32 \<Rightarrow> u32 \<Rightarrow> u32" where
  "sha1_f t b c d =
    (if t < 20 then or (and b c) (and (not b) d) else if t < 40 then xor (xor b c) d
     else if t < 60 then or (or (and b c) (and b d)) (and c d) else xor (xor b c) d)"

definition sha1_k :: "nat \<Rightarrow> u32" where
  "sha1_k t = (if t < 20 then 0x5A827999 else if t < 40 then 0x6ED9EBA1 else if t < 60 then 0x8F1BBCDC else 0xCA62C1D6)"

type_synonym sha1_state = "u32 \<times> u32 \<times> u32 \<times> u32 \<times> u32"

fun sha1_rounds :: "nat \<Rightarrow> u32 list \<Rightarrow> sha1_state \<Rightarrow> sha1_state" where
  "sha1_rounds t [] s = s"
| "sha1_rounds t (w # ws) (a, b, c, d, e) = sha1_rounds (Suc t) ws (rotl32 5 a + sha1_f t b c d + e + sha1_k t + w, a, rotl32 30 b, c, d)"

fun be_words :: "bytes \<Rightarrow> u32 list" where
  "be_words (a # b # c # d # r) = or (or (push_bit 24 (ucast a)) (push_bit 16 (ucast b))) (or (push_bit 8 (ucast c)) (ucast d)) # be_words r"
| "be_words _ = []"

fun sha1_blocks :: "nat \<Rightarrow> bytes \<Rightarrow> sha1_state \<Rightarrow> sha1_state" where
  "sha1_blocks 0 m s = s"
| "sha1_blocks (Suc n) m (a, b, c, d, e) =
    (case sha1_rounds 0 (sha1_sched 64 (be_words (take 64 m))) (a, b, c, d, e) of
       (a', b', c', d', e') \<Rightarrow> sha1_blocks n (drop 64 m) (a + a', b + b', c + c', d + d', e + e'))"

definition sha1_sum :: "bytes \<Rightarrow> bytes" where
  "sha1_sum msg =
    (let m = msg @ [0x80] @ replicate ((119 - length msg mod 64) mod 64) 0 @ put_be 8 (8 * length msg)
     in case sha1_blocks (length m div 64) m (0x67452301, 0xEFCDAB89, 0x98BADCFE, 0x10325476, 0xC3D2E1F0) of
          (a, b, c, d, e) \<Rightarrow> concat (map (\<lambda>w. [ucast (drop_bit 24 w), ucast (drop_bit 16 w), ucast (drop_bit 8 w), ucast w]) [a, b, c, d, e]))"


section \<open>HTTP replies and headers\<close>

datatype http_status = StatusBadRequest | StatusForbidden | StatusMethodNotAllowed | StatusInternalServerError | StatusServiceUnavailable

fun status_code :: "http_status \<Rightarrow> nat" where
  "status_code StatusBadRequest = 400"
| "status_code StatusForbidden = 403"
| "status_code StatusMethodNotAllowed = 405"
| "status_code StatusInternalServerError = 500"
| "status_code StatusServiceUnavailable = 503"

fun StatusText :: "http_status \<Rightarrow> string" where
  "StatusText StatusBadRequest = ''Bad Request''"
| "StatusText StatusForbidden = ''Forbidden''"
| "StatusText StatusMethodNotAllowed = ''Method Not Allowed''"
| "StatusText StatusInternalServerError = ''Internal Server Error''"
| "StatusText StatusServiceUnavailable = ''Service Unavailable''"

fun Itoa :: "nat \<Rightarrow> string" where
  "Itoa n = (if n < 10 then [char_of (48 + n)] else Itoa (n div 10) @ [char_of (48 + n mod 10)])"

declare Itoa.simps [simp del]

definition CRLF :: string where
  "CRLF = [CHR 0x0D, CHR 0x0A]"

text \<open>\<open>ReplyHttpError\<close>: the bytes it writes.\<close>

definition http_error :: "http_status \<Rightarrow> string \<Rightarrow> string" where
  "http_error status reason =
    ''HTTP/1.1 '' @ Itoa (status_code status) @ '' '' @ StatusText status @ CRLF
      @ ''Content-Type: text/plain; charset=utf-8'' @ CRLF @ ''Connection: close'' @ CRLF @ CRLF @ reason"

definition ReplyHttpError :: "'c gnetConn \<Rightarrow> http_status \<Rightarrow> string \<Rightarrow> 'c \<Rightarrow> 'c" where
  "ReplyHttpError io status reason c = snd (g_Write io (str_bytes (http_error status reason)) c)"

definition Header_Get :: "http_header \<Rightarrow> string \<Rightarrow> string" where
  "Header_Get h key = (case h key of [] \<Rightarrow> '''' | v # _ \<Rightarrow> v)"

text \<open>\<open>strconv.ParseInt(str, 10, 64)\<close>.\<close>

fun parse_digits :: "nat \<Rightarrow> string \<Rightarrow> nat option" where
  "parse_digits n [] = Some n"
| "parse_digits n (c # s) = (let d = of_char c in if 48 \<le> d \<and> d \<le> 57 then parse_digits (10 * n + (d - 48)) s else None)"

definition ParseInt :: "string \<Rightarrow> int option" where
  "ParseInt s =
    (case s of
       [] \<Rightarrow> None
     | c # r \<Rightarrow>
         let neg = (c = CHR ''-''); ds = (if c = CHR ''+'' \<or> c = CHR ''-'' then r else s) in
         if ds = [] then None
         else (case parse_digits 0 ds of
                None \<Rightarrow> None
              | Some n \<Rightarrow> if neg then (if n \<le> 2 ^ 63 then Some (- int n) else None)
                          else if n < 2 ^ 63 then Some (int n) else None))"

definition HttpHeaderGetInt64 :: "http_header \<Rightarrow> string \<Rightarrow> int" where
  "HttpHeaderGetInt64 h key =
    (let str = Header_Get h key in if str = [] then 0 else case ParseInt str of Some v \<Rightarrow> v | None \<Rightarrow> 0)"


section \<open>The upgrade\<close>

record http_request =
  rq_Method :: string
  rq_Header :: http_header
  rq_Host :: string

record Upgrader =
  up_Subprotocols :: "string list option"
  up_CheckOrigin :: "(http_request \<Rightarrow> bool) option"

datatype hs_err = HandshakeError string | hsWrite io_err | hsWs ws_err | hsRequest string | hsCallback string

definition returnError :: "'c gnetConn \<Rightarrow> http_status \<Rightarrow> string \<Rightarrow> 'c \<Rightarrow> hs_err option \<times> 'c" where
  "returnError io status reason c = (Some (HandshakeError reason), ReplyHttpError io status reason c)"

text \<open>\<open>urlHost\<close> is the host of a URL, or \<open>None\<close> when \<open>url.Parse\<close> fails.\<close>

definition checkSameOrigin :: "(string \<Rightarrow> string option) \<Rightarrow> http_request \<Rightarrow> bool" where
  "checkSameOrigin urlHost r =
    (case rq_Header r ''Origin'' of
       [] \<Rightarrow> True
     | ov # _ \<Rightarrow> (case urlHost ov of None \<Rightarrow> False | Some host \<Rightarrow> equalASCIIFold host (rq_Host r)))"

definition isValidChallengeKey :: "string \<Rightarrow> bool" where
  "isValidChallengeKey s =
    (if s = [] then False else case DecodeString s of None \<Rightarrow> False | Some decoded \<Rightarrow> length decoded = 16)"

definition webSocketKeyMagic :: string where
  "webSocketKeyMagic = ''258EAFA5-E914-47DA-95CA-C5AB0DC85B11''"

definition computeAcceptKey :: "string \<Rightarrow> string" where
  "computeAcceptKey challengeKey = EncodeToString (sha1_sum (str_bytes challengeKey @ str_bytes webSocketKeyMagic))"

definition badHandshake :: string where
  "badHandshake = ''websocket: the client is not using the websocket protocol: ''"

definition accept_response :: "string \<Rightarrow> string" where
  "accept_response challengeKey =
    ''HTTP/1.1 101 Switching Protocols'' @ CRLF @ ''Upgrade: websocket'' @ CRLF @ ''Connection: Upgrade'' @ CRLF
      @ ''Sec-WebSocket-Accept: '' @ computeAcceptKey challengeKey @ CRLF @ CRLF"

definition Upgrade :: "'c gnetConn \<Rightarrow> (string \<Rightarrow> string option) \<Rightarrow> Upgrader \<Rightarrow> http_request \<Rightarrow> (string \<rightharpoonup> string list) \<Rightarrow> 'c
    \<Rightarrow> hs_err option \<times> 'c" where
  "Upgrade io urlHost u r responseHeader c =
    (if rq_Method r \<noteq> ''GET''
     then returnError io StatusMethodNotAllowed (badHandshake @ ''request method is not GET'') c
     else if \<not> tokenListContainsValue (rq_Header r) ''Connection'' ''upgrade''
     then returnError io StatusBadRequest (badHandshake @ [CHR 0x27] @ ''upgrade'' @ [CHR 0x27] @ '' token not found in '' @ [CHR 0x27] @ ''Connection'' @ [CHR 0x27] @ '' header'') c
     else if \<not> tokenListContainsValue (rq_Header r) ''Upgrade'' ''websocket''
     then returnError io StatusBadRequest (badHandshake @ [CHR 0x27] @ ''websocket'' @ [CHR 0x27] @ '' token not found in '' @ [CHR 0x27] @ ''Upgrade'' @ [CHR 0x27] @ '' header'') c
     else if \<not> tokenListContainsValue (rq_Header r) ''Sec-Websocket-Version'' ''13''
     then returnError io StatusBadRequest (''websocket: unsupported version: 13 not found in '' @ [CHR 0x27] @ ''Sec-Websocket-Version'' @ [CHR 0x27] @ '' header'') c
     else if responseHeader ''Sec-Websocket-Extensions'' \<noteq> None
     then returnError io StatusInternalServerError
            (''websocket: application specific '' @ [CHR 0x27] @ ''Sec-WebSocket-Extensions'' @ [CHR 0x27] @ '' headers are unsupported'') c
     else if \<not> (case up_CheckOrigin u of None \<Rightarrow> checkSameOrigin urlHost r | Some check \<Rightarrow> check r)
     then returnError io StatusForbidden ''websocket: request origin not allowed by Upgrader.CheckOrigin'' c
     else let challengeKey = Header_Get (rq_Header r) ''Sec-Websocket-Key'' in
       if \<not> isValidChallengeKey challengeKey
       then returnError io StatusBadRequest
              (''websocket: not a websocket handshake: '' @ [CHR 0x27] @ ''Sec-WebSocket-Key'' @ [CHR 0x27] @ '' header must be Base64 encoded value of 16-byte in length'') c
       else (case g_Write io (str_bytes (accept_response challengeKey)) c of (err, c1) \<Rightarrow> (map_option hsWrite err, c1)))"



section \<open>The handshake\<close>

text \<open>What the handshake uses besides the connection: \<open>InboundBuffered\<close>, \<open>Peek(-1)\<close>, \<open>http.ReadRequest\<close> on a byte string, giving the
  request and the number of bytes left in the reader, and the host of a URL.\<close>

record 'c hsEnv =
  he_io :: "'c gnetConn"
  he_buffered :: "'c \<Rightarrow> int"
  he_PeekAll :: "'c \<Rightarrow> io_err + bytes"
  he_ReadRequest :: "bytes \<Rightarrow> string + (http_request \<times> nat)"
  he_urlHost :: "string \<Rightarrow> string option"

record ServerOptions =
  so_MaxHandshakeLen :: int
  so_MaxPayloadSize :: int
  so_HandshakeTimeout :: int
  so_MaxHandshakingSize :: int
  so_Upgrader :: "Upgrader option"
  so_OnHandshake :: "(http_request \<Rightarrow> string option) option"

definition maxHandshakeLen :: int where "maxHandshakeLen = 2 ^ 20"
definition maxPayloadSize :: int where "maxPayloadSize = 64 * 2 ^ 20"
definition maxHandshakingSize :: int where "maxHandshakingSize = 1024"

text \<open>The defaults that \<open>NewServer\<close> fills in.\<close>

definition NewServer_options :: "ServerOptions \<Rightarrow> ServerOptions" where
  "NewServer_options opt =
    opt\<lparr>so_Upgrader := (case so_Upgrader opt of None \<Rightarrow> Some \<lparr>up_Subprotocols = None, up_CheckOrigin = Some (\<lambda>r. True)\<rparr> | Some u \<Rightarrow> Some u),
        so_MaxHandshakeLen := (if so_MaxHandshakeLen opt \<le> 0 then maxHandshakeLen else so_MaxHandshakeLen opt),
        so_MaxPayloadSize := (if so_MaxPayloadSize opt \<le> 0 then maxPayloadSize else so_MaxPayloadSize opt),
        so_MaxHandshakingSize := (if so_MaxHandshakingSize opt \<le> 0 then maxHandshakingSize else so_MaxHandshakingSize opt)\<rparr>"

fun has_crlf :: "bytes \<Rightarrow> bool" where
  "has_crlf [] = False"
| "has_crlf (b # bs) = (take 4 (b # bs) = [0x0D, 0x0A, 0x0D, 0x0A] \<or> has_crlf bs)"

text \<open>\<open>handshake\<close>, up to the removal of the timeout node, which \<open>Ws_Timeout\<close> models.\<close>

definition handshake :: "'c hsEnv \<Rightarrow> ServerOptions \<Rightarrow> Conn \<Rightarrow> 'c \<Rightarrow> hs_err option \<times> Conn \<times> 'c" where
  "handshake env opt conn c =
    (if he_buffered env c > so_MaxHandshakeLen opt then (Some (hsWs errHandshakeDataTooLarge), conn, c)
     else (case he_PeekAll env c of
       Inl e \<Rightarrow> (if e = ErrShortBuffer then None else Some (hsWs (errIO e)), conn, c)
     | Inr datas \<Rightarrow>
         if \<not> has_crlf datas then (None, conn, c)
         else let c1 = g_Discard (he_io env) (int (length datas)) c in
           (case he_ReadRequest env datas of
             Inl e \<Rightarrow> (Some (hsRequest e), conn, ReplyHttpError (he_io env) StatusBadRequest e c1)
           | Inr (req, buffered) \<Rightarrow>
               if buffered > 0
               then (Some (hsWs errHandshakeSendFrameData), conn,
                     ReplyHttpError (he_io env) StatusBadRequest (ws_err_msg errHandshakeSendFrameData) c1)
               else (case Upgrade (he_io env) (he_urlHost env) (the (so_Upgrader opt)) req Map.empty c1 of
                      (Some e, c2) \<Rightarrow> (Some e, conn, c2)
                    | (None, c2) \<Rightarrow>
                        let conn1 = conn\<lparr>cn_isUpgrade := True\<rparr> in
                        (case so_OnHandshake opt of
                           None \<Rightarrow> (None, conn1, c2)
                         | Some cb \<Rightarrow> (map_option hsCallback (cb req), conn1, c2))))))"


section \<open>Correctness of the codecs\<close>

lemma b64_val_char: "n < 64 \<Longrightarrow> b64_val (b64_char n) = Some n"
  by (auto simp: b64_char_def b64_val_def Let_def)

lemma b64_char_plain: "n < 64 \<Longrightarrow> b64_char n \<noteq> CHR ''='' \<and> b64_char n \<noteq> CHR 0x0A \<and> b64_char n \<noteq> CHR 0x0D"
proof -
  have "b64_val (CHR ''='') = None" "b64_val (CHR 0x0A) = None" "b64_val (CHR 0x0D) = None" by (simp_all add: b64_val_def)
  then show "n < 64 \<Longrightarrow> ?thesis" by (metis b64_val_char option.distinct(1))
qed

lemma byte_lt [simp]: "unat (a :: byte) < 256"
  using unsigned_less [of a, where 'a = nat] by simp

lemma byte_of_unat: "word_of_nat (unat (a :: byte)) = a"
  by simp

lemma sextets:
  fixes a b c :: byte
  shows "unat a div 4 < 64" "unat a mod 4 * 16 < 64" "unat a mod 4 * 16 + unat b div 16 < 64"
    "unat b mod 16 * 4 < 64" "unat b mod 16 * 4 + unat c div 64 < 64" "unat c mod 64 < 64"
  using byte_lt [of a] byte_lt [of b] byte_lt [of c] by linarith+

lemma joins:
  "(x :: nat) div 4 * 4 + x mod 4 * 16 div 16 = x" "y < 256 \<Longrightarrow> x div 4 * 4 + (x mod 4 * 16 + y div 16) div 16 = x"
  "y < 256 \<Longrightarrow> (x mod 4 * 16 + y div 16) mod 16 * 16 + y mod 16 * 4 div 4 = y"
  "y < 256 \<Longrightarrow> z < 256 \<Longrightarrow> (x mod 4 * 16 + y div 16) mod 16 * 16 + (y mod 16 * 4 + z div 64) div 4 = y"
  "z < 256 \<Longrightarrow> (y mod 16 * 4 + z div 64) mod 4 * 64 + z mod 64 = z"
proof -
  have q: "(a * 16 + y div 16) div 16 = a" "(a * 16 + y div 16) mod 16 = y div 16" if "y < 256" for a y :: nat
    using that less_mult_imp_div_less [of y 16 16] by simp_all
  have p: "(a * 4 + z div 64) div 4 = a" "(a * 4 + z div 64) mod 4 = z div 64" if "z < 256" for a z :: nat
    using that less_mult_imp_div_less [of z 4 64] by simp_all
  show "x div 4 * 4 + x mod 4 * 16 div 16 = x" by simp
  show "x div 4 * 4 + (x mod 4 * 16 + y div 16) div 16 = x" if "y < 256" using q(1) [OF that] by simp
  show "(x mod 4 * 16 + y div 16) mod 16 * 16 + y mod 16 * 4 div 4 = y" if "y < 256" using q(2) [OF that] by simp
  show "(x mod 4 * 16 + y div 16) mod 16 * 16 + (y mod 16 * 4 + z div 64) div 4 = y" if "y < 256" "z < 256"
    using q(2) [OF that(1)] p(1) [OF that(2)] by simp
  show "(y mod 16 * 4 + z div 64) mod 4 * 64 + z mod 64 = z" if "z < 256" using p(2) [OF that] by simp
qed

lemma encode_no_breaks: "List.filter (\<lambda>c. c \<noteq> CHR 0x0A \<and> c \<noteq> CHR 0x0D) (EncodeToString bs) = EncodeToString bs"
  by (induction bs rule: EncodeToString.induct) (simp_all add: b64_char_plain sextets)

lemma decode_quad:
  assumes "b64_val a = Some x" "b64_val b = Some y"
  shows "decode_quads [a, b, CHR ''='', CHR ''=''] = Some [word_of_nat (x * 4 + y div 16)]"
    and "b64_val c = Some z \<Longrightarrow> c \<noteq> CHR ''='' \<Longrightarrow>
      decode_quads [a, b, c, CHR ''=''] = Some [word_of_nat (x * 4 + y div 16), word_of_nat (y mod 16 * 16 + z div 4)]"
    and "b64_val c = Some z \<Longrightarrow> c \<noteq> CHR ''='' \<Longrightarrow> b64_val d = Some u \<Longrightarrow> d \<noteq> CHR ''='' \<Longrightarrow> decode_quads r = Some bs \<Longrightarrow>
      decode_quads (a # b # c # d # r)
      = Some ([word_of_nat (x * 4 + y div 16), word_of_nat (y mod 16 * 16 + z div 4), word_of_nat (z mod 4 * 64 + u)] @ bs)"
  using assms by (simp_all del: of_nat_add of_nat_mult)

lemmas b64_back = b64_val_char [OF sextets(1)] b64_val_char [OF sextets(2)] b64_val_char [OF sextets(3)]
  b64_val_char [OF sextets(4)] b64_val_char [OF sextets(5)] b64_val_char [OF sextets(6)]

lemmas b64_not_pad = b64_char_plain [OF sextets(4), THEN conjunct1] b64_char_plain [OF sextets(5), THEN conjunct1]
  b64_char_plain [OF sextets(6), THEN conjunct1]

lemmas byte_joins = joins(1) joins(2) [OF byte_lt] joins(3) [OF byte_lt] joins(4) [OF byte_lt byte_lt] joins(5) [OF byte_lt] byte_of_unat

lemma base64_roundtrip: "DecodeString (EncodeToString bs) = Some bs"
proof -
  have "decode_quads (EncodeToString bs) = Some bs"
  proof (induction bs rule: EncodeToString.induct)
    case (2 a)
    show ?case unfolding EncodeToString.simps decode_quad(1) [OF b64_back(1,2)] byte_joins ..
  next
    case (3 a b)
    show ?case unfolding EncodeToString.simps decode_quad(2) [OF b64_back(1,3,4) b64_not_pad(1)] byte_joins ..
  next
    case (4 a b c r)
    show ?case
      unfolding EncodeToString.simps append_Cons append_Nil decode_quad(3) [OF b64_back(1,3,5) b64_not_pad(2) b64_back(6) b64_not_pad(3) 4] byte_joins ..
  qed simp
  then show ?thesis by (simp add: DecodeString_def encode_no_breaks)
qed

lemma encode_length: "length (EncodeToString bs) = 4 * ((length bs + 2) div 3)"
proof (induction bs rule: EncodeToString.induct)
  case (4 a b c r)
  have "(length (a # b # c # r) + 2) div 3 = Suc ((length r + 2) div 3)" by simp
  with 4 show ?case by simp
qed simp_all

lemma sha1_length: "length (sha1_sum m) = 20"
  by (simp add: sha1_sum_def Let_def split: prod.split)

lemma parse_digits_append: "parse_digits n (s @ t) = (case parse_digits n s of None \<Rightarrow> None | Some m \<Rightarrow> parse_digits m t)"
  by (induction s arbitrary: n) (simp_all add: Let_def)

lemma char_of_digit: "d < 10 \<Longrightarrow> of_char (char_of (48 + d :: nat) :: char) = 48 + (d :: nat)"
  by simp

lemma parse_Itoa: "parse_digits 0 (Itoa n) = Some n"
proof (induction n rule: Itoa.induct)
  case (1 n)
  show ?case
  proof (cases "n < 10")
    case True
    then show ?thesis by (simp add: Itoa.simps [of n] Let_def char_of_digit)
  next
    case False
    have "n mod 10 < 10" by simp
    with False 1 show ?thesis by (simp add: Itoa.simps [of n] parse_digits_append Let_def char_of_digit)
  qed
qed

lemma Itoa_head: "Itoa n \<noteq> [] \<and> 48 \<le> (of_char (hd (Itoa n)) :: nat)"
proof (induction n rule: Itoa.induct)
  case (1 n)
  then show ?case by (cases "n < 10") (simp_all add: Itoa.simps [of n])
qed

definition print_int :: "int \<Rightarrow> string" where
  "print_int v = (if v < 0 then CHR ''-'' # Itoa (nat (- v)) else Itoa (nat v))"

lemma ParseInt_print: "- (2 ^ 63) \<le> v \<Longrightarrow> v < 2 ^ 63 \<Longrightarrow> ParseInt (print_int v) = Some v"
proof (cases "v < 0")
  case True
  assume "- (2 ^ 63) \<le> v"
  then have "nat (- v) \<le> 2 ^ 63" by simp
  then show ?thesis using True Itoa_head [of "nat (- v)"] by (simp add: ParseInt_def print_int_def parse_Itoa)
next
  case False
  assume v: "v < 2 ^ 63"
  obtain c r where c: "Itoa (nat v) = c # r" using Itoa_head [of "nat v"] by (cases "Itoa (nat v)") auto
  then have "48 \<le> (of_char c :: nat)" using Itoa_head [of "nat v"] by simp
  then have "c \<noteq> CHR ''+''" "c \<noteq> CHR ''-''" by auto
  moreover have "parse_digits 0 (c # r) = Some (nat v)" using parse_Itoa [of "nat v"] c by simp
  moreover have "nat v < 2 ^ 63" using v False by (simp add: nat_less_iff)
  ultimately show ?thesis using False by (simp add: ParseInt_def print_int_def c del: parse_digits.simps)
qed

text \<open>A 64-bit integer that a client prints in decimal into a header is read back as itself.\<close>

theorem header_int_roundtrip:
  assumes "h key = print_int v # vs" "- (2 ^ 63) \<le> v" "v < 2 ^ 63"
  shows "HttpHeaderGetInt64 h key = v"
proof -
  have "print_int v \<noteq> []" using Itoa_head [of "nat v"] by (simp add: print_int_def)
  then show ?thesis using ParseInt_print [OF assms(2,3)] by (simp add: HttpHeaderGetInt64_def Header_Get_def assms(1))
qed

theorem header_int_roundtrip_witness:
  "HttpHeaderGetInt64 (\<lambda>k. [''-42'']) ''X-Id'' = - 42"
proof -
  have "print_int (- 42) = ''-42''" by code_simp
  then show ?thesis using header_int_roundtrip [where h = "\<lambda>k. [''-42'']" and key = "''X-Id''" and v = "- 42" and vs = "[]"] by simp
qed


section \<open>Correctness of the handshake\<close>

definition has_token :: "(string \<times> string \<times> string) list list \<Rightarrow> string \<Rightarrow> bool" where
  "has_token lsts v \<longleftrightarrow> (\<exists>l \<in> set lsts. \<exists>t \<in> set (map (fst \<circ> snd) l). map lower t = map lower v)"

definition origin_ok :: "(string \<Rightarrow> string option) \<Rightarrow> Upgrader \<Rightarrow> http_request \<Rightarrow> bool" where
  "origin_ok urlHost u r \<longleftrightarrow> (case up_CheckOrigin u of None \<Rightarrow> checkSameOrigin urlHost r | Some check \<Rightarrow> check r)"

definition valid_request :: "(string \<Rightarrow> string option) \<Rightarrow> Upgrader \<Rightarrow> http_request \<Rightarrow> bool" where
  "valid_request urlHost u r \<longleftrightarrow>
     rq_Method r = ''GET'' \<and> tokenListContainsValue (rq_Header r) ''Connection'' ''upgrade''
   \<and> tokenListContainsValue (rq_Header r) ''Upgrade'' ''websocket'' \<and> tokenListContainsValue (rq_Header r) ''Sec-Websocket-Version'' ''13''
   \<and> origin_ok urlHost u r \<and> isValidChallengeKey (Header_Get (rq_Header r) ''Sec-Websocket-Key'')"

lemma upgrade_valid:
  "valid_request urlHost u r \<Longrightarrow> rh ''Sec-Websocket-Extensions'' = None \<Longrightarrow>
   Upgrade io urlHost u r rh c =
     (case g_Write io (str_bytes (accept_response (Header_Get (rq_Header r) ''Sec-Websocket-Key''))) c of (err, c1) \<Rightarrow> (map_option hsWrite err, c1))"
  by (simp add: valid_request_def origin_ok_def Upgrade_def Let_def)

lemma upgrade_invalid:
  "\<not> valid_request urlHost u r \<Longrightarrow> \<exists>status reason. Upgrade io urlHost u r rh c = (Some (HandshakeError reason), ReplyHttpError io status reason c)"
  by (auto simp: valid_request_def origin_ok_def Upgrade_def returnError_def Let_def)

lemma challenge_key_encoded: "nonce \<noteq> [] \<Longrightarrow> isValidChallengeKey (EncodeToString nonce) \<longleftrightarrow> length nonce = 16"
proof -
  assume "nonce \<noteq> []"
  then have "EncodeToString nonce \<noteq> []" by (cases nonce rule: EncodeToString.cases) simp_all
  then show ?thesis by (simp add: isValidChallengeKey_def base64_roundtrip)
qed

lemma ascii_values: "list_all (\<lambda>c. of_char c < (128 :: nat)) ''upgrade''" "list_all (\<lambda>c. of_char c < (128 :: nat)) ''websocket''"
  "list_all (\<lambda>c. of_char c < (128 :: nat)) ''13''"
  by simp_all

lemma token_found:
  "header name = map comma_list lsts \<Longrightarrow> list_all (\<lambda>l. l \<noteq> [] \<and> list_all item_ok l) lsts \<Longrightarrow> list_all (\<lambda>c. of_char c < (128 :: nat)) v
   \<Longrightarrow> has_token lsts v \<Longrightarrow> tokenListContainsValue header name v"
  unfolding has_token_def by (rule token_list_spec [THEN iffD2])

lemma valid_requestI:
  assumes "rq_Method r = ''GET''" "origin_ok urlHost u r" "length nonce = 16"
    and "rq_Header r ''Connection'' = map comma_list cl" "rq_Header r ''Upgrade'' = map comma_list ul"
      "rq_Header r ''Sec-Websocket-Version'' = map comma_list vl"
    and "list_all (\<lambda>l. l \<noteq> [] \<and> list_all item_ok l) (cl @ ul @ vl)" "has_token cl ''upgrade''" "has_token ul ''websocket''" "has_token vl ''13''"
    and "Header_Get (rq_Header r) ''Sec-Websocket-Key'' = EncodeToString nonce"
  shows "valid_request urlHost u r"
proof -
  have l: "list_all (\<lambda>l. l \<noteq> [] \<and> list_all item_ok l) cl" "list_all (\<lambda>l. l \<noteq> [] \<and> list_all item_ok l) ul"
    "list_all (\<lambda>l. l \<noteq> [] \<and> list_all item_ok l) vl" using assms(7) by simp_all
  have "nonce \<noteq> []" using assms(3) by auto
  then have "isValidChallengeKey (Header_Get (rq_Header r) ''Sec-Websocket-Key'')" using assms(3,11) challenge_key_encoded by simp
  moreover have "tokenListContainsValue (rq_Header r) ''Connection'' ''upgrade''" using assms(4) l(1) ascii_values(1) assms(8) by (rule token_found)
  moreover have "tokenListContainsValue (rq_Header r) ''Upgrade'' ''websocket''" using assms(5) l(2) ascii_values(2) assms(9) by (rule token_found)
  moreover have "tokenListContainsValue (rq_Header r) ''Sec-Websocket-Version'' ''13''" using assms(6) l(3) ascii_values(3) assms(10) by (rule token_found)
  ultimately show ?thesis using assms(1,2) by (simp add: valid_request_def)
qed


definition demo_request :: http_request where
  "demo_request = \<lparr>rq_Method = ''GET'',
     rq_Header = (\<lambda>n. if n = ''Connection'' then [''keep-alive, Upgrade''] else if n = ''Upgrade'' then [''websocket'']
        else if n = ''Sec-Websocket-Version'' then [''13''] else if n = ''Sec-Websocket-Key'' then [EncodeToString (replicate 16 7)] else []),
     rq_Host = ''example.org''\<rparr>"

definition demo_env :: "bytes hsEnv" where
  "demo_env = \<lparr>he_io = buf_conn, he_buffered = int \<circ> length, he_PeekAll = Inr, he_ReadRequest = (\<lambda>d. Inr (demo_request, 0)), he_urlHost = (\<lambda>s. None)\<rparr>"

definition demo_options :: ServerOptions where
  "demo_options = NewServer_options \<lparr>so_MaxHandshakeLen = 0, so_MaxPayloadSize = 0, so_HandshakeTimeout = 0, so_MaxHandshakingSize = 0,
     so_Upgrader = None, so_OnHandshake = None\<rparr>"

lemmas demo_hs_defs = demo_env_def demo_options_def demo_request_def NewServer_options_def maxHandshakeLen_def buf_conn_def


text \<open>C15: a connection is upgraded only by a request that follows the protocol. If a handshake leaves a fresh connection upgraded,
  then the waiting bytes were within the limit, the parser took them as one request with nothing left over, and that request
  uses GET, names the tokens, passes the origin check and carries a key of 16 bytes; in every other case an upgrade is
  refused and the connection stays as it was.\<close>

theorem handshake_upgrades_only_valid:
  assumes "handshake env opt conn c = (err, conn', c')" "\<not> cn_isUpgrade conn"
  shows "if cn_isUpgrade conn'
    then \<exists>datas r nonce. he_PeekAll env c = Inr datas \<and> he_buffered env c \<le> so_MaxHandshakeLen opt \<and> has_crlf datas
       \<and> he_ReadRequest env datas = Inr (r, 0) \<and> valid_request (he_urlHost env) (the (so_Upgrader opt)) r
       \<and> DecodeString (Header_Get (rq_Header r) ''Sec-Websocket-Key'') = Some nonce \<and> length nonce = 16
       \<and> c' = snd (g_Write (he_io env) (str_bytes (accept_response (Header_Get (rq_Header r) ''Sec-Websocket-Key''))) (g_Discard (he_io env) (int (length datas)) c))
    else conn' = conn"
proof (cases "cn_isUpgrade conn'")
  case True
  obtain datas where d: "he_PeekAll env c = Inr datas" "he_buffered env c \<le> so_MaxHandshakeLen opt" "has_crlf datas"
    using assms True by (auto simp: handshake_def split: if_splits sum.splits)
  obtain r where r: "he_ReadRequest env datas = Inr (r, 0)"
    using assms True d by (auto simp: handshake_def Let_def split: if_splits sum.splits prod.splits)
  let ?c1 = "g_Discard (he_io env) (int (length datas)) c"
  let ?up = "Upgrade (he_io env) (he_urlHost env) (the (so_Upgrader opt)) r Map.empty ?c1"
  have up: "fst ?up = None" "c' = snd ?up"
    using assms True d r by (auto simp: handshake_def Let_def split: prod.splits option.splits)
  have v: "valid_request (he_urlHost env) (the (so_Upgrader opt)) r"
  proof (rule ccontr)
    assume "\<not> valid_request (he_urlHost env) (the (so_Upgrader opt)) r"
    from upgrade_invalid [OF this, of "he_io env" Map.empty ?c1] up(1) show False by auto
  qed
  then have "isValidChallengeKey (Header_Get (rq_Header r) ''Sec-Websocket-Key'')" by (simp add: valid_request_def)
  then obtain nonce where n: "DecodeString (Header_Get (rq_Header r) ''Sec-Websocket-Key'') = Some nonce" "length nonce = 16"
    by (auto simp: isValidChallengeKey_def split: if_splits option.splits)
  show ?thesis using True d r v n up(2) by (auto simp: upgrade_valid split: prod.splits)
next
  case False
  then show ?thesis using assms by (auto simp: handshake_def Let_def split: if_splits sum.splits prod.splits option.splits)
qed

theorem handshake_upgrades_only_valid_witness:
  "\<exists>conn' c'. handshake demo_env demo_options newConn [1] = (None, conn', c') \<and> conn' = newConn"
proof -
  have "handshake demo_env demo_options newConn [1] = (None, newConn, [1])" by (simp add: handshake_def demo_hs_defs)
  moreover have "\<not> cn_isUpgrade newConn" by (simp add: newConn_def)
  ultimately show ?thesis using handshake_upgrades_only_valid [of demo_env demo_options newConn "[1]" None newConn "[1]"] by simp
qed

end
