(* ===== verification/Static_List.thy ===== *)
theory Static_List
  imports Prelude
begin

text \<open>
  The slot pool of \<open>src/ds/staticlist/staticlist.go\<close>: an array of nodes whose unused ones form a free
  list through their \<open>Next\<close> fields. A pointer to a node or to its data is the node's index; the
  two operations that recover an index from a raw address are modelled on 64-bit addresses.
\<close>

section \<open>The pool\<close>

record 'a SNode =
  sn_Data :: 'a
  sn_Next :: int

record 'a StaticList =
  pl_datas :: "'a SNode list"
  pl_free :: int
  pl_zero :: 'a

definition Null :: int where
  "Null = -1"

text \<open>\<open>list.datas[p]\<close>.\<close>

definition slot_at :: "'a StaticList \<Rightarrow> int \<Rightarrow> 'a SNode go" where
  "slot_at list p = (if 0 \<le> p \<and> p < int (length (pl_datas list)) then Inr (pl_datas list ! nat p) else Inl IndexRange)"

definition put_slot :: "int \<Rightarrow> 'a SNode \<Rightarrow> 'a StaticList \<Rightarrow> 'a StaticList" where
  "put_slot p s list = list\<lparr>pl_datas := (pl_datas list)[nat p := s]\<rparr>"

text \<open>\<open>Reset\<close>: the loop covers all but the last slot, whose data it leaves as they are.\<close>

definition StaticList_Reset :: "'a StaticList \<Rightarrow> 'a StaticList go" where
  "StaticList_Reset list =
    (let sz = length (pl_datas list);
         datas = map (\<lambda>i. if i < sz - 1 then \<lparr>sn_Data = pl_zero list, sn_Next = int i + 1\<rparr> else pl_datas list ! i) [0 ..< sz]
     in if sz = 0 then Inl IndexRange
        else Inr (list\<lparr>pl_datas := datas[sz - 1 := (datas ! (sz - 1))\<lparr>sn_Next := Null\<rparr>], pl_free := 0\<rparr>))"

definition NewStaticList :: "'a \<Rightarrow> int \<Rightarrow> 'a StaticList go" where
  "NewStaticList zero sz =
    (if sz < 0 then Inl SliceBounds
     else StaticList_Reset \<lparr>pl_datas = replicate (nat sz) \<lparr>sn_Data = zero, sn_Next = 0\<rparr>, pl_free = 0, pl_zero = zero\<rparr>)"

definition Malloc :: "'a StaticList \<Rightarrow> (int \<times> 'a StaticList) go" where
  "Malloc list =
    (let p = pl_free list in
     if p \<noteq> Null
     then go_bind (slot_at list p) (\<lambda>slot.
            Inr (p, put_slot p (slot\<lparr>sn_Next := Null\<rparr>) (list\<lparr>pl_free := sn_Next slot\<rparr>)))
     else Inr (p, list))"

definition Free :: "int \<Rightarrow> 'a StaticList \<Rightarrow> 'a StaticList go" where
  "Free p list =
    go_bind (slot_at list p) (\<lambda>node.
      Inr (put_slot p \<lparr>sn_Data = pl_zero list, sn_Next = pl_free list\<rparr> (list\<lparr>pl_free := p\<rparr>)))"

definition GetNode :: "int \<Rightarrow> 'a StaticList \<Rightarrow> nat go" where
  "GetNode p list = go_bind (slot_at list p) (\<lambda>_. Inr (nat p))"

definition GetDataValue :: "int \<Rightarrow> 'a StaticList \<Rightarrow> 'a go" where
  "GetDataValue p list = go_bind (slot_at list p) (\<lambda>node. Inr (sn_Data node))"

definition SetDataValue :: "int \<Rightarrow> 'a \<Rightarrow> 'a StaticList \<Rightarrow> 'a StaticList go" where
  "SetDataValue p val list = go_bind (slot_at list p) (\<lambda>node. Inr (put_slot p (node\<lparr>sn_Data := val\<rparr>) list))"

definition GetDataPointer :: "int \<Rightarrow> 'a StaticList \<Rightarrow> nat go" where
  "GetDataPointer p list = go_bind (slot_at list p) (\<lambda>_. Inr (nat p))"

text \<open>Recovering an index from an address: \<open>base\<close> is the address of the first slot and \<open>elemSize\<close> the
  size of a slot, whose first field is the data.\<close>

definition SafeGetDataIndex :: "u64 \<Rightarrow> u64 \<Rightarrow> u64 option \<Rightarrow> 'a StaticList \<Rightarrow> int" where
  "SafeGetDataIndex base elemSize dataPtr list =
    (case dataPtr of
       None \<Rightarrow> -1
     | Some target \<Rightarrow>
         if pl_datas list = [] then -1
         else let limit = base + of_nat (length (pl_datas list)) * elemSize
              in if target < base \<or> target \<ge> limit then -1
                 else let offset = target - base
                      in if offset mod elemSize \<noteq> 0 then -1
                         else let index = offset div elemSize
                              in if base + index * elemSize \<noteq> target then -1 else sint index)"

definition MustGetDataIndex :: "u64 \<Rightarrow> u64 \<Rightarrow> u64 \<Rightarrow> 'a StaticList \<Rightarrow> int go" where
  "MustGetDataIndex base elemSize addr list =
    (if pl_datas list = [] then Inl IndexRange else Inr (sint ((addr - base) div elemSize)))"


section \<open>The free list\<close>

fun free_path :: "'a SNode list \<Rightarrow> int \<Rightarrow> nat list \<Rightarrow> bool" where
  "free_path datas p [] = (p = Null)"
| "free_path datas p (a # as) = (p = int a \<and> a < length datas \<and> free_path datas (sn_Next (datas ! a)) as)"

definition free_ok :: "'a StaticList \<Rightarrow> nat list \<Rightarrow> bool" where
  "free_ok list fs \<longleftrightarrow> distinct fs \<and> free_path (pl_datas list) (pl_free list) fs"

lemma free_path_cong:
  "length datas' = length datas \<Longrightarrow> \<forall>a \<in> set fs. sn_Next (datas' ! a) = sn_Next (datas ! a) \<Longrightarrow>
     free_path datas p fs \<Longrightarrow> free_path datas' p fs"
  by (induction fs arbitrary: p) auto

lemma free_path_less: "free_path datas p fs \<Longrightarrow> a \<in> set fs \<Longrightarrow> a < length datas"
  by (induction fs arbitrary: p) auto

lemma free_ok_less: "free_ok list fs \<Longrightarrow> a \<in> set fs \<Longrightarrow> a < length (pl_datas list)"
  by (auto simp: free_ok_def dest: free_path_less)

lemma Malloc_full: "free_ok list [] \<Longrightarrow> Malloc list = Inr (Null, list)"
  by (simp add: free_ok_def Malloc_def)

lemma Malloc_slot:
  assumes "free_ok list (a # as)"
  shows "Malloc list = Inr (int a, put_slot (int a) ((pl_datas list ! a)\<lparr>sn_Next := Null\<rparr>)
      (list\<lparr>pl_free := sn_Next (pl_datas list ! a)\<rparr>))"
    and "free_ok (put_slot (int a) ((pl_datas list ! a)\<lparr>sn_Next := Null\<rparr>) (list\<lparr>pl_free := sn_Next (pl_datas list ! a)\<rparr>)) as"
proof -
  have f: "pl_free list = int a" "a < length (pl_datas list)" "a \<notin> set as" "distinct as"
    "free_path (pl_datas list) (sn_Next (pl_datas list ! a)) as"
    using assms by (auto simp: free_ok_def)
  show "Malloc list = Inr (int a, put_slot (int a) ((pl_datas list ! a)\<lparr>sn_Next := Null\<rparr>)
      (list\<lparr>pl_free := sn_Next (pl_datas list ! a)\<rparr>))"
    using f by (simp add: Malloc_def Let_def slot_at_def Null_def)
  have "\<forall>b \<in> set as. sn_Next ((pl_datas list)[a := (pl_datas list ! a)\<lparr>sn_Next := Null\<rparr>] ! b) = sn_Next (pl_datas list ! b)"
    using f(3) by (metis nth_list_update_neq)
  from free_path_cong [OF _ this f(5)] f(4)
  show "free_ok (put_slot (int a) ((pl_datas list ! a)\<lparr>sn_Next := Null\<rparr>) (list\<lparr>pl_free := sn_Next (pl_datas list ! a)\<rparr>)) as"
    by (simp add: free_ok_def put_slot_def)
qed

lemma Free_slot:
  assumes "free_ok list fs" and "a < length (pl_datas list)" and "a \<notin> set fs"
  shows "Free (int a) list = Inr (put_slot (int a) \<lparr>sn_Data = pl_zero list, sn_Next = pl_free list\<rparr> (list\<lparr>pl_free := int a\<rparr>))"
    and "free_ok (put_slot (int a) \<lparr>sn_Data = pl_zero list, sn_Next = pl_free list\<rparr> (list\<lparr>pl_free := int a\<rparr>)) (a # fs)"
proof -
  show "Free (int a) list = Inr (put_slot (int a) \<lparr>sn_Data = pl_zero list, sn_Next = pl_free list\<rparr> (list\<lparr>pl_free := int a\<rparr>))"
    using assms(2) by (simp add: Free_def slot_at_def)
  have "\<forall>b \<in> set fs. sn_Next ((pl_datas list)[a := \<lparr>sn_Data = pl_zero list, sn_Next = pl_free list\<rparr>] ! b) = sn_Next (pl_datas list ! b)"
    using assms(3) by (metis nth_list_update_neq)
  from free_path_cong [OF _ this] assms
  show "free_ok (put_slot (int a) \<lparr>sn_Data = pl_zero list, sn_Next = pl_free list\<rparr> (list\<lparr>pl_free := int a\<rparr>)) (a # fs)"
    by (simp add: free_ok_def put_slot_def)
qed

lemma free_path_upt:
  "i \<le> n \<Longrightarrow> length datas = n \<Longrightarrow> \<forall>j. i \<le> j \<and> j < n \<longrightarrow> sn_Next (datas ! j) = (if j < n - 1 then int j + 1 else Null) \<Longrightarrow>
     free_path datas (if i < n then int i else Null) [i ..< n]"
proof (induction "n - i" arbitrary: i)
  case (Suc k)
  then have i: "i < n" by simp
  have "free_path datas (if Suc i < n then int (Suc i) else Null) [Suc i ..< n]"
    by (rule Suc.hyps(1)) (use Suc in auto)
  moreover have "sn_Next (datas ! i) = (if Suc i < n then int (Suc i) else Null)"
    using Suc.prems(3) i by (auto simp: less_diff_conv)
  ultimately show ?case using i Suc.prems(2) by (simp add: upt_conv_Cons)
qed simp

lemma Reset_free:
  assumes "pl_datas list \<noteq> []"
  shows "\<exists>list'. StaticList_Reset list = Inr list' \<and> free_ok list' [0 ..< length (pl_datas list)]
    \<and> length (pl_datas list') = length (pl_datas list) \<and> pl_zero list' = pl_zero list
    \<and> (\<forall>i < length (pl_datas list) - 1. sn_Data (pl_datas list' ! i) = pl_zero list)
    \<and> sn_Data (pl_datas list' ! (length (pl_datas list) - 1)) = sn_Data (last (pl_datas list))"
proof -
  let ?n = "length (pl_datas list)"
  define d where "d = map (\<lambda>i. if i < ?n - 1 then \<lparr>sn_Data = pl_zero list, sn_Next = int i + 1\<rparr> else pl_datas list ! i) [0 ..< ?n]"
  define d' where "d' = d[?n - 1 := (d ! (?n - 1))\<lparr>sn_Next := Null\<rparr>]"
  have n: "0 < ?n" using assms by simp
  have len: "length d' = ?n" by (simp add: d'_def d_def)
  have at: "d' ! j = (if j < ?n - 1 then \<lparr>sn_Data = pl_zero list, sn_Next = int j + 1\<rparr> else (pl_datas list ! j)\<lparr>sn_Next := Null\<rparr>)"
    if "j < ?n" for j
    using that n by (auto simp: d'_def d_def nth_list_update)
  have "free_path d' (if 0 < ?n then int 0 else Null) [0 ..< ?n]"
    by (rule free_path_upt) (use len at in auto)
  then have "free_ok (list\<lparr>pl_datas := d', pl_free := 0\<rparr>) [0 ..< ?n]" using n by (simp add: free_ok_def)
  moreover have "StaticList_Reset list = Inr (list\<lparr>pl_datas := d', pl_free := 0\<rparr>)"
    using assms by (simp add: StaticList_Reset_def Let_def d'_def d_def)
  ultimately show ?thesis using len at n assms by (auto simp: last_conv_nth)
qed


section \<open>Properties\<close>

text \<open>Allocation. On a pool with free slots \<open>fs\<close>, \<open>Malloc\<close> hands out the first of them, which was not
  in use, and reports \<open>Null\<close> exactly when there is none; \<open>Free\<close> of a slot in use zeroes its data and
  makes it the next to be handed out; neither touches the data of other slots. \<open>Reset\<close> makes all
  slots free, zeroing all but the last; on an empty pool it panics, and so \<open>NewStaticList\<close> of size
  0 does.\<close>

theorem staticlist_allocates:
  assumes "free_ok list fs"
  shows "(case fs of
       [] \<Rightarrow> Malloc list = Inr (Null, list)
     | a # as \<Rightarrow> \<exists>list'. Malloc list = Inr (int a, list') \<and> free_ok list' as \<and> a \<notin> set as
         \<and> (\<forall>b. sn_Data (pl_datas list' ! b) = sn_Data (pl_datas list ! b)))
    \<and> (a < length (pl_datas list) \<and> a \<notin> set fs \<longrightarrow>
        (\<exists>list'. Free (int a) list = Inr list' \<and> free_ok list' (a # fs) \<and> sn_Data (pl_datas list' ! a) = pl_zero list
          \<and> (\<forall>b. b \<noteq> a \<longrightarrow> pl_datas list' ! b = pl_datas list ! b)))
    \<and> (pl_datas list \<noteq> [] \<longrightarrow> (\<exists>list'. StaticList_Reset list = Inr list' \<and> free_ok list' [0 ..< length (pl_datas list)]
          \<and> (\<forall>i < length (pl_datas list) - 1. sn_Data (pl_datas list' ! i) = pl_zero list)
          \<and> sn_Data (pl_datas list' ! (length (pl_datas list) - 1)) = sn_Data (last (pl_datas list))))
    \<and> NewStaticList zero 0 = Inl IndexRange"
proof (intro conjI impI)
  show "case fs of
       [] \<Rightarrow> Malloc list = Inr (Null, list)
     | a # as \<Rightarrow> \<exists>list'. Malloc list = Inr (int a, list') \<and> free_ok list' as \<and> a \<notin> set as
         \<and> (\<forall>b. sn_Data (pl_datas list' ! b) = sn_Data (pl_datas list ! b))"
  proof (cases fs)
    case (Cons a as)
    then have "a < length (pl_datas list)" "a \<notin> set as" using assms by (auto simp: free_ok_def)
    then show ?thesis using Malloc_slot [of list a as] assms Cons by (auto simp: put_slot_def nth_list_update)
  qed (use assms Malloc_full in auto)
  show "\<exists>list'. Free (int a) list = Inr list' \<and> free_ok list' (a # fs) \<and> sn_Data (pl_datas list' ! a) = pl_zero list
      \<and> (\<forall>b. b \<noteq> a \<longrightarrow> pl_datas list' ! b = pl_datas list ! b)" if "a < length (pl_datas list) \<and> a \<notin> set fs"
    using Free_slot [OF assms, of a] that by (auto simp: put_slot_def)
  show "\<exists>list'. StaticList_Reset list = Inr list' \<and> free_ok list' [0 ..< length (pl_datas list)]
      \<and> (\<forall>i < length (pl_datas list) - 1. sn_Data (pl_datas list' ! i) = pl_zero list)
      \<and> sn_Data (pl_datas list' ! (length (pl_datas list) - 1)) = sn_Data (last (pl_datas list))"
    if "pl_datas list \<noteq> []"
    using Reset_free [OF that] by blast
  show "NewStaticList zero 0 = Inl IndexRange" by (simp add: NewStaticList_def StaticList_Reset_def)
qed

lemma NewStaticList_free:
  assumes "0 < n"
  shows "\<exists>list. NewStaticList zero (int n) = Inr list \<and> free_ok list [0 ..< n] \<and> length (pl_datas list) = n
    \<and> pl_zero list = zero \<and> (\<forall>i < n. sn_Data (pl_datas list ! i) = zero)"
proof -
  let ?l = "\<lparr>pl_datas = replicate n \<lparr>sn_Data = zero, sn_Next = 0\<rparr>, pl_free = 0, pl_zero = zero\<rparr>"
  have "pl_datas ?l \<noteq> []" using assms by simp
  from Reset_free [OF this] obtain l where l: "StaticList_Reset ?l = Inr l" "free_ok l [0 ..< n]" "length (pl_datas l) = n"
      "pl_zero l = zero" "\<forall>i < n - 1. sn_Data (pl_datas l ! i) = zero" "sn_Data (pl_datas l ! (n - 1)) = zero"
    using assms by (auto simp: last_replicate)
  have "sn_Data (pl_datas l ! i) = zero" if "i < n" for i using l(5,6) that by (cases "i = n - 1") auto
  with l show ?thesis by (auto simp: NewStaticList_def)
qed

theorem staticlist_allocates_witness:
  "\<exists>list list'. NewStaticList (0 :: int) 2 = Inr list \<and> Malloc list = Inr (0, list')"
proof -
  obtain l where l: "NewStaticList (0 :: int) 2 = Inr l" "free_ok l [0, 1]"
    using NewStaticList_free [of 2 "0 :: int"] by (auto simp: numeral_2_eq_2)
  then show ?thesis using staticlist_allocates [OF l(2), of 0 0] by auto
qed

text \<open>An address is turned back into its index. For a pool that lies in the address space,
  \<open>MustGetDataIndex\<close> and \<open>SafeGetDataIndex\<close> map the address of slot \<open>i\<close>'s data to \<open>i\<close>, and \<open>SafeGetDataIndex\<close>
  answers -1 for every address that is not that of a slot.\<close>

theorem data_index_roundtrip:
  assumes "0 < esize" and "unat base + length (pl_datas list) * unat esize < 2 ^ 64"
    and "length (pl_datas list) < 2 ^ 63"
  shows "(i < length (pl_datas list) \<longrightarrow>
        MustGetDataIndex base esize (base + of_nat i * esize) list = Inr (int i)
        \<and> SafeGetDataIndex base esize (Some (base + of_nat i * esize)) list = int i)
    \<and> ((\<forall>j < length (pl_datas list). addr \<noteq> base + of_nat j * esize) \<longrightarrow>
        SafeGetDataIndex base esize (Some addr) list = -1)"
proof (intro conjI impI)
  let ?n = "length (pl_datas list)"
  have un: "unat (of_nat j :: u64) = j" "unat (of_nat j * esize) = j * unat esize"
      "unat (base + of_nat j * esize) = unat base + j * unat esize" if "j \<le> ?n" for j
  proof -
    have le: "j * unat esize \<le> ?n * unat esize" using that by simp
    have "j < 2 ^ 64" using that assms(3) by simp
    then show 1: "unat (of_nat j :: u64) = j" by (simp add: unat_of_nat take_bit_nat_eq_self)
    have lt: "j * unat esize < 2 ^ 64" "unat base + j * unat esize < 2 ^ 64" using le assms(2) by linarith+
    show 2: "unat (of_nat j * esize) = j * unat esize"
      using lt(1) 1 by (simp add: unat_word_ariths)
    show "unat (base + of_nat j * esize) = unat base + j * unat esize"
      using lt(2) 2 unat_add_lem [of base "of_nat j * esize"] by simp
  qed
  have sz: "0 < unat esize" using assms(1) by (simp add: unat_gt_0)
  {
    assume i: "i < ?n"
    let ?a = "base + of_nat i * esize"
    have d: "?a - base = of_nat i * esize" by simp
    have "unat ((of_nat i * esize) div esize) = i" "unat ((of_nat i * esize) mod esize) = 0"
      using un(2) [of i] i sz by (simp_all add: unat_div unat_mod)
    then have e: "(of_nat i * esize) div esize = of_nat i" "(of_nat i * esize) mod esize = 0"
      using un(1) [of i] i by (simp_all add: word_unat_eq_iff)
    have s: "sint (of_nat i :: u64) = int i"
    proof -
      have "i < 2 ^ 63" using i assms(3) by simp
      then show ?thesis by (simp add: signed_of_nat signed_take_bit_int_eq_self)
    qed
    have lt: "\<not> ?a < base" "\<not> ?a \<ge> base + of_nat ?n * esize"
      using un(3) [of i] un(3) [of ?n] i sz by (simp_all add: word_less_nat_alt word_le_nat_alt)
    show "MustGetDataIndex base esize ?a list = Inr (int i)" unfolding MustGetDataIndex_def d e s using i by auto
    show "SafeGetDataIndex base esize (Some ?a) list = int i"
      using i lt e s by (auto simp: SafeGetDataIndex_def Let_def)
  }
  assume no: "\<forall>j < ?n. addr \<noteq> base + of_nat j * esize"
  show "SafeGetDataIndex base esize (Some addr) list = -1"
  proof (rule ccontr)
    assume "SafeGetDataIndex base esize (Some addr) list \<noteq> -1"
    then have c: "pl_datas list \<noteq> []" "\<not> addr < base" "addr < base + of_nat ?n * esize" "(addr - base) mod esize = 0"
        "base + ((addr - base) div esize) * esize = addr"
      by (auto simp: SafeGetDataIndex_def Let_def split: if_splits)
    let ?j = "unat ((addr - base) div esize)"
    have "unat (addr - base) < ?n * unat esize"
      using c(2,3) un(3) [of ?n] by (simp add: word_less_nat_alt unat_sub word_le_nat_alt)
    then have "?j < ?n" using sz by (simp add: unat_div less_mult_imp_div_less)
    moreover have "of_nat ?j = (addr - base) div esize" by simp
    ultimately show False using no c(5) by metis
  qed
qed

theorem data_index_roundtrip_witness:
  "let list = \<lparr>pl_datas = replicate 4 \<lparr>sn_Data = (), sn_Next = 0\<rparr>, pl_free = 0, pl_zero = ()\<rparr>
   in MustGetDataIndex 1000 16 1032 list = Inr 2 \<and> SafeGetDataIndex 1000 16 (Some 1032) list = 2"
  using data_index_roundtrip [of 16 1000 "\<lparr>pl_datas = replicate 4 \<lparr>sn_Data = (), sn_Next = 0\<rparr>, pl_free = 0, pl_zero = ()\<rparr>" 2]
  by (simp add: Let_def)

end
