(* ===== verification/Queue.thy ===== *)
theory Queue
  imports Static_List Dll
begin

text \<open>
  The bounded queue of \<open>src/ds/staticlist/queue.go\<close>: a circular doubly linked list with a sentinel whose
  nodes live in a slot pool. A \<open>*QNode\<close> is the index of its slot; while a slot is in use its \<open>Next\<close>
  field holds that index, which is how \<open>Remove\<close> finds the slot of a node.
\<close>

section \<open>The queue\<close>

record 'a QNode =
  qn_Value :: 'a
  qn_prev :: "nat option"
  qn_next :: "nat option"

type_synonym 'a QPool = "'a QNode StaticList"

record 'a Queue =
  q_pool :: "'a QPool"
  q_root :: nat
  q_len :: int
  q_cap :: int

text \<open>Reading and writing the fields of the node at an index; a pointer that is nil panics.\<close>

definition qnode :: "'a QPool \<Rightarrow> nat \<Rightarrow> 'a QNode" where
  "qnode h a = sn_Data (pl_datas h ! a)"

definition q_alloc :: "'a QPool \<Rightarrow> nat \<Rightarrow> bool" where
  "q_alloc h a \<longleftrightarrow> a < length (pl_datas h)"

definition q_next :: "'a QPool \<Rightarrow> nat \<Rightarrow> nat option" where
  "q_next h a = qn_next (qnode h a)"

definition q_prev :: "'a QPool \<Rightarrow> nat \<Rightarrow> nat option" where
  "q_prev h a = qn_prev (qnode h a)"

definition q_upd :: "nat \<Rightarrow> ('a QNode \<Rightarrow> 'a QNode) \<Rightarrow> 'a QPool \<Rightarrow> 'a QPool" where
  "q_upd a f h = h\<lparr>pl_datas := (pl_datas h)[a := (pl_datas h ! a)\<lparr>sn_Data := f (qnode h a)\<rparr>]\<rparr>"

definition q_set_next :: "nat \<Rightarrow> nat option \<Rightarrow> 'a QPool \<Rightarrow> 'a QPool" where
  "q_set_next a v = q_upd a (\<lambda>n. n\<lparr>qn_next := v\<rparr>)"

definition q_set_prev :: "nat \<Rightarrow> nat option \<Rightarrow> 'a QPool \<Rightarrow> 'a QPool" where
  "q_set_prev a v = q_upd a (\<lambda>n. n\<lparr>qn_prev := v\<rparr>)"

definition q_set_value :: "nat \<Rightarrow> 'a \<Rightarrow> 'a QPool \<Rightarrow> 'a QPool" where
  "q_set_value a v = q_upd a (\<lambda>n. n\<lparr>qn_Value := v\<rparr>)"

definition deref :: "nat option \<Rightarrow> nat go" where
  "deref p = (case p of None \<Rightarrow> Inl NilDeref | Some a \<Rightarrow> Inr a)"

definition Queue_init :: "'a Queue \<Rightarrow> 'a Queue go" where
  "Queue_init q =
    go_bind (Malloc (q_pool q)) (\<lambda>(p, pool).
    go_bind (GetDataPointer p pool) (\<lambda>root.
      Inr (q\<lparr>q_pool := q_set_next root (Some root) (q_set_prev root (Some root) pool), q_root := root\<rparr>)))"

definition NewQueue :: "'a \<Rightarrow> int \<Rightarrow> 'a Queue go" where
  "NewQueue zero cap =
    go_bind (NewStaticList \<lparr>qn_Value = zero, qn_prev = None, qn_next = None\<rparr> (1 + cap)) (\<lambda>pool.
      Queue_init \<lparr>q_pool = pool, q_root = 0, q_len = 0, q_cap = cap\<rparr>)"

text \<open>The two pointer sequences of the operations: linking a node in before the sentinel and taking one out.\<close>

definition link_back :: "nat \<Rightarrow> nat \<Rightarrow> 'a QPool \<Rightarrow> 'a QPool go" where
  "link_back root node h =
    go_bind (deref (q_prev h root)) (\<lambda>tail.
      let h1 = q_set_next tail (Some node) h;
          h2 = q_set_prev node (Some tail) h1;
          h3 = q_set_next node (Some root) h2
      in Inr (q_set_prev root (Some node) h3))"

definition unlink_node :: "nat \<Rightarrow> 'a QPool \<Rightarrow> 'a QPool go" where
  "unlink_node node h =
    go_bind (deref (q_prev h node)) (\<lambda>before.
      let h1 = q_set_next before (q_next h node) h
      in go_bind (deref (q_next h1 node)) (\<lambda>after. Inr (q_set_prev after (q_prev h1 node) h1)))"

definition Queue_Push :: "'a \<Rightarrow> 'a Queue \<Rightarrow> (nat option \<times> 'a Queue) go" where
  "Queue_Push data q =
    go_bind (Malloc (q_pool q)) (\<lambda>(p, pool).
      if p = Null then Inr (None, q)
      else go_bind (GetNode p pool) (\<lambda>node.
        let pool1 = pool\<lparr>pl_datas := (pl_datas pool)[node := (pl_datas pool ! node)\<lparr>sn_Next := p\<rparr>]\<rparr>
        in go_bind (link_back (q_root q) node (q_set_value node data pool1)) (\<lambda>pool2.
             Inr (Some node, q\<lparr>q_pool := pool2, q_len := q_len q + 1\<rparr>))))"

definition Queue_IsEmpty :: "'a Queue \<Rightarrow> bool" where
  "Queue_IsEmpty q = (q_next (q_pool q) (q_root q) = Some (q_root q))"

definition Queue_Remove :: "nat \<Rightarrow> 'a Queue \<Rightarrow> 'a Queue go" where
  "Queue_Remove node q =
    (let p = sn_Next (pl_datas (q_pool q) ! node)
     in go_bind (unlink_node node (q_pool q)) (\<lambda>pool.
        go_bind (Free p pool) (\<lambda>pool1. Inr (q\<lparr>q_pool := pool1, q_len := q_len q - 1\<rparr>))))"

definition Queue_Pop :: "'a \<Rightarrow> 'a Queue \<Rightarrow> ('a \<times> 'a Queue) go" where
  "Queue_Pop zero q =
    (if Queue_IsEmpty q then Inr (zero, q)
     else go_bind (deref (q_next (q_pool q) (q_root q))) (\<lambda>node.
       let data = qn_Value (qnode (q_pool q) node)
       in go_bind (Queue_Remove node q) (\<lambda>q1. Inr (data, q1))))"

definition Queue_MoveToBack :: "nat \<Rightarrow> 'a Queue \<Rightarrow> 'a Queue go" where
  "Queue_MoveToBack node q =
    (if q_prev (q_pool q) (q_root q) = Some node then Inr q
     else go_bind (unlink_node node (q_pool q)) (\<lambda>pool.
          go_bind (link_back (q_root q) node pool) (\<lambda>pool1. Inr (q\<lparr>q_pool := pool1\<rparr>))))"

definition Queue_First :: "'a Queue \<Rightarrow> nat option" where
  "Queue_First q = (if Queue_IsEmpty q then None else q_next (q_pool q) (q_root q))"

definition Queue_IsFull :: "'a Queue \<Rightarrow> bool" where
  "Queue_IsFull q = (q_len q = q_cap q)"

definition Queue_Len :: "'a Queue \<Rightarrow> int" where
  "Queue_Len q = q_len q"

text \<open>The callback of the two loops has a state of its own. \<open>Range\<close> passes it a pointer to the value, through which it may
  change it; \<open>PopRange\<close> a pointer to a copy. The fuel bounds the number of nodes visited.\<close>

fun Queue_Range_loop :: "('a \<Rightarrow> 's \<Rightarrow> 'a \<times> 's \<times> bool) \<Rightarrow> nat \<Rightarrow> nat option \<Rightarrow> 'a Queue \<Rightarrow> 's \<Rightarrow> ('a Queue \<times> 's) go" where
  "Queue_Range_loop fn fuel p q s =
    (if p = Some (q_root q) then Inr (q, s)
     else case fuel of
       0 \<Rightarrow> Inl NoReturn
     | Suc fuel' \<Rightarrow> go_bind (deref p) (\<lambda>node.
         let (v, s1, more) = fn (qn_Value (qnode (q_pool q) node)) s;
             q1 = q\<lparr>q_pool := q_set_value node v (q_pool q)\<rparr>
         in if more then Queue_Range_loop fn fuel' (q_next (q_pool q1) node) q1 s1 else Inr (q1, s1)))"

declare Queue_Range_loop.simps [simp del]

definition Queue_Range :: "('a \<Rightarrow> 's \<Rightarrow> 'a \<times> 's \<times> bool) \<Rightarrow> 'a Queue \<Rightarrow> 's \<Rightarrow> ('a Queue \<times> 's) go" where
  "Queue_Range fn q s = Queue_Range_loop fn (length (pl_datas (q_pool q))) (q_next (q_pool q) (q_root q)) q s"

fun Queue_PopRange_loop :: "('a \<Rightarrow> 's \<Rightarrow> 's \<times> bool) \<Rightarrow> nat \<Rightarrow> 'a Queue \<Rightarrow> 's \<Rightarrow> ('a Queue \<times> 's) go" where
  "Queue_PopRange_loop fn fuel q s =
    (if q_next (q_pool q) (q_root q) = Some (q_root q) then Inr (q, s)
     else case fuel of
       0 \<Rightarrow> Inl NoReturn
     | Suc fuel' \<Rightarrow> go_bind (deref (q_next (q_pool q) (q_root q))) (\<lambda>node.
         let data = qn_Value (qnode (q_pool q) node);
             (s1, more) = fn data s
         in if more then go_bind (Queue_Remove node q) (\<lambda>q1. Queue_PopRange_loop fn fuel' q1 s1) else Inr (q, s1)))"

declare Queue_PopRange_loop.simps [simp del]

definition Queue_PopRange :: "('a \<Rightarrow> 's \<Rightarrow> 's \<times> bool) \<Rightarrow> 'a Queue \<Rightarrow> 's \<Rightarrow> ('a Queue \<times> 's) go" where
  "Queue_PopRange fn q s = Queue_PopRange_loop fn (length (pl_datas (q_pool q))) q s"

definition Queue_Clear :: "'a Queue \<Rightarrow> 'a Queue go" where
  "Queue_Clear q = go_bind (Queue_PopRange (\<lambda>_ s. (s, True)) q ()) (\<lambda>(q1, _). Inr q1)"


section \<open>The pool as a heap of linked nodes\<close>

lemma qnode_upd: "a < length (pl_datas h) \<Longrightarrow> qnode (q_upd a f h) b = (if b = a then f (qnode h a) else qnode h b)"
  by (auto simp: qnode_def q_upd_def nth_list_update)

lemma q_upd_frame [simp]:
  "length (pl_datas (q_upd a f h)) = length (pl_datas h)" "pl_free (q_upd a f h) = pl_free h" "pl_zero (q_upd a f h) = pl_zero h"
  "sn_Next (pl_datas (q_upd a f h) ! b) = sn_Next (pl_datas h ! b)"
proof -
  show "sn_Next (pl_datas (q_upd a f h) ! b) = sn_Next (pl_datas h ! b)"
    by (cases "b < length (pl_datas h)"; cases "a = b") (simp_all add: q_upd_def list_update_beyond)
qed (simp_all add: q_upd_def)

lemmas q_set_defs = q_set_next_def q_set_prev_def q_set_value_def

interpretation qh: dll_heap q_next q_prev q_set_next q_set_prev q_alloc
  by unfold_locales (auto simp: q_alloc_def q_next_def q_prev_def q_set_defs qnode_upd fun_eq_iff)

text \<open>The values in the nodes \<open>xs\<close>, and when a queue holds them.\<close>

definition q_vals :: "'a QPool \<Rightarrow> nat list \<Rightarrow> 'a list" where
  "q_vals h xs = map (\<lambda>x. qn_Value (qnode h x)) xs"

definition q_ok :: "'a Queue \<Rightarrow> nat list \<Rightarrow> nat list \<Rightarrow> bool" where
  "q_ok q xs fs \<longleftrightarrow>
     dll (q_next (q_pool q)) (q_prev (q_pool q)) (q_root q) xs \<and> free_ok (q_pool q) fs
   \<and> set fs \<inter> set (q_root q # xs) = {} \<and> set fs \<union> set (q_root q # xs) = {..< length (pl_datas (q_pool q))}
   \<and> (\<forall>x \<in> set xs. sn_Next (pl_datas (q_pool q) ! x) = int x)
   \<and> q_len q = int (length xs) \<and> q_cap q + 1 = int (length (pl_datas (q_pool q)))"

definition q_rel :: "'a Queue \<Rightarrow> nat list \<Rightarrow> 'a list \<Rightarrow> bool" where
  "q_rel q xs vs \<longleftrightarrow> vs = q_vals (q_pool q) xs \<and> (\<exists>fs. q_ok q xs fs)"


section \<open>What the operations do to the list\<close>

text \<open>The pointer sequences change nothing but pointers.\<close>

definition q_frame :: "'a QPool \<Rightarrow> 'a QPool \<Rightarrow> bool" where
  "q_frame h h' \<longleftrightarrow> length (pl_datas h') = length (pl_datas h) \<and> pl_free h' = pl_free h \<and> pl_zero h' = pl_zero h
     \<and> (\<forall>b. sn_Next (pl_datas h' ! b) = sn_Next (pl_datas h ! b)) \<and> (\<forall>b. qn_Value (qnode h' b) = qn_Value (qnode h b))"

lemma q_frame_refl: "q_frame h h"
  by (simp add: q_frame_def)

lemma q_frame_trans: "q_frame h h' \<Longrightarrow> q_frame h' h'' \<Longrightarrow> q_frame h h''"
  by (simp add: q_frame_def)

lemma q_frame_set: "a < length (pl_datas h) \<Longrightarrow> q_frame h (q_set_next a v h)" "a < length (pl_datas h) \<Longrightarrow> q_frame h (q_set_prev a v h)"
  by (simp_all add: q_frame_def q_set_defs qnode_upd)

lemma q_len_set [simp]: "length (pl_datas (q_set_next a v h)) = length (pl_datas h)" "length (pl_datas (q_set_prev a v h)) = length (pl_datas h)"
  by (simp_all add: q_set_defs)

lemma q_frame_free: "q_frame h h' \<Longrightarrow> free_ok h fs \<Longrightarrow> free_ok h' fs"
  using free_path_cong [of "pl_datas h'" "pl_datas h" fs] by (auto simp: q_frame_def free_ok_def)

lemma q_frame_vals: "q_frame h h' \<Longrightarrow> q_vals h' xs = q_vals h xs"
  by (simp add: q_frame_def q_vals_def)

lemma unlink_node_spec:
  assumes d: "dll (q_next h) (q_prev h) r (as @ t # bs)" and al: "\<forall>a \<in> set (r # as @ t # bs). q_alloc h a"
  shows "\<exists>h'. unlink_node t h = Inr h' \<and> q_frame h h' \<and> dll (q_next h') (q_prev h') r (as @ bs)"
proof -
  define a where "a = last (r # as)"
  define b where "b = hd (bs @ [r])"
  define h1 where "h1 = q_set_next a (Some b) h"
  define h' where "h' = q_set_prev b (Some a) h1"
  have h': "h' = q_set_prev b (Some a) (q_set_next a (Some b) h)" by (simp add: h'_def h1_def)
  note u = qh.unlink [OF d al a_def b_def h']
  have at: "a \<noteq> t" using u(7) d by (auto simp: dll_def)
  have la: "q_alloc h a" "q_alloc h b" using u(7,8) al by auto
  have n1: "q_next h1 = (q_next h)(a := Some b)" "q_prev h1 = q_prev h"
    using la by (simp_all add: h1_def qh.heap_simps)
  have "unlink_node t h = Inr h'"
    using u(1,2) n1 at by (simp add: unlink_node_def deref_def h1_def [symmetric] h'_def)
  moreover have "q_frame h h'"
    unfolding h' using la by (intro q_frame_trans [OF q_frame_set(1) q_frame_set(2)]) (simp_all add: q_alloc_def)
  ultimately show ?thesis using u(3) by blast
qed

lemma link_back_spec:
  assumes d: "dll (q_next h) (q_prev h) r xs" and al: "\<forall>a \<in> set (t # r # xs). q_alloc h a" and t: "t \<notin> set (r # xs)"
  shows "\<exists>h'. link_back r t h = Inr h' \<and> q_frame h h' \<and> dll (q_next h') (q_prev h') r (xs @ [t])"
proof -
  define a where "a = last (r # xs)"
  define h' where "h' = q_set_prev r (Some t) (q_set_next t (Some r) (q_set_prev t (Some a) (q_set_next a (Some t) h)))"
  note p = qh.push_back [OF d al t a_def h'_def]
  have "a \<in> set (r # xs)" unfolding a_def by (rule last_in_set) simp
  then have la: "a < length (pl_datas h)" "r < length (pl_datas h)" "t < length (pl_datas h)" using al by (auto simp: q_alloc_def)
  have "link_back r t h = Inr h'"
    using dll_last [OF d] by (simp add: link_back_def deref_def a_def h'_def Let_def)
  moreover have "q_frame h h'"
    unfolding h'_def using la by (intro q_frame_trans [OF q_frame_trans [OF q_frame_trans [OF q_frame_set(1) q_frame_set(2)] q_frame_set(1)] q_frame_set(2)]) simp_all
  ultimately show ?thesis using p(1) by blast
qed

lemma q_ok_alloc: "q_ok q xs fs \<Longrightarrow> \<forall>a \<in> set (q_root q # xs). q_alloc (q_pool q) a"
  unfolding q_ok_def q_alloc_def by blast

lemma q_ok_len: "q_ok q xs fs \<Longrightarrow> length fs + length xs = nat (q_cap q)" "q_ok q xs fs \<Longrightarrow> 0 \<le> q_cap q"
proof -
  assume q: "q_ok q xs fs"
  let ?n = "length (pl_datas (q_pool q))"
  have d: "distinct fs" "distinct (q_root q # xs)" using q by (auto simp: q_ok_def free_ok_def dll_def)
  have "card (set fs \<union> set (q_root q # xs)) = card (set fs) + card (set (q_root q # xs))"
    using q by (intro card_Un_disjoint) (auto simp: q_ok_def)
  then have n: "?n = length fs + (1 + length xs)"
    using q distinct_card [OF d(1)] distinct_card [OF d(2)] by (simp add: q_ok_def)
  then show "length fs + length xs = nat (q_cap q)" "0 \<le> q_cap q" using q by (simp_all add: q_ok_def)
qed

lemma q_ok_le:
  assumes "q_ok q xs fs"
  shows "length xs \<le> length (pl_datas (q_pool q))"
proof -
  have "q_cap q + 1 = int (length (pl_datas (q_pool q)))" using assms unfolding q_ok_def by blast
  then show ?thesis using q_ok_len [OF assms] by linarith
qed

lemma Queue_Remove_spec:
  assumes q: "q_ok q (as @ t # bs) fs"
  shows "\<exists>q'. Queue_Remove t q = Inr q' \<and> q_ok q' (as @ bs) (t # fs) \<and> q_vals (q_pool q') (as @ bs) = q_vals (q_pool q) (as @ bs)
    \<and> q_cap q' = q_cap q \<and> q_root q' = q_root q"
proof -
  let ?h = "q_pool q" and ?r = "q_root q"
  have d: "dll (q_next ?h) (q_prev ?h) ?r (as @ t # bs)" using q by (simp add: q_ok_def)
  obtain h where h: "unlink_node t ?h = Inr h" "q_frame ?h h" "dll (q_next h) (q_prev h) ?r (as @ bs)"
    using unlink_node_spec [OF d] q_ok_alloc [OF q] by blast
  have p: "sn_Next (pl_datas ?h ! t) = int t" using q by (simp add: q_ok_def)
  have t: "t < length (pl_datas h)" "t \<notin> set fs" "t \<notin> set (?r # as @ bs)"
    using q h(2) d by (auto simp: q_ok_def q_frame_def dll_def)
  define h' where "h' = put_slot (int t) \<lparr>sn_Data = pl_zero h, sn_Next = pl_free h\<rparr> (h\<lparr>pl_free := int t\<rparr>)"
  have f: "Free (int t) h = Inr h'" "free_ok h' (t # fs)"
    using Free_slot [of h fs t] q_frame_free [OF h(2)] q t by (auto simp: q_ok_def h'_def)
  have same: "pl_datas h' ! b = pl_datas h ! b" if "b \<noteq> t" for b
    using that by (simp add: h'_def put_slot_def)
  then have same': "qnode h' b = qnode h b" if "b \<noteq> t" for b using that by (simp add: qnode_def)
  have len: "length (pl_datas h') = length (pl_datas ?h)" using h(2) by (simp add: h'_def put_slot_def q_frame_def)
  have ne: "b \<noteq> t" if "b \<in> set (?r # as @ bs)" for b using that t(3) by blast
  have "dll (q_next h') (q_prev h') ?r (as @ bs)"
    by (rule dll_frame [OF h(3)]) (use ne same' in \<open>auto simp: q_next_def q_prev_def\<close>)
  moreover have "q_vals h' (as @ bs) = q_vals ?h (as @ bs)"
    using ne same' h(2) by (simp add: q_vals_def q_frame_def)
  moreover have "\<forall>x \<in> set (as @ bs). sn_Next (pl_datas h' ! x) = int x"
  proof
    fix x
    assume x: "x \<in> set (as @ bs)"
    then have "sn_Next (pl_datas ?h ! x) = int x" using q by (auto simp: q_ok_def)
    then show "sn_Next (pl_datas h' ! x) = int x" using same [OF ne [of x]] x h(2) by (simp add: q_frame_def)
  qed
  moreover have "set (t # fs) \<union> set (?r # as @ bs) = {..< length (pl_datas ?h)}" using q by (auto simp: q_ok_def)
  moreover have "set (t # fs) \<inter> set (?r # as @ bs) = {}" using q t by (auto simp: q_ok_def)
  moreover have "Queue_Remove t q = Inr (q\<lparr>q_pool := h', q_len := q_len q - 1\<rparr>)"
    by (simp add: Queue_Remove_def p h(1) f(1))
  ultimately show ?thesis using f(2) q len by (auto simp: q_ok_def)
qed


lemma Queue_Push_spec:
  assumes q: "q_ok q xs fs"
  shows "case fs of
      [] \<Rightarrow> Queue_Push v q = Inr (None, q)
    | n # fs' \<Rightarrow> \<exists>q'. Queue_Push v q = Inr (Some n, q') \<and> q_ok q' (xs @ [n]) fs' \<and> q_vals (q_pool q') (xs @ [n]) = q_vals (q_pool q) xs @ [v]
        \<and> q_cap q' = q_cap q \<and> n \<notin> set (q_root q # xs)"
proof (cases fs)
  case Nil
  then show ?thesis using Malloc_full [of "q_pool q"] q by (simp add: q_ok_def Queue_Push_def)
next
  case (Cons n fs')
  let ?h = "q_pool q" and ?r = "q_root q"
  have f: "free_ok ?h (n # fs')" using q Cons by (simp add: q_ok_def)
  define h0 where "h0 = put_slot (int n) ((pl_datas ?h ! n)\<lparr>sn_Next := Null\<rparr>) (?h\<lparr>pl_free := sn_Next (pl_datas ?h ! n)\<rparr>)"
  note ml = Malloc_slot [OF f, folded h0_def]
  have n: "n < length (pl_datas ?h)" "n \<notin> set fs'" using free_ok_less [OF f] f by (auto simp: free_ok_def)
  have nx: "n \<notin> set (?r # xs)" using q Cons by (auto simp: q_ok_def)
  define h1 where "h1 = h0\<lparr>pl_datas := (pl_datas h0)[n := (pl_datas h0 ! n)\<lparr>sn_Next := int n\<rparr>]\<rparr>"
  define h2 where "h2 = q_set_value n v h1"
  have len: "length (pl_datas h2) = length (pl_datas ?h)" by (simp add: h2_def h1_def h0_def put_slot_def q_set_defs)
  have datas1: "pl_datas h1 = (pl_datas ?h)[n := (pl_datas ?h ! n)\<lparr>sn_Next := int n\<rparr>]"
    using n by (simp add: h1_def h0_def put_slot_def)
  have nx2: "sn_Next (pl_datas h2 ! b) = (if b = n then int n else sn_Next (pl_datas ?h ! b))" for b
    using n by (auto simp: h2_def q_set_defs datas1 nth_list_update)
  have node1: "qnode h1 b = qnode ?h b" for b
    using n by (cases "b = n") (simp_all add: qnode_def datas1)
  have "n < length (pl_datas h1)" using n by (simp add: datas1)
  then have node2: "qnode h2 b = (if b = n then (qnode ?h n)\<lparr>qn_Value := v\<rparr> else qnode ?h b)" for b
    by (simp add: h2_def q_set_defs qnode_upd node1)
  have "dll (q_next ?h) (q_prev ?h) ?r xs" using q by (simp add: q_ok_def)
  then have d2: "dll (q_next h2) (q_prev h2) ?r xs"
    by (rule dll_frame) (simp add: q_next_def q_prev_def node2)
  have al2: "\<forall>a \<in> set (n # ?r # xs). q_alloc h2 a" using q_ok_alloc [OF q] n len by (auto simp: q_alloc_def)
  obtain h3 where h3: "link_back ?r n h2 = Inr h3" "q_frame h2 h3" "dll (q_next h3) (q_prev h3) ?r (xs @ [n])"
    using link_back_spec [OF d2 al2 nx] by blast
  have "free_ok h2 fs'"
  proof -
    have "\<forall>b \<in> set fs'. sn_Next (pl_datas h2 ! b) = sn_Next (pl_datas h0 ! b)"
      using n(2) nx2 by (auto simp: h0_def put_slot_def nth_list_update)
    then show ?thesis
      using ml(2) free_path_cong [of "pl_datas h2" "pl_datas h0" fs'] len
      by (auto simp: free_ok_def h2_def h1_def q_set_defs)
  qed
  then have fo: "free_ok h3 fs'" by (rule q_frame_free [OF h3(2)])
  have "Queue_Push v q = Inr (Some n, q\<lparr>q_pool := h3, q_len := q_len q + 1\<rparr>)"
  proof -
    have g: "GetNode (int n) h0 = Inr n" using n by (simp add: GetNode_def slot_at_def h0_def put_slot_def)
    have "Queue_Push v q = go_bind (link_back ?r n h2) (\<lambda>pool2. Inr (Some n, q\<lparr>q_pool := pool2, q_len := q_len q + 1\<rparr>))"
      unfolding Queue_Push_def ml(1) h2_def h1_def using g by (simp add: Null_def)
    then show ?thesis by (simp add: h3(1))
  qed
  moreover have "q_vals h3 (xs @ [n]) = q_vals ?h xs @ [v]"
    unfolding q_frame_vals [OF h3(2)] using nx by (auto simp: q_vals_def node2)
  moreover have "set fs' \<union> set (?r # xs @ [n]) = {..< length (pl_datas h3)}" "set fs' \<inter> set (?r # xs @ [n]) = {}"
    using q Cons n len h3(2) by (auto simp: q_ok_def q_frame_def)
  moreover have "\<forall>x \<in> set (xs @ [n]). sn_Next (pl_datas h3 ! x) = int x"
    using q nx2 h3(2) by (auto simp: q_ok_def q_frame_def)
  moreover have "q_len q + 1 = int (length (xs @ [n]))" "q_cap q + 1 = int (length (pl_datas h3))"
    using q len h3(2) by (auto simp: q_ok_def q_frame_def)
  ultimately show ?thesis using h3(3) fo Cons nx by (auto simp: q_ok_def)
qed

lemma Queue_MoveToBack_spec:
  assumes q: "q_ok q (as @ t # bs) fs"
  shows "\<exists>q'. Queue_MoveToBack t q = Inr q' \<and> q_ok q' (as @ bs @ [t]) fs \<and> (\<forall>xs. q_vals (q_pool q') xs = q_vals (q_pool q) xs)"
proof -
  let ?h = "q_pool q" and ?r = "q_root q"
  have d: "dll (q_next ?h) (q_prev ?h) ?r (as @ t # bs)" using q by (simp add: q_ok_def)
  have isback: "q_prev ?h ?r = Some t \<longleftrightarrow> bs = []"
    using dll_last [OF d] d last_in_set [of bs] by (auto simp: dll_def)
  show ?thesis
  proof (cases "bs = []")
    case True
    then show ?thesis using q isback by (auto simp: Queue_MoveToBack_def)
  next
    case False
    obtain h where h: "unlink_node t ?h = Inr h" "q_frame ?h h" "dll (q_next h) (q_prev h) ?r (as @ bs)"
      using unlink_node_spec [OF d] q_ok_alloc [OF q] by blast
    have "\<forall>a \<in> set (t # ?r # as @ bs). q_alloc h a" using q_ok_alloc [OF q] h(2) by (auto simp: q_alloc_def q_frame_def)
    moreover have "t \<notin> set (?r # as @ bs)" using d by (auto simp: dll_def)
    ultimately obtain h' where h': "link_back ?r t h = Inr h'" "q_frame h h'" "dll (q_next h') (q_prev h') ?r ((as @ bs) @ [t])"
      using link_back_spec [OF h(3)] by blast
    note fr = q_frame_trans [OF h(2) h'(2)]
    have "Queue_MoveToBack t q = Inr (q\<lparr>q_pool := h'\<rparr>)" using False isback by (simp add: Queue_MoveToBack_def h h')
    moreover have "q_ok (q\<lparr>q_pool := h'\<rparr>) (as @ bs @ [t]) fs"
      using q h'(3) q_frame_free [OF fr, of fs] fr by (auto simp: q_ok_def q_frame_def)
    ultimately show ?thesis using q_frame_vals [OF fr] by auto
  qed
qed

lemma Queue_first:
  assumes "q_ok q xs fs"
  shows "q_next (q_pool q) (q_root q) = Some (hd (xs @ [q_root q]))" and "Queue_IsEmpty q \<longleftrightarrow> xs = []"
proof -
  have d: "dll (q_next (q_pool q)) (q_prev (q_pool q)) (q_root q) xs" using assms by (simp add: q_ok_def)
  show 1: "q_next (q_pool q) (q_root q) = Some (hd (xs @ [q_root q]))" by (rule dll_first [OF d])
  show "Queue_IsEmpty q \<longleftrightarrow> xs = []" using d by (cases xs) (auto simp: Queue_IsEmpty_def 1 dll_def)
qed

text \<open>What the two loops do to the values.\<close>

fun visit :: "('a \<Rightarrow> 's \<Rightarrow> 'a \<times> 's \<times> bool) \<Rightarrow> 'a list \<Rightarrow> 's \<Rightarrow> 'a list \<times> 's" where
  "visit fn [] s = ([], s)"
| "visit fn (v # vs) s = (let (v', s1, more) = fn v s in if more then (let (vs', s2) = visit fn vs s1 in (v' # vs', s2)) else (v' # vs, s1))"

fun pop_while :: "('a \<Rightarrow> 's \<Rightarrow> 's \<times> bool) \<Rightarrow> 'a list \<Rightarrow> 's \<Rightarrow> 'a list \<times> 's" where
  "pop_while fn [] s = ([], s)"
| "pop_while fn (v # vs) s = (let (s1, more) = fn v s in if more then pop_while fn vs s1 else (v # vs, s1))"

lemma Queue_PopRange_loop_spec:
  "q_ok q xs fs \<Longrightarrow> length xs \<le> fuel \<Longrightarrow>
   \<exists>q' k fs'. Queue_PopRange_loop fn fuel q s = Inr (q', snd (pop_while fn (q_vals (q_pool q) xs) s))
     \<and> q_ok q' (drop k xs) fs' \<and> q_vals (q_pool q') (drop k xs) = fst (pop_while fn (q_vals (q_pool q) xs) s) \<and> q_cap q' = q_cap q"
proof (induction xs arbitrary: q fs fuel s)
  case Nil
  then have "Queue_PopRange_loop fn fuel q s = Inr (q, s)"
    using Queue_first [OF Nil(1)] by (subst Queue_PopRange_loop.simps) simp
  then show ?case using Nil by (intro exI [of _ q] exI [of _ 0] exI [of _ fs]) (simp add: q_vals_def)
next
  case (Cons x xs)
  then obtain fuel' where fu: "fuel = Suc fuel'" "length xs \<le> fuel'" by (cases fuel) auto
  let ?v = "qn_Value (qnode (q_pool q) x)"
  obtain s1 more where fn: "fn ?v s = (s1, more)" by force
  have ne: "x \<noteq> q_root q" using Cons.prems(1) by (auto simp: q_ok_def dll_def)
  have step: "Queue_PopRange_loop fn fuel q s =
      (if more then go_bind (Queue_Remove x q) (\<lambda>q1. Queue_PopRange_loop fn fuel' q1 s1) else Inr (q, s1))"
    using Queue_first(1) [OF Cons.prems(1)] ne
    by (subst Queue_PopRange_loop.simps) (simp add: fu(1) deref_def fn)
  have vals: "q_vals (q_pool q) (x # xs) = ?v # q_vals (q_pool q) xs" by (simp add: q_vals_def)
  show ?case
  proof (cases more)
    case False
    then show ?thesis using Cons.prems step fn vals by (intro exI [of _ q] exI [of _ 0] exI [of _ fs]) simp
  next
    case True
    obtain q1 where q1: "Queue_Remove x q = Inr q1" "q_ok q1 xs (x # fs)" "q_vals (q_pool q1) xs = q_vals (q_pool q) xs" "q_cap q1 = q_cap q"
      using Queue_Remove_spec [of q "[]" x xs fs] Cons.prems(1) by auto
    from Cons.IH [OF q1(2) fu(2), of s1] obtain q' k fs' where
      "Queue_PopRange_loop fn fuel' q1 s1 = Inr (q', snd (pop_while fn (q_vals (q_pool q1) xs) s1))"
      "q_ok q' (drop k xs) fs'" "q_vals (q_pool q') (drop k xs) = fst (pop_while fn (q_vals (q_pool q1) xs) s1)" "q_cap q' = q_cap q1"
      by blast
    then show ?thesis using step True fn q1 vals
      by (intro exI [of _ q'] exI [of _ "Suc k"] exI [of _ fs']) simp
  qed
qed

lemma q_set_value_ok:
  assumes q: "q_ok q xs fs" and x: "x \<in> set xs"
  shows "q_ok (q\<lparr>q_pool := q_set_value x v (q_pool q)\<rparr>) xs fs"
    and "qnode (q_set_value x v (q_pool q)) b = (if b = x then (qnode (q_pool q) x)\<lparr>qn_Value := v\<rparr> else qnode (q_pool q) b)"
proof -
  have l: "x < length (pl_datas (q_pool q))" using q_ok_alloc [OF q] x by (simp add: q_alloc_def)
  show n: "qnode (q_set_value x v (q_pool q)) b = (if b = x then (qnode (q_pool q) x)\<lparr>qn_Value := v\<rparr> else qnode (q_pool q) b)" for b
    using l by (simp add: q_set_defs qnode_upd)
  have "dll (q_next (q_pool q)) (q_prev (q_pool q)) (q_root q) xs" using q by (simp add: q_ok_def)
  then have "dll (q_next (q_set_value x v (q_pool q))) (q_prev (q_set_value x v (q_pool q))) (q_root q) xs"
    by (rule dll_frame) (simp add: q_next_def q_prev_def n)
  moreover have "free_ok (q_set_value x v (q_pool q)) fs"
    using q free_path_cong [of "pl_datas (q_set_value x v (q_pool q))" "pl_datas (q_pool q)" fs]
    by (auto simp: q_ok_def free_ok_def q_set_defs)
  ultimately show "q_ok (q\<lparr>q_pool := q_set_value x v (q_pool q)\<rparr>) xs fs"
    using q by (simp add: q_ok_def q_set_defs)
qed

lemma Queue_Range_loop_spec:
  "q_ok q (ys @ xs) fs \<Longrightarrow> length xs \<le> fuel \<Longrightarrow>
   \<exists>q'. Queue_Range_loop fn fuel (Some (hd (xs @ [q_root q]))) q s = Inr (q', snd (visit fn (q_vals (q_pool q) xs) s))
     \<and> q_ok q' (ys @ xs) fs \<and> q_vals (q_pool q') (ys @ xs) = q_vals (q_pool q) ys @ fst (visit fn (q_vals (q_pool q) xs) s)
     \<and> q_cap q' = q_cap q"
proof (induction xs arbitrary: q ys fuel s)
  case Nil
  then show ?case by (subst Queue_Range_loop.simps) (simp add: q_vals_def)
next
  case (Cons x xs)
  then obtain fuel' where fu: "fuel = Suc fuel'" "length xs \<le> fuel'" by (cases fuel) auto
  let ?v = "qn_Value (qnode (q_pool q) x)"
  obtain v s1 more where fn: "fn ?v s = (v, s1, more)" by (metis prod_cases3)
  have d: "dll (q_next (q_pool q)) (q_prev (q_pool q)) (q_root q) (ys @ x # xs)" using Cons.prems(1) by (simp add: q_ok_def)
  have ne: "x \<noteq> q_root q" "x \<notin> set ys" "x \<notin> set xs" using d by (auto simp: dll_def)
  define q1 where "q1 = q\<lparr>q_pool := q_set_value x v (q_pool q)\<rparr>"
  have q1: "q_ok q1 (ys @ x # xs) fs" unfolding q1_def by (rule q_set_value_ok) (use Cons.prems in auto)
  have nd: "qnode (q_pool q1) b = (if b = x then (qnode (q_pool q) x)\<lparr>qn_Value := v\<rparr> else qnode (q_pool q) b)" for b
    using q_set_value_ok(2) [OF Cons.prems(1)] by (simp add: q1_def)
  have nx: "q_next (q_pool q1) x = Some (hd (xs @ [q_root q]))" using dll_at(1) [OF d] nd by (simp add: q_next_def)
  have r1: "q_root q1 = q_root q" "q_cap q1 = q_cap q" by (simp_all add: q1_def)
  have step: "Queue_Range_loop fn fuel (Some (hd ((x # xs) @ [q_root q]))) q s =
      (if more then Queue_Range_loop fn fuel' (Some (hd (xs @ [q_root q1]))) q1 s1 else Inr (q1, s1))"
    using ne(1) by (subst Queue_Range_loop.simps) (simp add: fu(1) deref_def fn q1_def [symmetric] nx r1)
  have vals: "q_vals (q_pool q1) ys = q_vals (q_pool q) ys" "q_vals (q_pool q1) xs = q_vals (q_pool q) xs"
      "qn_Value (qnode (q_pool q1) x) = v" "q_vals (q_pool q) (x # xs) = ?v # q_vals (q_pool q) xs"
    using ne by (auto simp: q_vals_def nd)
  show ?case
  proof (cases more)
    case False
    then show ?thesis using step fn vals q1 r1 by (intro exI [of _ q1]) (simp add: q_vals_def)
  next
    case True
    from Cons.IH [of q1 "ys @ [x]" fuel' s1] q1 fu(2) obtain q' where
      "Queue_Range_loop fn fuel' (Some (hd (xs @ [q_root q1]))) q1 s1 = Inr (q', snd (visit fn (q_vals (q_pool q1) xs) s1))"
      "q_ok q' (ys @ x # xs) fs" "q_cap q' = q_cap q1"
      "q_vals (q_pool q') (ys @ x # xs) = q_vals (q_pool q1) (ys @ [x]) @ fst (visit fn (q_vals (q_pool q1) xs) s1)"
      by auto
    moreover have "q_vals (q_pool q1) (ys @ [x]) = q_vals (q_pool q) ys @ [v]" using vals by (simp add: q_vals_def)
    ultimately show ?thesis using step True fn vals r1 by (auto simp: Let_def split: prod.splits)
  qed
qed


lemma NewQueue_ok:
  assumes "0 \<le> cap"
  shows "\<exists>q fs. NewQueue zero cap = Inr q \<and> q_ok q [] fs \<and> q_cap q = cap"
proof -
  define n where "n = nat (1 + cap)"
  have n: "0 < n" "1 + cap = int n" using assms by (auto simp: n_def)
  let ?z = "\<lparr>qn_Value = zero, qn_prev = None, qn_next = None\<rparr>"
  obtain l where l: "NewStaticList ?z (1 + cap) = Inr l" "free_ok l [0 ..< n]" "length (pl_datas l) = n"
    using NewStaticList_free [OF n(1), of ?z] n(2) by auto
  have up: "[0 ..< n] = 0 # [1 ..< n]" using n(1) by (simp add: upt_rec)
  define h where "h = put_slot (int 0) ((pl_datas l ! 0)\<lparr>sn_Next := Null\<rparr>) (l\<lparr>pl_free := sn_Next (pl_datas l ! 0)\<rparr>)"
  note ml = Malloc_slot [of l 0 "[1 ..< n]", folded h_def]
  have len: "length (pl_datas h) = n" using l(3) by (simp add: h_def put_slot_def)
  define h' where "h' = q_set_next 0 (Some 0) (q_set_prev 0 (Some 0) h)"
  have al: "q_alloc h 0" using len n by (simp add: q_alloc_def)
  have fr: "q_frame h h'"
    unfolding h'_def using al by (intro q_frame_trans [OF q_frame_set(2) q_frame_set(1)]) (simp_all add: q_alloc_def)
  have "dll (q_next h') (q_prev h') 0 []"
    using al by (simp add: dll_empty h'_def qh.heap_simps)
  moreover have "free_ok h' [1 ..< n]" using q_frame_free [OF fr] ml(2) l(2) up by simp
  moreover have "NewQueue zero cap = Inr \<lparr>q_pool = h', q_root = 0, q_len = 0, q_cap = cap\<rparr>"
    using l(1,2) ml(1) up len n(1) length_greater_0_conv [of "pl_datas h"]
    by (simp add: NewQueue_def Queue_init_def GetDataPointer_def slot_at_def h'_def)
  moreover have "length (pl_datas h') = n" using fr len by (simp add: q_frame_def)
  ultimately show ?thesis
    using n by (intro exI [of _ "\<lparr>q_pool = h', q_root = 0, q_len = 0, q_cap = cap\<rparr>"] exI [of _ "[1 ..< n]"])
      (auto simp: q_ok_def)
qed

lemma Queue_PopRange_spec:
  assumes "q_rel q xs vs"
  shows "\<exists>q' k. Queue_PopRange fn q s = Inr (q', snd (pop_while fn vs s)) \<and> q_rel q' (drop k xs) (fst (pop_while fn vs s))
    \<and> q_cap q' = q_cap q"
proof -
  obtain fs where q: "q_ok q xs fs" "vs = q_vals (q_pool q) xs" using assms by (auto simp: q_rel_def)
  have "length xs \<le> length (pl_datas (q_pool q))" by (rule q_ok_le [OF q(1)])
  from Queue_PopRange_loop_spec [OF q(1) this, of fn s] show ?thesis
    unfolding Queue_PopRange_def q_rel_def q(2) by (metis (no_types, lifting))
qed

lemma q_rel_length: "q_rel q xs vs \<Longrightarrow> length vs = length xs"
  by (simp add: q_rel_def q_vals_def)

lemma q_rel_push:
  assumes "q_rel q xs vs"
  shows "if int (length vs) < q_cap q then \<exists>n q'. Queue_Push v q = Inr (Some n, q') \<and> q_rel q' (xs @ [n]) (vs @ [v]) \<and> q_cap q' = q_cap q
    else Queue_Push v q = Inr (None, q)"
proof -
  obtain fs where q: "q_ok q xs fs" and vs: "vs = q_vals (q_pool q) xs" using assms by (auto simp: q_rel_def)
  have "int (length fs) + int (length vs) = q_cap q" using q_ok_len [OF q] by (simp add: vs q_vals_def)
  then have "int (length vs) < q_cap q \<longleftrightarrow> fs \<noteq> []" by (cases fs) auto
  then show ?thesis using Queue_Push_spec [OF q, of v] vs by (cases fs) (auto simp: q_rel_def)
qed

lemma q_rel_remove:
  assumes "q_rel q (as @ t # bs) (us @ u # ws)" "length as = length us"
  shows "\<exists>q'. Queue_Remove t q = Inr q' \<and> q_rel q' (as @ bs) (us @ ws) \<and> q_cap q' = q_cap q"
proof -
  obtain fs where q: "q_ok q (as @ t # bs) fs" and vs: "us @ u # ws = q_vals (q_pool q) (as @ t # bs)" using assms(1) by (auto simp: q_rel_def)
  have "us @ ws = q_vals (q_pool q) (as @ bs)" using vs assms(2) by (simp add: q_vals_def)
  then show ?thesis using Queue_Remove_spec [OF q] by (auto simp: q_rel_def)
qed


section \<open>Queues whose clients keep handles\<close>

text \<open>A client that remembers the node of each of its values by a key, to remove the value later: its handles and
  the nodes of the queue agree.\<close>

definition tracked :: "('a \<Rightarrow> 'k) \<Rightarrow> ('k \<Rightarrow> nat option) \<Rightarrow> nat list \<Rightarrow> 'a list \<Rightarrow> bool" where
  "tracked key own xs vs \<longleftrightarrow>
     map (own \<circ> key) vs = map Some xs \<and> distinct (map key vs) \<and> (\<forall>c. own c \<noteq> None \<longrightarrow> c \<in> key ` set vs)"

lemma map_upd_notin: "c \<notin> key ` set vs \<Longrightarrow> map (own(c := v) \<circ> key) vs = map (own \<circ> key) vs"
  by (auto simp: image_iff)

locale handle_queue =
  fixes rel :: "'q \<Rightarrow> nat list \<Rightarrow> 'a list \<Rightarrow> bool"
    and cap :: "'q \<Rightarrow> int"
    and push :: "'a \<Rightarrow> 'q \<Rightarrow> (nat option \<times> 'q) go"
    and remove :: "nat \<Rightarrow> 'q \<Rightarrow> 'q go"
    and pop_range :: "('a \<Rightarrow> 's \<Rightarrow> 's \<times> bool) \<Rightarrow> 'q \<Rightarrow> 's \<Rightarrow> ('q \<times> 's) go"
  assumes same_length: "rel q xs vs \<Longrightarrow> length vs = length xs"
    and push_law: "rel q xs vs \<Longrightarrow>
      (if int (length vs) < cap q then \<exists>n q'. push v q = Inr (Some n, q') \<and> rel q' (xs @ [n]) (vs @ [v]) \<and> cap q' = cap q
       else push v q = Inr (None, q))"
    and remove_law: "rel q (as @ t # bs) (us @ u # ws) \<Longrightarrow> length as = length us \<Longrightarrow>
      \<exists>q'. remove t q = Inr q' \<and> rel q' (as @ bs) (us @ ws) \<and> cap q' = cap q"
    and pop_law: "rel q xs vs \<Longrightarrow>
      \<exists>q' k. pop_range fn q s = Inr (q', snd (pop_while fn vs s)) \<and> rel q' (drop k xs) (fst (pop_while fn vs s)) \<and> cap q' = cap q"
begin

lemma push_tracked:
  assumes "rel q xs vs" "tracked key own xs vs" "key v \<notin> key ` set vs" "int (length vs) < cap q"
  shows "\<exists>n q'. push v q = Inr (Some n, q') \<and> rel q' (xs @ [n]) (vs @ [v]) \<and> tracked key (own(key v := Some n)) (xs @ [n]) (vs @ [v]) \<and> cap q' = cap q"
proof -
  obtain n q' where "push v q = Inr (Some n, q')" "rel q' (xs @ [n]) (vs @ [v])" "cap q' = cap q"
    using push_law [OF assms(1), of v] assms(4) by auto
  moreover have "tracked key (own(key v := Some n)) (xs @ [n]) (vs @ [v])"
    using assms(2,3) map_upd_notin [OF assms(3), of own "Some n"] by (auto simp: tracked_def)
  ultimately show ?thesis by blast
qed

lemma remove_tracked:
  assumes "rel q xs vs" "tracked key own xs vs" "own c = Some t"
  shows "\<exists>q' xs'. remove t q = Inr q' \<and> rel q' xs' (filter (\<lambda>v. key v \<noteq> c) vs)
    \<and> tracked key (own(c := None)) xs' (filter (\<lambda>v. key v \<noteq> c) vs) \<and> cap q' = cap q"
proof -
  obtain v where v: "v \<in> set vs" "key v = c" using assms(2,3) by (auto simp: tracked_def)
  then obtain us ws where vs: "vs = us @ v # ws" by (meson split_list)
  then obtain as t' bs where xs: "xs = as @ t' # bs" "map (own \<circ> key) us = map Some as" "Some t' = own c" "map (own \<circ> key) ws = map Some bs"
    using assms(2) v(2) by (auto simp: tracked_def map_eq_append_conv map_eq_Cons_conv append_eq_map_conv Cons_eq_map_conv)
  have d: "c \<notin> key ` set us" "c \<notin> key ` set ws" "distinct (map key (us @ ws))" using assms(2) vs v(2) by (auto simp: tracked_def)
  then have "filter (\<lambda>v. key v \<noteq> c) us = us" "filter (\<lambda>v. key v \<noteq> c) ws = ws" by (auto simp: filter_id_conv)
  then have flt: "filter (\<lambda>v. key v \<noteq> c) vs = us @ ws" using vs v(2) by simp
  have "length as = length us" using arg_cong [OF xs(2), of length] by simp
  then obtain q' where q: "remove t q = Inr q'" "rel q' (as @ bs) (us @ ws)" "cap q' = cap q"
    using remove_law [of q as t bs us v ws] assms(1,3) vs xs(1,3) by auto
  have "map (own(c := None) \<circ> key) (us @ ws) = map Some (as @ bs)"
    using map_upd_notin [OF d(1), of own None] map_upd_notin [OF d(2), of own None] xs(2,4) by simp
  moreover have "\<forall>k. (own(c := None)) k \<noteq> None \<longrightarrow> k \<in> key ` set (us @ ws)" using assms(2) vs v(2) by (auto simp: tracked_def)
  ultimately have "tracked key (own(c := None)) (as @ bs) (us @ ws)" using d(3) by (simp add: tracked_def)
  then show ?thesis using q flt by auto
qed

lemma pop_tracked:
  assumes "rel q xs vs" "tracked key own xs vs" "vs = out @ rest" "pop_while fn vs s = (rest, s')"
  shows "\<exists>q' xs'. pop_range fn q s = Inr (q', s') \<and> rel q' xs' rest
    \<and> tracked key (\<lambda>c. if c \<in> key ` set out then None else own c) xs' rest \<and> cap q' = cap q"
proof -
  let ?own = "\<lambda>c. if c \<in> key ` set out then None else own c"
  obtain q' k where q: "pop_range fn q s = Inr (q', s')" "rel q' (drop k xs) rest" "cap q' = cap q"
    using pop_law [OF assms(1), of fn s] unfolding assms(4) by auto
  have lx: "length xs = length out + length rest" using same_length [OF assms(1)] assms(3) by simp
  have k: "drop k xs = drop (length out) xs"
  proof (cases "rest = []")
    case True
    then show ?thesis using same_length [OF q(2)] lx by simp
  next
    case False
    then have "k = length out" using same_length [OF q(2)] lx by (cases "k \<le> length xs") auto
    then show ?thesis by simp
  qed
  have "map (?own \<circ> key) rest = map (own \<circ> key) rest" using assms(2,3) by (auto simp: tracked_def)
  also have "\<dots> = drop (length out) (map (own \<circ> key) vs)" by (simp add: assms(3))
  also have "\<dots> = map Some (drop k xs)" using assms(2) unfolding tracked_def k by (simp add: drop_map)
  finally have "tracked key ?own (drop k xs) rest" using assms(2,3) by (auto simp: tracked_def split: if_splits)
  then show ?thesis using q by blast
qed

end

interpretation hq: handle_queue q_rel q_cap Queue_Push Queue_Remove Queue_PopRange
proof
  fix q :: "'a Queue" and xs vs v
  assume "q_rel q xs vs"
  then show "length vs = length xs" by (rule q_rel_length)
next
  fix q :: "'a Queue" and xs vs v
  assume "q_rel q xs vs"
  then show "if int (length vs) < q_cap q then \<exists>n q'. Queue_Push v q = Inr (Some n, q') \<and> q_rel q' (xs @ [n]) (vs @ [v]) \<and> q_cap q' = q_cap q
      else Queue_Push v q = Inr (None, q)" by (rule q_rel_push)
next
  fix q :: "'a Queue" and as t bs us u ws
  assume "q_rel q (as @ t # bs) (us @ u # ws)" "length as = length us"
  then show "\<exists>q'. Queue_Remove t q = Inr q' \<and> q_rel q' (as @ bs) (us @ ws) \<and> q_cap q' = q_cap q" by (rule q_rel_remove)
next
  fix q :: "'a Queue" and xs vs and fn :: "'a \<Rightarrow> 'b \<Rightarrow> 'b \<times> bool" and s
  assume "q_rel q xs vs"
  then show "\<exists>q' k. Queue_PopRange fn q s = Inr (q', snd (pop_while fn vs s)) \<and> q_rel q' (drop k xs) (fst (pop_while fn vs s)) \<and> q_cap q' = q_cap q"
    by (rule Queue_PopRange_spec)
qed

lemma pop_while_all: "pop_while (\<lambda>_ s. (s, True)) vs s = ([], s)"
  by (induction vs) auto


section \<open>Properties\<close>

text \<open>C6: the queue is a bounded list. On a queue whose nodes \<open>xs\<close>, in order, carry the values \<open>vs\<close>, every
  operation returns and acts on \<open>vs\<close> as on a list: \<open>Push\<close> appends in a node that was not in use, or
  reports a full queue; \<open>Pop\<close> takes the first value; \<open>Remove\<close> and \<open>MoveToBack\<close> act on the position of the
  node they are given; \<open>Range\<close> and \<open>PopRange\<close> visit the values in order until the callback refuses; and
  \<open>Clear\<close> empties the queue. A new queue is empty.\<close>

theorem queue_refines_list:
  assumes r: "q_rel q xs vs"
  shows "Queue_Len q = int (length vs) \<and> (Queue_IsEmpty q \<longleftrightarrow> vs = []) \<and> (Queue_IsFull q \<longleftrightarrow> int (length vs) = q_cap q)
    \<and> (if Queue_IsFull q then Queue_Push v q = Inr (None, q)
       else \<exists>n q'. Queue_Push v q = Inr (Some n, q') \<and> n \<notin> set xs \<and> q_rel q' (xs @ [n]) (vs @ [v]) \<and> q_cap q' = q_cap q)
    \<and> (case vs of [] \<Rightarrow> Queue_Pop zero q = Inr (zero, q) \<and> Queue_First q = None
       | w # ws \<Rightarrow> Queue_First q = Some (hd xs) \<and> (\<exists>q'. Queue_Pop zero q = Inr (w, q') \<and> q_rel q' (tl xs) ws))
    \<and> (i < length xs \<longrightarrow>
        (\<exists>q'. Queue_Remove (xs ! i) q = Inr q' \<and> q_rel q' (take i xs @ drop (Suc i) xs) (take i vs @ drop (Suc i) vs))
      \<and> (\<exists>q'. Queue_MoveToBack (xs ! i) q = Inr q' \<and> q_rel q' (take i xs @ drop (Suc i) xs @ [xs ! i]) (take i vs @ drop (Suc i) vs @ [vs ! i])))
    \<and> (\<exists>q'. Queue_Range fn q s = Inr (q', snd (visit fn vs s)) \<and> q_rel q' xs (fst (visit fn vs s)))
    \<and> (\<exists>q' k. Queue_PopRange fn' q s' = Inr (q', snd (pop_while fn' vs s')) \<and> q_rel q' (drop k xs) (fst (pop_while fn' vs s')))
    \<and> (\<exists>q' k. Queue_Clear q = Inr q' \<and> q_rel q' (drop k xs) [])
    \<and> (0 \<le> cap \<longrightarrow> (\<exists>q'. NewQueue zero cap = Inr q' \<and> q_rel q' [] [] \<and> q_cap q' = cap))"
proof -
  obtain fs where q: "q_ok q xs fs" and vs: "vs = q_vals (q_pool q) xs" using r by (auto simp: q_rel_def)
  have len: "Queue_Len q = int (length vs)" using q by (simp add: Queue_Len_def q_ok_def vs q_vals_def)
  have lx: "length vs = length xs" by (simp add: vs q_vals_def)
  have "q_len q = int (length xs)" using q by (simp add: q_ok_def)
  moreover have "int (length fs) + int (length xs) = q_cap q" using q_ok_len [OF q] by linarith
  ultimately have full: "Queue_IsFull q \<longleftrightarrow> int (length vs) = q_cap q" "Queue_IsFull q \<longleftrightarrow> fs = []"
    by (auto simp: Queue_IsFull_def lx)
  have empty: "Queue_IsEmpty q \<longleftrightarrow> vs = []" using Queue_first(2) [OF q] by (simp add: vs q_vals_def)
  have push: "if Queue_IsFull q then Queue_Push v q = Inr (None, q)
       else \<exists>n q'. Queue_Push v q = Inr (Some n, q') \<and> n \<notin> set xs \<and> q_rel q' (xs @ [n]) (vs @ [v]) \<and> q_cap q' = q_cap q"
    using Queue_Push_spec [OF q, of v] full(2) vs by (cases fs) (auto simp: q_rel_def)
  have pop: "case vs of [] \<Rightarrow> Queue_Pop zero q = Inr (zero, q) \<and> Queue_First q = None
       | w # ws \<Rightarrow> Queue_First q = Some (hd xs) \<and> (\<exists>q'. Queue_Pop zero q = Inr (w, q') \<and> q_rel q' (tl xs) ws)"
  proof (cases xs)
    case Nil
    then show ?thesis using empty by (simp add: vs q_vals_def Queue_Pop_def Queue_First_def)
  next
    case (Cons x ys)
    obtain q' where "Queue_Remove x q = Inr q'" "q_ok q' ys (x # fs)" "q_vals (q_pool q') ys = q_vals (q_pool q) ys"
      using Queue_Remove_spec [of q "[]" x ys fs] q Cons by auto
    then show ?thesis
      using Queue_first [OF q] Cons
      by (auto simp: vs q_vals_def Queue_Pop_def Queue_First_def deref_def q_rel_def)
  qed
  have at: "(\<exists>q'. Queue_Remove (xs ! i) q = Inr q' \<and> q_rel q' (take i xs @ drop (Suc i) xs) (take i vs @ drop (Suc i) vs))
      \<and> (\<exists>q'. Queue_MoveToBack (xs ! i) q = Inr q' \<and> q_rel q' (take i xs @ drop (Suc i) xs @ [xs ! i]) (take i vs @ drop (Suc i) vs @ [vs ! i]))"
    if i: "i < length xs"
  proof -
    have sp: "q_ok q (take i xs @ xs ! i # drop (Suc i) xs) fs" using q id_take_nth_drop [OF i] by simp
    have vv: "q_vals (q_pool q) (take i xs @ drop (Suc i) xs) = take i vs @ drop (Suc i) vs"
      "q_vals (q_pool q) (take i xs @ drop (Suc i) xs @ [xs ! i]) = take i vs @ drop (Suc i) vs @ [vs ! i]"
      using i by (simp_all add: vs q_vals_def take_map drop_map)
    show ?thesis
      using Queue_Remove_spec [OF sp] Queue_MoveToBack_spec [OF sp] vv unfolding q_rel_def by (metis (no_types, lifting))
  qed
  have range: "\<exists>q'. Queue_Range fn q s = Inr (q', snd (visit fn vs s)) \<and> q_rel q' xs (fst (visit fn vs s))"
  proof -
    have "length xs \<le> length (pl_datas (q_pool q))" by (rule q_ok_le [OF q])
    from Queue_Range_loop_spec [of q "[]" xs fs, OF _ this, of fn s] q
    show ?thesis unfolding Queue_Range_def q_rel_def Queue_first(1) [OF q] vs by (auto simp: q_vals_def)
  qed
  have clear: "\<exists>q' k. Queue_Clear q = Inr q' \<and> q_rel q' (drop k xs) []"
    using Queue_PopRange_spec [OF r, of "\<lambda>_ s. (s, True)" "()", unfolded pop_while_all fst_conv snd_conv]
    unfolding Queue_Clear_def by (metis (no_types, lifting) case_prod_conv go_bind_Inr)
  have new: "\<exists>q'. NewQueue zero cap = Inr q' \<and> q_rel q' [] [] \<and> q_cap q' = cap" if "0 \<le> cap"
    using NewQueue_ok [OF that, of zero] by (auto simp: q_rel_def q_vals_def)
  show ?thesis using len empty full(1) push pop at range Queue_PopRange_spec [OF r, of fn' s'] clear new by blast
qed

theorem queue_refines_list_witness:
  "\<exists>q n q'. NewQueue (0 :: int) 2 = Inr q \<and> Queue_Push 7 q = Inr (Some n, q') \<and> q_rel q' [n] [7] \<and> \<not> Queue_IsFull q"
proof -
  obtain q fs where q: "NewQueue (0 :: int) 2 = Inr q" "q_ok q [] fs" "q_cap q = 2" using NewQueue_ok [of 2 0] by auto
  have "q_rel q [] []" using q(2) by (auto simp: q_rel_def q_vals_def)
  from queue_refines_list [OF this, where v = 7 and zero = 0 and i = 0 and fn = "\<lambda>v s. (v, s, True)" and s = "()"
      and fn' = "\<lambda>v s. (s, True)" and s' = "()" and cap = 2] q
  show ?thesis by auto
qed

end
