(* ===== verification/Ws_Timeout.thy ===== *)
theory Ws_Timeout
  imports Queue
begin

text \<open>
  Handshake timeouts: \<open>runTicker\<close> and \<open>updateHandshakingQueue\<close> of \<open>src/wsg/server.go\<close> on the queue of
  \<open>src/ds/staticlist/queue.go\<close>. Connections are numbered. Each connection that is still shaking hands has a node in the queue, and a
  pointer to it that the ticker uses to take it out early; a pointer to a node that has been given back would corrupt the queue, so
  the invariant says that the pointers and the nodes agree.
\<close>

record handshakingConn =
  hc_deadline :: int
  hc_conn :: nat

record hsServer =
  hs_queue :: "handshakingConn Queue"
  hs_qnode :: "nat \<Rightarrow> nat option"
  hs_upgraded :: "nat \<Rightarrow> bool"
  hs_closed :: "nat list"

text \<open>The cases of the \<open>select\<close>: a new connection, a connection whose handshake is over, a tick.\<close>

definition handshakingWait :: "handshakingConn \<Rightarrow> hsServer \<Rightarrow> hsServer go" where
  "handshakingWait c s =
    (if \<not> hs_upgraded s (hc_conn c)
     then go_bind (Queue_Push c (hs_queue s)) (\<lambda>(node, q).
       case node of
         Some n \<Rightarrow> Inr (s\<lparr>hs_queue := q, hs_qnode := (hs_qnode s)(hc_conn c := Some n)\<rparr>)
       | None \<Rightarrow> Inr (s\<lparr>hs_queue := q, hs_closed := hs_closed s @ [hc_conn c]\<rparr>))
     else Inr s)"

definition handshakingOver :: "nat \<Rightarrow> hsServer \<Rightarrow> hsServer go" where
  "handshakingOver conn s =
    (case hs_qnode s conn of
       None \<Rightarrow> Inr s
     | Some node \<Rightarrow> go_bind (Queue_Remove node (hs_queue s)) (\<lambda>q. Inr (s\<lparr>hs_queue := q, hs_qnode := (hs_qnode s)(conn := None)\<rparr>)))"

text \<open>The callback of \<open>PopRange\<close>, on the node pointers, the closed connections and \<open>nextDur\<close> in nanoseconds.\<close>

definition timeout_fn :: "int \<Rightarrow> (nat \<Rightarrow> bool) \<Rightarrow> handshakingConn \<Rightarrow> (nat \<Rightarrow> nat option) \<times> nat list \<times> int
    \<Rightarrow> ((nat \<Rightarrow> nat option) \<times> nat list \<times> int) \<times> bool" where
  "timeout_fn nowMs upgraded c st =
    (case st of (nodes, closed, nextDur) \<Rightarrow>
       if hc_deadline c > nowMs
       then let delta = i64 (hc_deadline c - nowMs); delta1 = (if delta < 10 then 10 else delta)
            in ((nodes, closed, i64 (delta1 * 1000000)), False)
       else ((nodes(hc_conn c := None), (if \<not> upgraded (hc_conn c) then closed @ [hc_conn c] else closed), nextDur), True))"

definition updateHandshakingQueue :: "int \<Rightarrow> hsServer \<Rightarrow> (hsServer \<times> int) go" where
  "updateHandshakingQueue nowMs s =
    go_bind (Queue_PopRange (timeout_fn nowMs (hs_upgraded s)) (hs_queue s) (hs_qnode s, hs_closed s, 0)) (\<lambda>(q, nodes, closed, nextDur).
      Inr (s\<lparr>hs_queue := q, hs_qnode := nodes, hs_closed := closed\<rparr>, nextDur))"

text \<open>One round of the ticker; \<open>Upgraded\<close> is the handshake of another goroutine succeeding.\<close>

datatype hs_event = Wait handshakingConn | Over nat | Tick int | Upgraded nat

fun runTicker_step :: "hs_event \<Rightarrow> hsServer \<Rightarrow> hsServer go" where
  "runTicker_step (Wait c) s = handshakingWait c s"
| "runTicker_step (Over conn) s = handshakingOver conn s"
| "runTicker_step (Tick now) s = go_bind (updateHandshakingQueue now s) (\<lambda>(s1, nextDur). Inr s1)"
| "runTicker_step (Upgraded conn) s = Inr (s\<lparr>hs_upgraded := (hs_upgraded s)(conn := True)\<rparr>)"

fun runTicker :: "hs_event list \<Rightarrow> hsServer \<Rightarrow> hsServer go" where
  "runTicker [] s = Inr s"
| "runTicker (e # es) s = go_bind (runTicker_step e s) (runTicker es)"

definition needDealWithHandshakeingTimeout :: "int \<Rightarrow> bool" where
  "needDealWithHandshakeingTimeout handshakeTimeout \<longleftrightarrow> handshakeTimeout > 0"


section \<open>The specification: a list of waiting connections\<close>

record waiting =
  wt_list :: "handshakingConn list"
  wt_upgraded :: "nat \<Rightarrow> bool"
  wt_closed :: "nat list"

fun wait_step :: "int \<Rightarrow> hs_event \<Rightarrow> waiting \<Rightarrow> waiting" where
  "wait_step cap (Wait c) w =
    (if wt_upgraded w (hc_conn c) then w
     else if int (length (wt_list w)) < cap then w\<lparr>wt_list := wt_list w @ [c]\<rparr>
     else w\<lparr>wt_closed := wt_closed w @ [hc_conn c]\<rparr>)"
| "wait_step cap (Over conn) w = w\<lparr>wt_list := filter (\<lambda>c. hc_conn c \<noteq> conn) (wt_list w)\<rparr>"
| "wait_step cap (Tick now) w =
    w\<lparr>wt_list := dropWhile (\<lambda>c. hc_deadline c \<le> now) (wt_list w),
      wt_closed := wt_closed w
        @ filter (\<lambda>conn. \<not> wt_upgraded w conn) (map hc_conn (takeWhile (\<lambda>c. hc_deadline c \<le> now) (wt_list w)))\<rparr>"
| "wait_step cap (Upgraded conn) w = w\<lparr>wt_upgraded := (wt_upgraded w)(conn := True)\<rparr>"

definition hs_rel :: "int \<Rightarrow> hsServer \<Rightarrow> waiting \<Rightarrow> bool" where
  "hs_rel cap s w \<longleftrightarrow>
    (\<exists>xs. q_rel (hs_queue s) xs (wt_list w) \<and> tracked hc_conn (hs_qnode s) xs (wt_list w))
   \<and> q_cap (hs_queue s) = cap \<and> hs_upgraded s = wt_upgraded w \<and> hs_closed s = wt_closed w"

lemma timeout_fn_due:
  "hc_deadline c \<le> now \<Longrightarrow> timeout_fn now up c (qn, cl, nd) = ((qn(hc_conn c := None), if up (hc_conn c) then cl else cl @ [hc_conn c], nd), True)"
  "\<not> hc_deadline c \<le> now \<Longrightarrow> \<exists>nd'. timeout_fn now up c (qn, cl, nd) = ((qn, cl, nd'), False)"
  by (simp_all add: timeout_fn_def Let_def)

lemma pop_while_timeout:
  "\<exists>nd'. pop_while (timeout_fn now up) vs (qn, cl, nd)
    = (dropWhile (\<lambda>c. hc_deadline c \<le> now) vs,
       (\<lambda>c. if c \<in> hc_conn ` set (takeWhile (\<lambda>c. hc_deadline c \<le> now) vs) then None else qn c),
       cl @ filter (\<lambda>conn. \<not> up conn) (map hc_conn (takeWhile (\<lambda>c. hc_deadline c \<le> now) vs)), nd')"
proof (induction vs arbitrary: qn cl)
  case (Cons v vs)
  show ?case
  proof (cases "hc_deadline v \<le> now")
    case True
    have "(\<lambda>c. if c \<in> S then None else (qn(k := None)) c) = (\<lambda>c. if c = k \<or> c \<in> S then None else qn c)" for S k by auto
    then show ?thesis using Cons [of "qn(hc_conn v := None)" "if up (hc_conn v) then cl else cl @ [hc_conn v]"] True
      by (cases "up (hc_conn v)") (simp_all add: timeout_fn_due(1) del: fun_upd_apply)
  next
    case False
    then show ?thesis using timeout_fn_due(2) [OF False, of up qn cl nd] by auto
  qed
qed auto

lemma hs_relE:
  assumes "hs_rel cap s w"
  obtains xs where "q_rel (hs_queue s) xs (wt_list w)" "tracked hc_conn (hs_qnode s) xs (wt_list w)" "q_cap (hs_queue s) = cap"
    "hs_upgraded s = wt_upgraded w" "hs_closed s = wt_closed w"
  using assms unfolding hs_rel_def by blast

lemma wait_refines:
  assumes "hs_rel cap s w" "hc_conn c \<notin> hc_conn ` set (wt_list w)"
  shows "\<exists>s'. handshakingWait c s = Inr s' \<and> hs_rel cap s' (wait_step cap (Wait c) w)"
proof -
  obtain xs where r: "q_rel (hs_queue s) xs (wt_list w)" "tracked hc_conn (hs_qnode s) xs (wt_list w)" "q_cap (hs_queue s) = cap"
    "hs_upgraded s = wt_upgraded w" "hs_closed s = wt_closed w" using assms(1) by (rule hs_relE)
  show ?thesis
  proof (cases "\<not> wt_upgraded w (hc_conn c) \<and> int (length (wt_list w)) < cap")
    case True
    then show ?thesis using hq.push_tracked [OF r(1,2) assms(2)] r(3-5) unfolding hs_rel_def by (auto simp: handshakingWait_def)
  next
    case False
    then show ?thesis using hq.push_law [OF r(1), of c] r unfolding hs_rel_def by (auto simp: handshakingWait_def)
  qed
qed

lemma over_refines:
  assumes "hs_rel cap s w"
  shows "\<exists>s'. handshakingOver conn s = Inr s' \<and> hs_rel cap s' (wait_step cap (Over conn) w)"
proof -
  obtain xs where r: "q_rel (hs_queue s) xs (wt_list w)" "tracked hc_conn (hs_qnode s) xs (wt_list w)" "q_cap (hs_queue s) = cap"
    "hs_upgraded s = wt_upgraded w" "hs_closed s = wt_closed w" using assms by (rule hs_relE)
  show ?thesis
  proof (cases "hs_qnode s conn")
    case None
    have "hc_conn c \<noteq> conn" if "c \<in> set (wt_list w)" for c
    proof -
      have "(hs_qnode s \<circ> hc_conn) c \<in> set (map Some xs)" using that r(2) unfolding tracked_def by (metis imageI set_map)
      then show ?thesis using None by auto
    qed
    then have "filter (\<lambda>c. hc_conn c \<noteq> conn) (wt_list w) = wt_list w" by simp
    then show ?thesis using assms None by (simp add: handshakingOver_def)
  next
    case (Some t)
    then show ?thesis using hq.remove_tracked [OF r(1,2) Some] r(3-5) unfolding hs_rel_def by (auto simp: handshakingOver_def)
  qed
qed

lemma tick_refines:
  assumes "hs_rel cap s w"
  shows "\<exists>s' nd. updateHandshakingQueue now s = Inr (s', nd) \<and> hs_rel cap s' (wait_step cap (Tick now) w)"
proof -
  obtain xs where r: "q_rel (hs_queue s) xs (wt_list w)" "tracked hc_conn (hs_qnode s) xs (wt_list w)" "q_cap (hs_queue s) = cap"
    "hs_upgraded s = wt_upgraded w" "hs_closed s = wt_closed w" using assms by (rule hs_relE)
  define out where "out = takeWhile (\<lambda>c. hc_deadline c \<le> now) (wt_list w)"
  define rest where "rest = dropWhile (\<lambda>c. hc_deadline c \<le> now) (wt_list w)"
  let ?nodes = "\<lambda>c. if c \<in> hc_conn ` set out then None else hs_qnode s c"
  let ?closed = "hs_closed s @ filter (\<lambda>conn. \<not> hs_upgraded s conn) (map hc_conn out)"
  have sp: "wt_list w = out @ rest" by (simp add: out_def rest_def)
  obtain nd where pw: "pop_while (timeout_fn now (hs_upgraded s)) (wt_list w) (hs_qnode s, hs_closed s, 0) = (rest, ?nodes, ?closed, nd)"
    using pop_while_timeout [of now "hs_upgraded s" "wt_list w" "hs_qnode s" "hs_closed s" 0] unfolding out_def rest_def by blast
  obtain q' xs' where q: "Queue_PopRange (timeout_fn now (hs_upgraded s)) (hs_queue s) (hs_qnode s, hs_closed s, 0) = Inr (q', ?nodes, ?closed, nd)"
    "q_rel q' xs' rest" "tracked hc_conn ?nodes xs' rest" "q_cap q' = cap"
    using hq.pop_tracked [OF r(1,2) sp pw] r(3) by auto
  have "wait_step cap (Tick now) w
      = w\<lparr>wt_list := rest, wt_closed := wt_closed w @ filter (\<lambda>conn. \<not> wt_upgraded w conn) (map hc_conn out)\<rparr>"
    by (simp add: out_def rest_def)
  then show ?thesis using q r(4,5) unfolding hs_rel_def by (auto simp: updateHandshakingQueue_def simp del: wait_step.simps)
qed


section \<open>Properties\<close>

definition wait_conns :: "hs_event list \<Rightarrow> nat list" where
  "wait_conns es = concat (map (\<lambda>e. case e of Wait c \<Rightarrow> [hc_conn c] | _ \<Rightarrow> []) es)"

lemma step_refines:
  assumes "hs_rel cap s w" "distinct (wait_conns (e # es))" "set (wait_conns (e # es)) \<inter> hc_conn ` set (wt_list w) = {}"
  shows "\<exists>s'. runTicker_step e s = Inr s' \<and> hs_rel cap s' (wait_step cap e w)
    \<and> set (wait_conns es) \<inter> hc_conn ` set (wt_list (wait_step cap e w)) = {}"
proof (cases e)
  case (Wait c)
  then show ?thesis using wait_refines [OF assms(1), of c] assms(2,3) by (auto simp: wait_conns_def)
next
  case (Over conn)
  then show ?thesis using over_refines [OF assms(1), of conn] assms(3) by (auto simp: wait_conns_def)
next
  case (Tick now)
  have "set (dropWhile (\<lambda>c. hc_deadline c \<le> now) (wt_list w)) \<subseteq> set (wt_list w)" by (auto dest: set_dropWhileD)
  then have "set (wait_conns es) \<inter> hc_conn ` set (wt_list (wait_step cap e w)) = {}" using assms(3) Tick by (simp add: wait_conns_def) blast
  moreover obtain s' nd where "updateHandshakingQueue now s = Inr (s', nd)" "hs_rel cap s' (wait_step cap (Tick now) w)"
    using tick_refines [OF assms(1), of now] by blast
  ultimately show ?thesis using Tick by simp
next
  case (Upgraded conn)
  then show ?thesis using assms(1,3) by (auto simp: hs_rel_def wait_conns_def)
qed

lemma run_refines:
  "hs_rel cap s w \<Longrightarrow> distinct (wait_conns es) \<Longrightarrow> set (wait_conns es) \<inter> hc_conn ` set (wt_list w) = {}
   \<Longrightarrow> \<exists>s'. runTicker es s = Inr s' \<and> hs_rel cap s' (fold (wait_step cap) es w)"
proof (induction es arbitrary: s w)
  case (Cons e es)
  obtain s1 where s1: "runTicker_step e s = Inr s1" "hs_rel cap s1 (wait_step cap e w)"
    "set (wait_conns es) \<inter> hc_conn ` set (wt_list (wait_step cap e w)) = {}"
    using step_refines [OF Cons.prems] by blast
  have "distinct (wait_conns es)" using Cons.prems(2) by (auto simp: wait_conns_def split: hs_event.splits)
  then show ?case using Cons.IH [OF s1(2) _ s1(3)] s1(1) by simp
qed simp

text \<open>C8: the handshake queue is a list of waiting connections with a timeout. For every sequence of events in which a connection
  opens at most once, the ticker on the linked queue never fails, the queue holds the waiting
  connections in order, each with a pointer to its own node, and the connections it closes are those that found the queue
  full and those that were not upgraded when their deadline passed.\<close>

theorem handshake_queue_refines:
  assumes "0 \<le> cap" "distinct (wait_conns es)"
  shows "\<exists>q s' xs. NewQueue zero cap = Inr q
    \<and> runTicker es \<lparr>hs_queue = q, hs_qnode = (\<lambda>c. None), hs_upgraded = (\<lambda>c. False), hs_closed = []\<rparr> = Inr s'
    \<and> (let w = fold (wait_step cap) es \<lparr>wt_list = [], wt_upgraded = (\<lambda>c. False), wt_closed = []\<rparr>
       in q_rel (hs_queue s') xs (wt_list w) \<and> map (hs_qnode s' \<circ> hc_conn) (wt_list w) = map Some xs \<and> hs_closed s' = wt_closed w)"
proof -
  obtain q fs where q: "NewQueue zero cap = Inr q" "q_ok q [] fs" "q_cap q = cap" using NewQueue_ok [OF assms(1), of zero] by auto
  have "hs_rel cap \<lparr>hs_queue = q, hs_qnode = (\<lambda>c. None), hs_upgraded = (\<lambda>c. False), hs_closed = []\<rparr>
      \<lparr>wt_list = [], wt_upgraded = (\<lambda>c. False), wt_closed = []\<rparr>"
    using q(2,3) by (auto simp: hs_rel_def q_rel_def q_vals_def tracked_def)
  from run_refines [OF this assms(2)] q(1) show ?thesis unfolding Let_def hs_rel_def tracked_def by auto
qed

theorem handshake_queue_refines_witness:
  "\<exists>q s'. NewQueue \<lparr>hc_deadline = 0, hc_conn = 0\<rparr> 2 = Inr q
    \<and> runTicker [Wait \<lparr>hc_deadline = 100, hc_conn = 1\<rparr>, Wait \<lparr>hc_deadline = 110, hc_conn = 2\<rparr>, Upgraded 1, Over 1, Tick 120]
        \<lparr>hs_queue = q, hs_qnode = (\<lambda>c. None), hs_upgraded = (\<lambda>c. False), hs_closed = []\<rparr> = Inr s' \<and> hs_closed s' = [2]"
proof -
  have "distinct (wait_conns [Wait \<lparr>hc_deadline = 100, hc_conn = 1\<rparr>, Wait \<lparr>hc_deadline = 110, hc_conn = 2\<rparr>, Upgraded 1, Over 1, Tick 120])"
    by (simp add: wait_conns_def)
  from handshake_queue_refines [OF _ this, of 2 "\<lparr>hc_deadline = 0, hc_conn = 0\<rparr>"] show ?thesis by (auto simp: Let_def)
qed

end
