(* ===== verification/Ws_Compress.thy ===== *)
theory Ws_Compress
  imports Ws_Frame
begin

text \<open>
  The writer of \<open>src/wsg/compression.go\<close> that holds back the last four bytes of a stream, where a compressed message ends in a
  sync marker that the protocol drops. The writer it writes to is an argument.
\<close>

definition minCompressionLevel :: int where "minCompressionLevel = - 2"
definition maxCompressionLevel :: int where "maxCompressionLevel = 9"

definition isValidCompressionLevel :: "int \<Rightarrow> bool" where
  "isValidCompressionLevel level \<longleftrightarrow> minCompressionLevel \<le> level \<and> level \<le> maxCompressionLevel"

record truncWriter =
  tw_n :: nat
  tw_p :: bytes

type_synonym 'o writer = "bytes \<Rightarrow> 'o \<Rightarrow> (nat \<times> io_err option) \<times> 'o"

text \<open>\<open>copy(dst[i:], src)\<close>: the array afterwards.\<close>

definition array_copy :: "nat \<Rightarrow> bytes \<Rightarrow> bytes \<Rightarrow> bytes" where
  "array_copy i src dst = take i dst @ take (length dst - i) src @ drop (i + length src) dst"

definition trunc_flush :: "'o writer \<Rightarrow> nat \<Rightarrow> bytes \<Rightarrow> truncWriter \<Rightarrow> 'o \<Rightarrow> (nat \<times> io_err option) \<times> truncWriter \<times> 'o" where
  "trunc_flush wr n p w out =
    (let m = (if length p > length (tw_p w) then length (tw_p w) else length p)
     in case wr (take m (tw_p w)) out of
          ((nn, Some err), out1) \<Rightarrow> ((n + nn, Some err), w, out1)
        | ((nn, None), out1) \<Rightarrow>
            let a = array_copy 0 (drop m (tw_p w)) (tw_p w);
                a1 = array_copy (length a - m) (drop (length p - m) p) a
            in case wr (take (length p - m) p) out1 of
                 ((nn1, err), out2) \<Rightarrow> ((n + nn1, err), w\<lparr>tw_p := a1\<rparr>, out2))"

definition truncWriter_Write :: "'o writer \<Rightarrow> bytes \<Rightarrow> truncWriter \<Rightarrow> 'o \<Rightarrow> (nat \<times> io_err option) \<times> truncWriter \<times> 'o" where
  "truncWriter_Write wr p w out =
    (if tw_n w < length (tw_p w)
     then let n = min (length (tw_p w) - tw_n w) (length p);
              w1 = w\<lparr>tw_p := array_copy (tw_n w) p (tw_p w), tw_n := tw_n w + n\<rparr>;
              p1 = drop n p
          in if p1 = [] then ((n, None), w1, out) else trunc_flush wr n p1 w1 out
     else trunc_flush wr 0 p w out)"

fun trunc_writes :: "'o writer \<Rightarrow> bytes list \<Rightarrow> truncWriter \<Rightarrow> 'o \<Rightarrow> truncWriter \<times> 'o" where
  "trunc_writes wr [] w out = (w, out)"
| "trunc_writes wr (p # ps) w out = (case truncWriter_Write wr p w out of (res, w1, out1) \<Rightarrow> trunc_writes wr ps w1 out1)"


section \<open>All but the last four bytes\<close>

definition tw_ok :: "truncWriter \<Rightarrow> bool" where
  "tw_ok w \<longleftrightarrow> tw_n w \<le> 4 \<and> length (tw_p w) = 4"

definition held :: "truncWriter \<Rightarrow> bytes" where
  "held w = take (tw_n w) (tw_p w)"

definition append_writer :: "bytes writer" where
  "append_writer b out = ((length b, None), out @ b)"

lemma array_copy_shift:
  assumes "length a = 4" "m \<le> 4" "m \<le> length p"
  shows "array_copy (length (array_copy 0 (drop m a) a) - m) (drop (length p - m) p) (array_copy 0 (drop m a) a) = drop m a @ drop (length p - m) p"
  using assms by (auto simp: array_copy_def)

lemma trunc_flush_ok:
  assumes "tw_ok w" "tw_n w = 4"
  shows "\<exists>w' k out'. trunc_flush append_writer n p w out = ((k, None), w', out') \<and> tw_ok w' \<and> tw_n w' = 4 \<and> out' @ held w' = out @ held w @ p"
proof -
  define m where "m = min 4 (length p)"
  have l: "length (tw_p w) = 4" "held w = tw_p w" using assms by (simp_all add: tw_ok_def held_def)
  have m: "m \<le> 4" "m \<le> length p" "(if length p > length (tw_p w) then length (tw_p w) else length p) = m" by (simp_all add: m_def l)
  let ?w = "w\<lparr>tw_p := drop m (tw_p w) @ drop (length p - m) p\<rparr>"
  have f: "trunc_flush append_writer n p w out
      = ((n + (length p - m), None), ?w, out @ take m (tw_p w) @ take (length p - m) p)"
    unfolding trunc_flush_def m(3) array_copy_shift [OF l(1) m(1,2)] Let_def by (simp add: append_writer_def)
  have "take m (tw_p w) @ take (length p - m) p = take (length p) (tw_p w @ p)" "drop m (tw_p w) @ drop (length p - m) p = drop (length p) (tw_p w @ p)"
    using l(1) by (auto simp: m_def min_def)
  then have "(out @ take m (tw_p w) @ take (length p - m) p) @ held ?w = out @ tw_p w @ p"
    if "held ?w = drop m (tw_p w) @ drop (length p - m) p" unfolding that append_assoc by (metis append_assoc append_take_drop_id)
  moreover have "held ?w = drop m (tw_p w) @ drop (length p - m) p" using assms l(1) m(1,2) by (simp add: held_def)
  moreover have "tw_ok ?w" "tw_n ?w = 4" using assms l(1) m(1,2) by (simp_all add: tw_ok_def)
  ultimately show ?thesis using f l(2) by auto
qed

lemma truncWriter_Write_ok:
  assumes "tw_ok w" "tw_n w = min 4 (length (out @ held w))" "tw_n w < 4 \<longrightarrow> out = []"
  shows "\<exists>w' k out'. truncWriter_Write append_writer p w out = ((k, None), w', out') \<and> tw_ok w'
    \<and> out' @ held w' = out @ held w @ p \<and> tw_n w' = min 4 (length (out @ held w @ p)) \<and> (tw_n w' < 4 \<longrightarrow> out' = [])"
proof (cases "tw_n w < 4")
  case False
  then have n: "tw_n w = 4" using assms(1) by (simp add: tw_ok_def)
  then have "4 \<le> length (held w)" using assms(1) by (simp add: tw_ok_def held_def)
  moreover obtain w' k out' where f: "trunc_flush append_writer 0 p w out = ((k, None), w', out')" "tw_ok w'" "tw_n w' = 4" "out' @ held w' = out @ held w @ p"
    using trunc_flush_ok [OF assms(1) n] by blast
  moreover have "truncWriter_Write append_writer p w out = trunc_flush append_writer 0 p w out"
    using n assms(1) by (simp add: truncWriter_Write_def tw_ok_def)
  ultimately show ?thesis by (intro exI [of _ w'] exI [of _ k] exI [of _ out'] conjI) simp_all
next
  case True
  define n where "n = min (4 - tw_n w) (length p)"
  define w1 where "w1 = w\<lparr>tw_p := array_copy (tw_n w) p (tw_p w), tw_n := tw_n w + n\<rparr>"
  have w1: "tw_ok w1" "held w1 = held w @ take n p"
    using True assms(1) by (auto simp: w1_def tw_ok_def held_def array_copy_def n_def min_def)
  have wr: "truncWriter_Write append_writer p w out = (if drop n p = [] then ((n, None), w1, out) else trunc_flush append_writer n (drop n p) w1 out)"
    using True assms(1) by (simp add: truncWriter_Write_def n_def w1_def tw_ok_def Let_def)
  show ?thesis
  proof (cases "drop n p = []")
    case True
    then have np: "n = length p" and n4: "tw_n w + n \<le> 4" using \<open>tw_n w < 4\<close> by (simp_all add: n_def)
    have "length (held w) = tw_n w" using assms(1) by (simp add: tw_ok_def held_def)
    then have "tw_n w1 = min 4 (length (out @ held w @ p))" using np \<open>tw_n w < 4\<close> assms(3) n4 by (simp add: w1_def)
    then show ?thesis using wr True w1 np assms(3) \<open>tw_n w < 4\<close> by (intro exI [of _ w1] exI [of _ n] exI [of _ out] conjI) simp_all
  next
    case False
    then have n1: "tw_n w1 = 4" using True by (auto simp: w1_def n_def)
    then have "4 \<le> length (held w1)" using w1(1) by (simp add: held_def tw_ok_def)
    then have len: "4 \<le> length (out @ held w @ p)" using w1(2) by (simp add: n_def)
    obtain w' k out' where f: "trunc_flush append_writer n (drop n p) w1 out = ((k, None), w', out')" "tw_ok w'" "tw_n w' = 4"
      "out' @ held w' = out @ held w1 @ drop n p" using trunc_flush_ok [OF w1(1) n1] by blast
    have "out @ held w1 @ drop n p = out @ held w @ p" unfolding w1(2) by simp
    then show ?thesis using wr False f len by (intro exI [of _ w'] exI [of _ k] exI [of _ out'] conjI) (simp_all del: append_assoc)
  qed
qed

text \<open>C34: whatever the pieces in which a stream is written, \<open>truncWriter\<close> passes on all of it but the last four bytes, and
  holds exactly those back.\<close>

theorem trunc_writer_holds_four:
  "case trunc_writes append_writer ps \<lparr>tw_n = 0, tw_p = [0, 0, 0, 0]\<rparr> [] of (w, out) \<Rightarrow>
     out @ held w = concat ps \<and> length (held w) = min 4 (length (concat ps))"
proof -
  have "case trunc_writes append_writer ps w out of (w', out') \<Rightarrow>
      out' @ held w' = out @ held w @ concat ps \<and> length (held w') = min 4 (length (out @ held w @ concat ps))"
    if "tw_ok w" "tw_n w = min 4 (length (out @ held w))" "tw_n w < 4 \<longrightarrow> out = []" for w out
    using that
  proof (induction ps arbitrary: w out)
    case Nil
    have "length (held w) = tw_n w" using Nil(1) by (simp add: tw_ok_def held_def)
    from trans [OF this Nil(2)] show ?case unfolding trunc_writes.simps prod.case concat.simps append_Nil2 by (intro conjI refl)
  next
    case (Cons p ps)
    obtain w1 k out1 where w1: "truncWriter_Write append_writer p w out = ((k, None), w1, out1)" "tw_ok w1"
      "out1 @ held w1 = out @ held w @ p" "tw_n w1 = min 4 (length (out @ held w @ p))" "tw_n w1 < 4 \<longrightarrow> out1 = []"
      using truncWriter_Write_ok [OF Cons.prems, of p] by blast
    have "out1 @ held w1 @ concat ps = out @ held w @ p @ concat ps" using w1(3) by (metis append_assoc)
    then have e: "out1 @ held w1 @ concat ps = out @ held w @ concat (p # ps)" by simp
    have n1: "tw_n w1 = min 4 (length (out1 @ held w1))" unfolding w1(3) by (rule w1(4))
    show ?case using Cons.IH [OF w1(2) n1 w1(5), unfolded e] w1(1) by simp
  qed
  from this [of "\<lparr>tw_n = 0, tw_p = [0, 0, 0, 0]\<rparr>" "[]"] show ?thesis by (simp add: tw_ok_def held_def)
qed

end
