(* ===== verification/Registry.thy ===== *)
theory Registry
  imports Prelude
begin

text \<open>
  The table of services that \<open>src/servicediscovery/impl/etcd/discovery.go\<close> keeps in memory, from the keys that it loads and the
  events that it watches. The etcd client, the random choice of an instance, the fresh identifiers and the
  Unicode lower-casing of names are arguments.
\<close>

section \<open>Keys\<close>

text \<open>\<open>strings.Split\<close> with a separator of one byte.\<close>

fun Split :: "char \<Rightarrow> string \<Rightarrow> string list" where
  "Split sep [] = [[]]"
| "Split sep (c # s) =
    (if c = sep then [] # Split sep s
     else case Split sep s of p # ps \<Rightarrow> (c # p) # ps | [] \<Rightarrow> [[c]])"

datatype registry_err = KeyNotMatchPrefix | KeyNotMatchFormat | NotExistService string | NotFoundService string | NotFoundAddr string | PutFailed

definition parseKey :: "string \<Rightarrow> string \<Rightarrow> registry_err + (string \<times> string)" where
  "parseKey pre key =
    (if take (length pre) key \<noteq> pre then Inl KeyNotMatchPrefix
     else let keys = Split CHR '':'' (drop (length pre) key)
          in if length keys \<noteq> 2 then Inl KeyNotMatchFormat else Inr (keys ! 0, keys ! 1))"


section \<open>The table\<close>

record serviceSet =
  ss_id2addr :: "string \<rightharpoonup> string"
  ss_ids :: "string list"

type_synonym serviceContainer = "string \<rightharpoonup> serviceSet"

record etcdImp =
  et_prefix :: string
  et_allServices :: serviceContainer
  et_regServs :: "string \<rightharpoonup> string"
  et_quit :: bool

definition addService :: "string \<Rightarrow> string \<Rightarrow> string \<Rightarrow> serviceContainer \<Rightarrow> bool \<times> serviceContainer" where
  "addService name sid addr all =
    (let services = (case all name of None \<Rightarrow> \<lparr>ss_id2addr = Map.empty, ss_ids = []\<rparr> | Some s \<Rightarrow> s) in
     if ss_id2addr services sid = None
     then (True, all(name \<mapsto> \<lparr>ss_id2addr = (ss_id2addr services)(sid \<mapsto> addr), ss_ids = ss_ids services @ [sid]\<rparr>))
     else (False, all(name \<mapsto> services)))"

text \<open>The loop of \<open>delService\<close>: the first match is overwritten by the last element, which is cut off.\<close>

definition remove_id :: "string \<Rightarrow> string list \<Rightarrow> string list option" where
  "remove_id sid ids =
    (let i = length (takeWhile (\<lambda>v. v \<noteq> sid) ids)
     in if i < length ids then Some (butlast (ids[i := last ids])) else None)"

definition delService :: "string \<Rightarrow> string \<Rightarrow> serviceContainer \<Rightarrow> bool \<times> serviceContainer" where
  "delService name sid all =
    (case all name of
       None \<Rightarrow> (False, all)
     | Some services \<Rightarrow>
         let m = (ss_id2addr services)(sid := None)
         in (case remove_id sid (ss_ids services) of
              None \<Rightarrow> (False, all(name \<mapsto> services\<lparr>ss_id2addr := m\<rparr>))
            | Some ids \<Rightarrow> (True, all(name \<mapsto> \<lparr>ss_id2addr = m, ss_ids = ids\<rparr>))))"

text \<open>A watched event; the result is the new state and, when the key of this node was deleted, the key that is put again.\<close>

datatype watch_event = EventPut string string | EventDelete string

fun onWatchEvent :: "watch_event \<Rightarrow> etcdImp \<Rightarrow> etcdImp \<times> (string \<times> string) option" where
  "onWatchEvent (EventDelete key) e =
    (case parseKey (et_prefix e) key of
       Inl err \<Rightarrow> (e, None)
     | Inr (name, sid) \<Rightarrow>
         (e\<lparr>et_allServices := snd (delService name sid (et_allServices e))\<rparr>,
          case et_regServs e key of
            Some rpcAddr \<Rightarrow> if \<not> et_quit e then Some (key, rpcAddr) else None
          | None \<Rightarrow> None))"
| "onWatchEvent (EventPut key v) e =
    (case parseKey (et_prefix e) key of
       Inl err \<Rightarrow> (e, None)
     | Inr (name, sid) \<Rightarrow> (e\<lparr>et_allServices := snd (addService name sid v (et_allServices e))\<rparr>, None))"

definition load_one :: "string \<Rightarrow> string \<times> string \<Rightarrow> serviceContainer \<Rightarrow> serviceContainer" where
  "load_one pre kv all =
    (if length (fst kv) < length pre then all
     else case parseKey pre (fst kv) of
            Inl err \<Rightarrow> all
          | Inr (name, sid) \<Rightarrow> snd (addService name sid (snd kv) all))"

definition loadExistedServices :: "(string \<times> string) list \<Rightarrow> etcdImp \<Rightarrow> etcdImp" where
  "loadExistedServices kvs e = e\<lparr>et_allServices := fold (load_one (et_prefix e)) kvs (et_allServices e)\<rparr>"

definition loadAndWatch :: "(string \<times> string) list \<Rightarrow> etcdImp \<Rightarrow> etcdImp" where
  "loadAndWatch kvs e = loadExistedServices kvs (e\<lparr>et_allServices := Map.empty\<rparr>)"

definition cut_at :: "char \<Rightarrow> string \<Rightarrow> (string \<times> string) option" where
  "cut_at sep s = (case dropWhile (\<lambda>c. c \<noteq> sep) s of [] \<Rightarrow> None | _ # r \<Rightarrow> Some (takeWhile (\<lambda>c. c \<noteq> sep) s, r))"

text \<open>\<open>pick n\<close> is \<open>rand.Intn(n)\<close>.\<close>

definition GetService :: "(string \<Rightarrow> string) \<Rightarrow> (nat \<Rightarrow> nat) \<Rightarrow> string \<Rightarrow> etcdImp \<Rightarrow> registry_err + string" where
  "GetService ToLower pick serviceName0 e =
    (let (serviceName, serviceUUID) = (case cut_at CHR '':'' (ToLower serviceName0) of None \<Rightarrow> (ToLower serviceName0, '''') | Some p \<Rightarrow> p)
     in case et_allServices e serviceName of
          None \<Rightarrow> Inl (NotExistService serviceName)
        | Some services \<Rightarrow>
            if ss_ids services = [] then Inl (NotFoundService serviceName)
            else let uuid = (if serviceUUID = [] then ss_ids services ! pick (length (ss_ids services)) else serviceUUID)
                 in (case ss_id2addr services uuid of
                      None \<Rightarrow> Inl (NotFoundAddr serviceName)
                    | Some addr \<Rightarrow> Inr addr))"

definition GetAllService :: "(string \<Rightarrow> string) \<Rightarrow> string \<Rightarrow> etcdImp \<Rightarrow> registry_err + (string \<rightharpoonup> string)" where
  "GetAllService ToLower serviceName0 e =
    (let serviceName = (case cut_at CHR '':'' (ToLower serviceName0) of None \<Rightarrow> ToLower serviceName0 | Some p \<Rightarrow> fst p)
     in case et_allServices e serviceName of
          None \<Rightarrow> Inl (NotExistService serviceName)
        | Some services \<Rightarrow> Inr (ss_id2addr services))"

text \<open>\<open>putServiceKey\<close> remembers the key of this node when the client's \<open>Grant\<close> and \<open>Put\<close> succeed (\<open>put\<close>); the keep-alive that follows
  may still fail (\<open>alive\<close>). \<open>RegisterService\<close> names the node by a fresh identifier.\<close>

definition putServiceKey :: "bool \<Rightarrow> bool \<Rightarrow> string \<Rightarrow> string \<Rightarrow> etcdImp \<Rightarrow> registry_err option \<times> etcdImp" where
  "putServiceKey put alive key rpcAddr e =
    (if \<not> put then (Some PutFailed, e)
     else let e1 = e\<lparr>et_regServs := (et_regServs e)(key \<mapsto> rpcAddr)\<rparr> in (if alive then None else Some PutFailed, e1))"

definition RegisterService :: "(string \<Rightarrow> string) \<Rightarrow> string \<Rightarrow> bool \<Rightarrow> bool \<Rightarrow> string \<Rightarrow> string \<Rightarrow> etcdImp
    \<Rightarrow> (string \<times> registry_err option) \<times> etcdImp" where
  "RegisterService ToLower uuid put alive serviceName rpcAddr e =
    (let nodeName = ToLower serviceName @ '':'' @ uuid;
         (err, e1) = putServiceKey put alive (et_prefix e @ nodeName) rpcAddr e
     in ((nodeName, err), e1))"

text \<open>\<open>UnregisterService\<close> on the keys of this node in the order in which they are visited; \<open>del key\<close> says whether the client's delete
  succeeds, and the first failure ends the visit.\<close>

fun unregister_loop :: "(string \<Rightarrow> bool) \<Rightarrow> string \<Rightarrow> string list \<Rightarrow> etcdImp \<Rightarrow> etcdImp" where
  "unregister_loop del serviceName [] e = e"
| "unregister_loop del serviceName (key # keys) e =
    (if serviceName \<in> set (Split CHR '':'' (drop (length (et_prefix e)) key))
     then (if del key then unregister_loop del serviceName keys (e\<lparr>et_regServs := (et_regServs e)(key := None)\<rparr>) else e)
     else unregister_loop del serviceName keys e)"

definition UnregisterService :: "(string \<Rightarrow> bool) \<Rightarrow> string \<Rightarrow> string list \<Rightarrow> etcdImp \<Rightarrow> registry_err option \<times> etcdImp" where
  "UnregisterService del serviceName keys e = (None, unregister_loop del serviceName keys e)"


section \<open>Keys and their parts\<close>

definition colon_free :: "string \<Rightarrow> bool" where
  "colon_free s \<longleftrightarrow> CHR '':'' \<notin> set s"

definition service_key :: "string \<Rightarrow> string \<Rightarrow> string \<Rightarrow> string" where
  "service_key pre name sid = pre @ name @ '':'' @ sid"

lemma Split_ne: "Split sep s \<noteq> []"
  by (induction s) (auto split: list.splits)

lemma Split_free: "sep \<notin> set s \<Longrightarrow> Split sep s = [s]"
  by (induction s) auto

lemma Split_join: "sep \<notin> set a \<Longrightarrow> Split sep (a @ sep # b) = a # Split sep b"
  by (induction a) auto

lemma Split_one: "Split sep s = [a] \<Longrightarrow> s = a \<and> sep \<notin> set a"
  by (induction s arbitrary: a) (auto split: if_splits list.splits simp: Split_ne)

lemma Split_two: "Split sep s = [a, b] \<Longrightarrow> s = a @ sep # b \<and> sep \<notin> set a \<and> sep \<notin> set b"
proof (induction s arbitrary: a)
  case (Cons c s)
  show ?case
  proof (cases "c = sep")
    case True
    then show ?thesis using Cons.prems Split_one [of sep s b] by auto
  next
    case False
    then obtain p where "Split sep s = [p, b]" "a = c # p" using Cons.prems by (auto split: list.splits simp: Split_ne)
    then show ?thesis using Cons.IH [of p] False by auto
  qed
qed simp

lemma parseKey_iff: "parseKey pre key = Inr (name, sid) \<longleftrightarrow> key = service_key pre name sid \<and> colon_free name \<and> colon_free sid"
proof
  assume a: "parseKey pre key = Inr (name, sid)"
  let ?ks = "Split CHR '':'' (drop (length pre) key)"
  have t: "take (length pre) key = pre" "length ?ks = 2" "name = ?ks ! 0" "sid = ?ks ! 1"
    using a by (auto simp: parseKey_def Let_def split: if_splits)
  have "?ks = [name, sid]" by (rule nth_equalityI) (use t(2-4) in \<open>auto simp: less_2_cases_iff\<close>)
  from Split_two [OF this] have "drop (length pre) key = name @ '':'' @ sid \<and> colon_free name \<and> colon_free sid" by (simp add: colon_free_def)
  then show "key = service_key pre name sid \<and> colon_free name \<and> colon_free sid"
    using append_take_drop_id [of "length pre" key] t(1) by (simp add: service_key_def)
next
  assume "key = service_key pre name sid \<and> colon_free name \<and> colon_free sid"
  then show "parseKey pre key = Inr (name, sid)"
    using Split_join [of "CHR '':''" name sid] Split_free [of "CHR '':''" sid] by (simp add: parseKey_def service_key_def colon_free_def)
qed

lemma service_key_inj:
  "colon_free n \<Longrightarrow> colon_free i \<Longrightarrow> colon_free n' \<Longrightarrow> colon_free i' \<Longrightarrow> service_key p n i = service_key p n' i' \<longleftrightarrow> n = n' \<and> i = i'"
proof -
  assume "colon_free n" "colon_free i" "colon_free n'" "colon_free i'"
  then have k: "parseKey p (service_key p n i) = Inr (n, i)" "parseKey p (service_key p n' i') = Inr (n', i')"
    by (simp_all add: parseKey_iff)
  show ?thesis
  proof
    assume "service_key p n i = service_key p n' i'"
    with k have "Inr (n, i) = (Inr (n', i') :: registry_err + string \<times> string)" by (simp only:)
    then show "n = n' \<and> i = i'" by simp
  qed simp
qed


section \<open>The table follows the store\<close>

lemma takeWhile_first: "x \<notin> set as \<Longrightarrow> takeWhile (\<lambda>v. v \<noteq> x) (as @ x # bs) = as"
  by (induction as) auto

lemma remove_id_spec:
  assumes "distinct ids"
  shows "case remove_id sid ids of None \<Rightarrow> sid \<notin> set ids | Some ids' \<Rightarrow> distinct ids' \<and> set ids' = set ids - {sid}"
proof (cases "sid \<in> set ids")
  case True
  then obtain as bs where sp: "ids = as @ sid # bs" "sid \<notin> set as" by (meson split_list_first)
  then have "takeWhile (\<lambda>v. v \<noteq> sid) ids = as" by (simp add: takeWhile_first)
  then have r: "remove_id sid ids = Some (butlast (ids[length as := last ids]))" using sp by (simp add: remove_id_def)
  show ?thesis
  proof (cases bs rule: rev_cases)
    case Nil
    then show ?thesis using r sp assms by simp
  next
    case (snoc cs l)
    then have "butlast (ids[length as := last ids]) = as @ l # cs" using sp by (simp add: butlast_append)
    then show ?thesis using r sp snoc assms by auto
  qed
next
  case False
  then have "takeWhile (\<lambda>v. v \<noteq> sid) ids = ids" by auto
  then have "remove_id sid ids = None" unfolding remove_id_def Let_def by (simp only: less_irrefl if_False)
  then show ?thesis using False by simp
qed

text \<open>The index of a set of services lists each of its identifiers once.\<close>

definition table_ok :: "serviceContainer \<Rightarrow> bool" where
  "table_ok all \<longleftrightarrow> (\<forall>name s. all name = Some s \<longrightarrow> distinct (ss_ids s) \<and> set (ss_ids s) = dom (ss_id2addr s) \<and> (\<forall>i \<in> set (ss_ids s). colon_free i))"

definition addr_of :: "serviceContainer \<Rightarrow> string \<Rightarrow> string \<Rightarrow> string option" where
  "addr_of all name sid = (case all name of None \<Rightarrow> None | Some s \<Rightarrow> ss_id2addr s sid)"

lemma add_spec:
  assumes "table_ok all"
  shows "colon_free sid \<Longrightarrow> table_ok (snd (addService name sid addr all))"
    and "addr_of (snd (addService name sid addr all)) n i
      = (if n = name \<and> i = sid \<and> addr_of all name sid = None then Some addr else addr_of all n i)"
  using assms by (auto simp: addService_def table_ok_def addr_of_def Let_def split: option.splits)

lemma del_spec:
  assumes "table_ok all"
  shows "table_ok (snd (delService name sid all))"
    and "addr_of (snd (delService name sid all)) n i = (if n = name \<and> i = sid then None else addr_of all n i)"
proof -
  have "table_ok (snd (delService name sid all)) \<and> addr_of (snd (delService name sid all)) n i = (if n = name \<and> i = sid then None else addr_of all n i)"
  proof (cases "all name")
    case None
    then show ?thesis using assms by (simp add: delService_def addr_of_def)
  next
    case (Some s)
    then have s: "distinct (ss_ids s)" "set (ss_ids s) = dom (ss_id2addr s)" "\<forall>i \<in> set (ss_ids s). colon_free i" using assms unfolding table_ok_def by blast+
    then show ?thesis using remove_id_spec [OF s(1), of sid] assms Some
      by (auto simp: delService_def table_ok_def addr_of_def Let_def split: option.splits)
  qed
  then show "table_ok (snd (delService name sid all))"
    "addr_of (snd (delService name sid all)) n i = (if n = name \<and> i = sid then None else addr_of all n i)" by simp_all
qed

text \<open>The store of etcd as a map from keys to values.\<close>

definition follows :: "etcdImp \<Rightarrow> (string \<rightharpoonup> string) \<Rightarrow> bool" where
  "follows e store \<longleftrightarrow> table_ok (et_allServices e)
   \<and> (\<forall>name sid. colon_free name \<longrightarrow> colon_free sid \<longrightarrow> addr_of (et_allServices e) name sid = store (service_key (et_prefix e) name sid))"

fun store_step :: "watch_event \<Rightarrow> (string \<rightharpoonup> string) \<Rightarrow> (string \<rightharpoonup> string)" where
  "store_step (EventPut k v) st = st(k \<mapsto> v)"
| "store_step (EventDelete k) st = st(k := None)"

text \<open>No key that is live is put again with another value; registration uses a fresh identifier, and the renewal of a lost key follows
  its deletion.\<close>

fun fresh_puts :: "watch_event list \<Rightarrow> (string \<rightharpoonup> string) \<Rightarrow> bool" where
  "fresh_puts [] st = True"
| "fresh_puts (ev # evs) st =
    ((case ev of EventPut k v \<Rightarrow> st k = None \<or> st k = Some v | _ \<Rightarrow> True) \<and> fresh_puts evs (store_step ev st))"

lemma put_follows:
  assumes "table_ok all" "\<forall>n i. colon_free n \<longrightarrow> colon_free i \<longrightarrow> addr_of all n i = store (service_key pre n i)"
    and "store k = None \<or> store k = Some v"
  shows "case parseKey pre k of Inl err \<Rightarrow> (\<forall>n i. colon_free n \<longrightarrow> colon_free i \<longrightarrow> addr_of all n i = (store(k \<mapsto> v)) (service_key pre n i))
    | Inr (name, sid) \<Rightarrow> table_ok (snd (addService name sid v all))
        \<and> (\<forall>n i. colon_free n \<longrightarrow> colon_free i \<longrightarrow> addr_of (snd (addService name sid v all)) n i = (store(k \<mapsto> v)) (service_key pre n i))"
proof (cases "parseKey pre k")
  case (Inl err)
  then have "service_key pre n i \<noteq> k" if "colon_free n" "colon_free i" for n i using parseKey_iff [of pre k n i] that by auto
  then show ?thesis using Inl assms(2) by simp
next
  case (Inr p)
  obtain name sid where p: "p = (name, sid)" by force
  then have k: "k = service_key pre name sid" "colon_free name" "colon_free sid" using Inr parseKey_iff by auto
  have "addr_of (snd (addService name sid v all)) n i = (store(k \<mapsto> v)) (service_key pre n i)" if "colon_free n" "colon_free i" for n i
  proof -
    have "service_key pre n i = k \<longleftrightarrow> n = name \<and> i = sid" unfolding k(1) by (rule service_key_inj [OF that k(2,3)])
    moreover have "addr_of all name sid = store k" using assms(2) k by simp
    moreover have "addr_of all n i = store (service_key pre n i)" using assms(2) that by simp
    ultimately show ?thesis using assms(3) add_spec(2) [OF assms(1), of name sid v n i] by (cases "n = name \<and> i = sid") auto
  qed
  then show ?thesis using Inr p add_spec(1) [OF assms(1) k(3)] by simp
qed

lemma event_follows:
  assumes "follows e store" "case ev of EventPut k v \<Rightarrow> store k = None \<or> store k = Some v | _ \<Rightarrow> True"
  shows "follows (fst (onWatchEvent ev e)) (store_step ev store)" "et_prefix (fst (onWatchEvent ev e)) = et_prefix e"
proof -
  let ?p = "et_prefix e" and ?all = "et_allServices e"
  have t: "table_ok ?all" "\<forall>n i. colon_free n \<longrightarrow> colon_free i \<longrightarrow> addr_of ?all n i = store (service_key ?p n i)"
    using assms(1) by (simp_all add: follows_def)
  show "et_prefix (fst (onWatchEvent ev e)) = et_prefix e" by (cases ev) (auto split: sum.splits)
  show "follows (fst (onWatchEvent ev e)) (store_step ev store)"
  proof (cases ev)
    case (EventPut k v)
    then have "store k = None \<or> store k = Some v" using assms(2) by simp
    from put_follows [OF t this] show ?thesis using t(1) EventPut by (cases "parseKey ?p k") (auto simp: follows_def split: prod.splits)
  next
    case (EventDelete k)
    show ?thesis
    proof (cases "parseKey ?p k")
      case (Inl err)
      then have "service_key ?p n i \<noteq> k" if "colon_free n" "colon_free i" for n i using parseKey_iff [of ?p k n i] that by auto
      then show ?thesis using Inl t EventDelete by (simp add: follows_def)
    next
      case (Inr p)
      obtain name sid where p: "p = (name, sid)" by force
      then have k: "k = service_key ?p name sid" "colon_free name" "colon_free sid" using Inr parseKey_iff by auto
      have "addr_of (snd (delService name sid ?all)) n i = (store(k := None)) (service_key ?p n i)" if "colon_free n" "colon_free i" for n i
      proof -
        have "service_key ?p n i = k \<longleftrightarrow> n = name \<and> i = sid" unfolding k(1) by (rule service_key_inj [OF that k(2,3)])
        moreover have "addr_of ?all n i = store (service_key ?p n i)" using t(2) that by simp
        ultimately show ?thesis using del_spec(2) [OF t(1), of name sid n i] by simp
      qed
      then show ?thesis using Inr p EventDelete del_spec(1) [OF t(1)] by (simp add: follows_def)
    qed
  qed
qed

lemma events_follow:
  "follows e store \<Longrightarrow> fresh_puts evs store \<Longrightarrow> follows (fold (\<lambda>ev e. fst (onWatchEvent ev e)) evs e) (fold store_step evs store)"
proof (induction evs arbitrary: e store)
  case (Cons ev evs)
  then show ?case using event_follows(1) [of e store ev] by simp
qed simp

lemma load_follows:
  assumes "distinct (map fst kvs)"
  shows "follows (loadAndWatch kvs e) (map_of kvs)"
proof -
  let ?p = "et_prefix e"
  have all: "table_ok (fold (load_one ?p) kvs all)
      \<and> (\<forall>n i. colon_free n \<longrightarrow> colon_free i \<longrightarrow> addr_of (fold (load_one ?p) kvs all) n i = (st ++ map_of kvs) (service_key ?p n i))"
    if "table_ok all" "\<forall>n i. colon_free n \<longrightarrow> colon_free i \<longrightarrow> addr_of all n i = st (service_key ?p n i)" "fst ` set kvs \<inter> dom st = {}" for all st
    using that assms
  proof (induction kvs arbitrary: all st)
    case (Cons kv kvs)
    obtain k v where kv: "kv = (k, v)" by force
    have "st k = None" using Cons.prems(3) kv by auto
    then have pf: "case parseKey ?p k of Inl err \<Rightarrow> (\<forall>n i. colon_free n \<longrightarrow> colon_free i \<longrightarrow> addr_of all n i = (st(k \<mapsto> v)) (service_key ?p n i))
      | Inr (name, sid) \<Rightarrow> table_ok (snd (addService name sid v all))
        \<and> (\<forall>n i. colon_free n \<longrightarrow> colon_free i \<longrightarrow> addr_of (snd (addService name sid v all)) n i = (st(k \<mapsto> v)) (service_key ?p n i))"
      by (intro put_follows Cons.prems) simp
    have short: "parseKey ?p k = Inl KeyNotMatchPrefix" if "length k < length ?p"
    proof -
      have "take (length ?p) k \<noteq> ?p" using that by (metis length_take min.strict_order_iff not_less_iff_gr_or_eq)
      then show ?thesis by (simp add: parseKey_def)
    qed
    have step: "table_ok (load_one ?p kv all)"
      "\<forall>n i. colon_free n \<longrightarrow> colon_free i \<longrightarrow> addr_of (load_one ?p kv all) n i = (st(k \<mapsto> v)) (service_key ?p n i)"
      using pf Cons.prems(1) short by (auto simp: load_one_def kv split: sum.splits prod.splits if_splits)
    have dj: "fst ` set kvs \<inter> dom (st(k \<mapsto> v)) = {}" using Cons.prems(3,4) kv by auto
    have dk: "distinct (map fst kvs)" "map_of kvs k = None" using Cons.prems(4) kv by (simp_all add: map_of_eq_None_iff)
    have eq: "st(k \<mapsto> v) ++ map_of kvs = st ++ map_of (kv # kvs)"
      by (rule ext) (simp add: kv map_add_def dk(2) split: option.split)
    show ?case using Cons.IH [OF step dj dk(1)] unfolding eq fold_simps(2) .
  qed simp
  have "table_ok (fold (load_one ?p) kvs Map.empty)
      \<and> (\<forall>n i. colon_free n \<longrightarrow> colon_free i \<longrightarrow> addr_of (fold (load_one ?p) kvs Map.empty) n i = (Map.empty ++ map_of kvs) (service_key ?p n i))"
    by (rule all) (simp_all add: table_ok_def addr_of_def)
  then show ?thesis unfolding follows_def loadAndWatch_def loadExistedServices_def by simp
qed


section \<open>Properties\<close>


definition demo_etcd :: etcdImp where
  "demo_etcd = \<lparr>et_prefix = ''gbs:service:'', et_allServices = Map.empty, et_regServs = Map.empty, et_quit = False\<rparr>"


lemma cut_at_free: "sep \<notin> set s \<Longrightarrow> cut_at sep s = None"
proof -
  assume "sep \<notin> set s"
  then have "dropWhile (\<lambda>c. c \<noteq> sep) s = []" by auto
  then show ?thesis by (simp only: cut_at_def list.case)
qed

lemma dropWhile_first: "x \<notin> set as \<Longrightarrow> dropWhile (\<lambda>v. v \<noteq> x) (as @ x # bs) = x # bs"
  by (induction as) auto

lemma cut_at_join: "sep \<notin> set a \<Longrightarrow> cut_at sep (a @ sep # b) = Some (a, b)"
  by (simp add: cut_at_def dropWhile_first takeWhile_first)

lemma followsD:
  assumes "follows e store" "et_allServices e name = Some s" "colon_free name"
  shows "distinct (ss_ids s)" "set (ss_ids s) = dom (ss_id2addr s)" "\<And>i. i \<in> set (ss_ids s) \<Longrightarrow> colon_free i"
    "\<And>i. colon_free i \<Longrightarrow> ss_id2addr s i = store (service_key (et_prefix e) name i)"
proof -
  have "distinct (ss_ids s) \<and> set (ss_ids s) = dom (ss_id2addr s) \<and> (\<forall>i \<in> set (ss_ids s). colon_free i)"
    using assms unfolding follows_def table_ok_def by blast
  then show "distinct (ss_ids s)" "set (ss_ids s) = dom (ss_id2addr s)" "\<And>i. i \<in> set (ss_ids s) \<Longrightarrow> colon_free i" by blast+
  show "ss_id2addr s i = store (service_key (et_prefix e) name i)" if "colon_free i" for i
  proof -
    have "addr_of (et_allServices e) name i = store (service_key (et_prefix e) name i)" using assms(1,3) that unfolding follows_def by blast
    then show ?thesis using assms(2) by (simp add: addr_of_def)
  qed
qed

lemma get_service_spec:
  assumes "follows e store" "\<forall>n. 0 < n \<longrightarrow> pick n < n" "colon_free name" "ToLower s = name"
  shows "case GetService ToLower pick s e of
      Inl err \<Rightarrow> \<forall>i. colon_free i \<longrightarrow> store (service_key (et_prefix e) name i) = None
    | Inr addr \<Rightarrow> \<exists>i. colon_free i \<and> store (service_key (et_prefix e) name i) = Some addr"
    and "colon_free i \<Longrightarrow> i \<noteq> [] \<Longrightarrow> ToLower s' = name @ '':'' @ i \<Longrightarrow>
      (case GetService ToLower pick s' e of Inl err \<Rightarrow> None | Inr addr \<Rightarrow> Some addr) = store (service_key (et_prefix e) name i)"
    and "colon_free i \<Longrightarrow> (case GetAllService ToLower s e of Inl err \<Rightarrow> None | Inr m \<Rightarrow> m i) = store (service_key (et_prefix e) name i)"
proof -
  have n: "cut_at CHR '':'' (ToLower s) = None" using assms(3,4) cut_at_free [of "CHR '':''" name] by (simp add: colon_free_def)
  have none: "store (service_key (et_prefix e) name i) = None" if "et_allServices e name = None" "colon_free i" for i
  proof -
    have "addr_of (et_allServices e) name i = store (service_key (et_prefix e) name i)" using assms(1,3) that(2) unfolding follows_def by blast
    then show ?thesis using that(1) by (simp add: addr_of_def)
  qed
  show "case GetService ToLower pick s e of
      Inl err \<Rightarrow> \<forall>i. colon_free i \<longrightarrow> store (service_key (et_prefix e) name i) = None
    | Inr addr \<Rightarrow> \<exists>i. colon_free i \<and> store (service_key (et_prefix e) name i) = Some addr"
  proof (cases "et_allServices e name")
    case None
    then show ?thesis using n assms(4) none by (simp add: GetService_def)
  next
    case (Some set)
    note f = followsD [OF assms(1) Some assms(3)]
    show ?thesis
    proof (cases "ss_ids set = []")
      case True
      then have "dom (ss_id2addr set) = {}" using f(2) by simp
      then have "store (service_key (et_prefix e) name i) = None" if "colon_free i" for i using f(4) [OF that] by auto
      then show ?thesis using True n assms(4) Some by (simp add: GetService_def)
    next
      case False
      let ?i = "ss_ids set ! pick (length (ss_ids set))"
      have i: "?i \<in> List.set (ss_ids set)" using False assms(2) by (intro nth_mem) simp
      then obtain addr where a: "ss_id2addr set ?i = Some addr" using f(2) by blast
      have c: "colon_free ?i" by (rule f(3) [OF i])
      have "GetService ToLower pick s e = Inr addr" using False n assms(4) Some a by (simp add: GetService_def Let_def)
      moreover have "store (service_key (et_prefix e) name ?i) = Some addr" using f(4) [OF c] a by simp
      ultimately show ?thesis using c by auto
    qed
  qed
  show "(case GetService ToLower pick s' e of Inl err \<Rightarrow> None | Inr addr \<Rightarrow> Some addr) = store (service_key (et_prefix e) name i)"
    if "colon_free i" "i \<noteq> []" "ToLower s' = name @ '':'' @ i"
  proof -
    have cut: "cut_at CHR '':'' (ToLower s') = Some (name, i)" using that(3) cut_at_join [of "CHR '':''" name i] assms(3) by (simp add: colon_free_def)
    show ?thesis
    proof (cases "et_allServices e name")
      case None
      then show ?thesis using cut none [OF None that(1)] by (simp add: GetService_def)
    next
      case (Some set)
      note f = followsD [OF assms(1) Some assms(3)]
      have e: "ss_id2addr set i = None" if "ss_ids set = []" using f(2) that by auto
      show ?thesis using cut Some that(2) f(4) [OF that(1)] e by (auto simp: GetService_def Let_def split: option.splits)
    qed
  qed
  show "(case GetAllService ToLower s e of Inl err \<Rightarrow> None | Inr m \<Rightarrow> m i) = store (service_key (et_prefix e) name i)" if "colon_free i"
    using n assms(4) none [OF _ that] followsD(4) [OF assms(1) _ assms(3) that] by (cases "et_allServices e name") (simp_all add: GetAllService_def)
qed



text \<open>A changed address is not seen. When a live key is put again with another address, the store has the new address, and the
  table keeps the old one.\<close>

theorem changed_address_ignored:
  assumes "follows e store" "colon_free name" "colon_free sid" "store (service_key (et_prefix e) name sid) = Some old" "old \<noteq> new"
  shows "let k = service_key (et_prefix e) name sid; e' = fst (onWatchEvent (EventPut k new) e)
    in addr_of (et_allServices e') name sid = Some old \<and> store_step (EventPut k new) store k = Some new"
proof -
  have "parseKey (et_prefix e) (service_key (et_prefix e) name sid) = Inr (name, sid)" using assms(2,3) by (simp add: parseKey_iff)
  moreover have "table_ok (et_allServices e)" "addr_of (et_allServices e) name sid = Some old"
    using assms unfolding follows_def by simp_all
  ultimately show ?thesis using add_spec(2) [of "et_allServices e" name sid new name sid] by (simp add: Let_def)
qed

theorem changed_address_ignored_witness:
  "addr_of (et_allServices (fst (onWatchEvent (EventPut ''gbs:service:gate:1'' ''b'') (loadAndWatch [(''gbs:service:gate:1'', ''a'')] demo_etcd)))) ''gate'' ''1''
    = Some ''a''"
proof -
  let ?e = "loadAndWatch [(''gbs:service:gate:1'', ''a'')] demo_etcd"
  have f: "follows ?e (map_of [(''gbs:service:gate:1'', ''a'')])" by (rule load_follows) simp
  have k: "service_key (et_prefix ?e) ''gate'' ''1'' = ''gbs:service:gate:1''"
    by (simp add: loadAndWatch_def loadExistedServices_def demo_etcd_def service_key_def)
  have "colon_free ''gate''" "colon_free ''1''" by (simp_all add: colon_free_def)
  from changed_address_ignored [OF f this, of "''a''" "''b''"] k show ?thesis by (simp add: Let_def)
qed

text \<open>A service registered under a name with capital letters cannot be withdrawn under that name. Registration
  lower-cases the name, \<open>UnregisterService\<close> does not: it reports success and the registration stays.\<close>

theorem unregister_ignores_case:
  assumes "RegisterService ToLower uuid True True s addr e = ((node, None), e')"
    and "colon_free (ToLower s)" "colon_free uuid" "s \<noteq> ToLower s" "s \<noteq> uuid" "et_regServs e = Map.empty"
  shows "UnregisterService del s [et_prefix e @ node] e' = (None, e') \<and> et_regServs e' (et_prefix e @ node) = Some addr"
proof -
  have n: "node = ToLower s @ '':'' @ uuid" "e' = e\<lparr>et_regServs := (et_regServs e)(et_prefix e @ node \<mapsto> addr)\<rparr>"
    using assms(1) by (auto simp: RegisterService_def putServiceKey_def Let_def)
  have "Split CHR '':'' node = [ToLower s, uuid]"
    using Split_join [of "CHR '':''" "ToLower s" uuid] Split_free [of "CHR '':''" uuid] assms(2,3) n(1) by (simp add: colon_free_def)
  then show ?thesis using assms(4,5) n(2) by (simp add: UnregisterService_def)
qed

theorem unregister_ignores_case_witness:
  "let e' = snd (RegisterService (\<lambda>s. ''gate'') ''1'' True True ''Gate'' ''a'' demo_etcd)
   in UnregisterService (\<lambda>k. True) ''Gate'' [''gbs:service:gate:1''] e' = (None, e')"
proof -
  have "RegisterService (\<lambda>s. ''gate'') ''1'' True True ''Gate'' ''a'' demo_etcd
      = ((''gate:1'', None), demo_etcd\<lparr>et_regServs := [''gbs:service:gate:1'' \<mapsto> ''a'']\<rparr>)"
    by (simp add: RegisterService_def putServiceKey_def demo_etcd_def Let_def)
  from unregister_ignores_case [OF this, of "\<lambda>k. True"] this show ?thesis by (simp add: colon_free_def demo_etcd_def)
qed

end
