(* ===== verification/Calendar.thy ===== *)
theory Calendar
  imports Prelude "HOL-Library.Signed_Division"
begin

text \<open>
  The daily and weekly reset times of \<open>src/util/time.go\<close> and the checked addition of \<open>src/util/math.go\<close>. Times are signed 64-bit
  numbers of milliseconds; Go's division truncates. The package variable \<open>timezoneOffset\<close> is the argument \<open>tz\<close>.
\<close>

definition SecMs :: int where "SecMs = 1000"
definition MinMs :: int where "MinMs = 60 * SecMs"
definition HourMs :: int where "HourMs = 60 * MinMs"
definition DayMs :: int where "DayMs = 24 * HourMs"
definition WeekMs :: int where "WeekMs = 7 * DayMs"

lemma ms_simps [simp]: "HourMs = 3600000" "DayMs = 86400000" "WeekMs = 604800000"
  by (simp_all add: SecMs_def MinMs_def HourMs_def DayMs_def WeekMs_def)

text \<open>\<open>SetTimezone\<close>: the new value of \<open>timezoneOffset\<close>.\<close>

definition SetTimezone :: "int \<Rightarrow> int" where
  "SetTimezone offsetSeconds = i64 (offsetSeconds * 1000)"

definition GetWeekday :: "int \<Rightarrow> int \<Rightarrow> int" where
  "GetWeekday tz nowMs =
    (let ws = i64 (nowMs + tz) smod WeekMs;
         d = ws sdiv DayMs
     in i64 (d + 4) smod 7)"

definition IsNewDayReset :: "int \<Rightarrow> int \<Rightarrow> int \<Rightarrow> int \<Rightarrow> bool" where
  "IsNewDayReset tz before after resetHour \<longleftrightarrow>
     i64 (before + tz - resetHour * HourMs) sdiv DayMs \<noteq> i64 (after + tz - resetHour * HourMs) sdiv DayMs"

definition GetNextDayResetTime :: "int \<Rightarrow> int \<Rightarrow> int \<Rightarrow> int" where
  "GetNextDayResetTime tz nowMs resetHour =
    (let thisDayResetTime = i64 (nowMs - i64 (nowMs + tz) smod DayMs + resetHour * HourMs)
     in if thisDayResetTime > nowMs then thisDayResetTime else i64 (thisDayResetTime + DayMs))"

definition GetLastResetTime :: "int \<Rightarrow> int \<Rightarrow> int \<Rightarrow> int" where
  "GetLastResetTime tz nowMs resetHour = i64 (GetNextDayResetTime tz nowMs resetHour - DayMs)"

definition GetNextWeekResetTime :: "int \<Rightarrow> int \<Rightarrow> int \<Rightarrow> int \<Rightarrow> int" where
  "GetNextWeekResetTime tz nowMs resetHour resetWeekDay =
    (let nowWeekDay = GetWeekday tz nowMs;
         diff = (resetWeekDay - nowWeekDay) * DayMs;
         thisWeekResetTime = i64 (nowMs - i64 (nowMs + tz) smod DayMs + diff + resetHour * HourMs)
     in if thisWeekResetTime > nowMs then thisWeekResetTime else i64 (thisWeekResetTime + WeekMs))"

definition IsWeekReset :: "int \<Rightarrow> int \<Rightarrow> int \<Rightarrow> int \<Rightarrow> int \<Rightarrow> bool" where
  "IsWeekReset tz before after resetHour resetWeekDay \<longleftrightarrow> after \<ge> GetNextWeekResetTime tz before resetHour resetWeekDay"

definition GetLastWeekResetTime :: "int \<Rightarrow> int \<Rightarrow> int \<Rightarrow> int \<Rightarrow> int" where
  "GetLastWeekResetTime tz nowMs resetHour resetWeekDay = i64 (GetNextWeekResetTime tz nowMs resetHour resetWeekDay - WeekMs)"

definition MaxInt64 :: int where "MaxInt64 = 2 ^ 63 - 1"
definition MinInt64 :: int where "MinInt64 = - (2 ^ 63)"

definition AddInt64 :: "int \<Rightarrow> int \<Rightarrow> int \<times> bool" where
  "AddInt64 a b =
    (if b > 0 \<and> a > i64 (MaxInt64 - b) then (MaxInt64, False)
     else if b < 0 \<and> a < i64 (MinInt64 - b) then (MinInt64, False)
     else (i64 (a + b), True))"


section \<open>Reset instants\<close>

text \<open>The instants at which a day or a week is reset, in the local time of the zone; day 0 of the epoch was a Thursday.\<close>

definition day_reset :: "int \<Rightarrow> int \<Rightarrow> int \<Rightarrow> bool" where
  "day_reset tz h t \<longleftrightarrow> DayMs dvd t + tz - h * HourMs"

definition week_reset :: "int \<Rightarrow> int \<Rightarrow> int \<Rightarrow> int \<Rightarrow> bool" where
  "week_reset tz h w t \<longleftrightarrow> WeekMs dvd t + tz - h * HourMs - (w - 4) * DayMs"

definition sane :: "int \<Rightarrow> int \<Rightarrow> int \<Rightarrow> bool" where
  "sane tz h t \<longleftrightarrow> 0 \<le> t + tz \<and> \<bar>t\<bar> < 2 ^ 60 \<and> \<bar>tz\<bar> < 2 ^ 60 \<and> 0 \<le> h \<and> h < 24"

lemma smod_pos: "0 \<le> (a :: int) \<Longrightarrow> 0 < b \<Longrightarrow> a smod b = a mod b" and sdiv_pos: "0 \<le> (a :: int) \<Longrightarrow> 0 < b \<Longrightarrow> a sdiv b = a div b"
  by (simp_all add: signed_modulo_int_def signed_divide_int_def minus_div_mult_eq_mod [symmetric] sgn_if)

lemma i64_mid: "- 4611686018427387904 < x \<Longrightarrow> x < 4611686018427387904 \<Longrightarrow> i64 x = x"
  by (rule i64_small) auto

lemma saneD:
  assumes "sane tz h t"
  shows "0 \<le> t + tz" "- 1152921504606846976 < t" "t < 1152921504606846976" "- 1152921504606846976 < tz" "tz < 1152921504606846976" "0 \<le> h" "h < 24"
  using assms by (auto simp: sane_def)

lemma local_day:
  assumes "sane tz h t"
  shows "i64 (t + tz) = t + tz" "i64 (t + tz) smod 86400000 = (t + tz) mod 86400000"
proof -
  show "i64 (t + tz) = t + tz" by (rule i64_mid) (use saneD [OF assms] in linarith)+
  then show "i64 (t + tz) smod 86400000 = (t + tz) mod 86400000" using saneD(1) [OF assms] by (simp add: smod_pos)
qed

lemma next_day_eq:
  assumes "sane tz h now"
  shows "GetNextDayResetTime tz now h =
    (let r = now - (now + tz) mod 86400000 + h * 3600000 in if r > now then r else r + 86400000)"
proof -
  have m: "0 \<le> (now + tz) mod 86400000" "(now + tz) mod 86400000 < 86400000" by simp_all
  have "i64 (now - (now + tz) mod 86400000 + h * 3600000) = now - (now + tz) mod 86400000 + h * 3600000"
    by (rule i64_mid) (use saneD [OF assms] m in linarith)+
  moreover have "i64 (now - (now + tz) mod 86400000 + h * 3600000 + 86400000) = now - (now + tz) mod 86400000 + h * 3600000 + 86400000"
    by (rule i64_mid) (use saneD [OF assms] m in linarith)+
  ultimately show ?thesis by (simp add: GetNextDayResetTime_def local_day(2) [OF assms] Let_def)
qed

lemma least_in_period:
  fixes n :: int
  assumes "p dvd n + c" "n \<le> now + p" "p dvd t + c" "now < t"
  shows "n \<le> t"
proof (rule ccontr)
  assume "\<not> n \<le> t"
  moreover have "p dvd n - t" using dvd_diff [OF assms(1,3)] by simp
  ultimately have "p \<le> n - t" by (intro zdvd_imp_le) simp_all
  then show False using assms(2,4) by linarith
qed

lemma day_reset_next:
  assumes "sane tz h now"
  shows "now < GetNextDayResetTime tz now h" "GetNextDayResetTime tz now h \<le> now + 86400000" "day_reset tz h (GetNextDayResetTime tz now h)"
proof -
  define m where "m = (now + tz) mod 86400000"
  have m: "0 \<le> m" "m < 86400000" by (simp_all add: m_def)
  define D where "D = (now + tz) div 86400000"
  have r: "now + tz = 86400000 * D + m" by (simp add: m_def D_def)
  have e: "GetNextDayResetTime tz now h = (if now - m + h * 3600000 > now then now - m + h * 3600000 else now - m + h * 3600000 + 86400000)"
    by (simp add: next_day_eq [OF assms] m_def Let_def)
  show "now < GetNextDayResetTime tz now h" "GetNextDayResetTime tz now h \<le> now + 86400000"
    unfolding e using m saneD(6,7) [OF assms] by auto
  have "now - m + h * 3600000 + tz - h * 3600000 = 86400000 * D"
    "now - m + h * 3600000 + 86400000 + tz - h * 3600000 = 86400000 * (D + 1)" using r by (simp_all add: distrib_left)
  then have "86400000 dvd now - m + h * 3600000 + tz - h * 3600000" "86400000 dvd now - m + h * 3600000 + 86400000 + tz - h * 3600000"
    by (metis dvd_triv_left)+
  then show "day_reset tz h (GetNextDayResetTime tz now h)"
    unfolding e day_reset_def ms_simps by (cases "now < now - m + h * 3600000") (simp_all only: if_True if_False)
qed

lemma crossed_iff:
  fixes x y n :: int
  assumes "0 < p" "p dvd n" "x < n" "n \<le> x + p" "x \<le> y"
  shows "x div p \<noteq> y div p \<longleftrightarrow> n \<le> y"
proof -
  obtain k where k: "n = p * k" using assms(2) by (rule dvdE)
  have "x div p = k - 1"
  proof (rule int_div_pos_eq [of x p "k - 1" "x - p * (k - 1)"])
    show "x = p * (k - 1) + (x - p * (k - 1))" by simp
    show "0 \<le> x - p * (k - 1)" "x - p * (k - 1) < p" using assms(3,4) k by (simp_all add: algebra_simps)
  qed
  moreover have "k - 1 \<le> y div p" using zdiv_mono1 [OF assms(5,1)] calculation by simp
  moreover have "n \<le> y" if "k \<le> y div p"
  proof -
    have "p * k \<le> p * (y div p)" using that assms(1) by (intro mult_left_mono) simp_all
    also have "\<dots> \<le> y" using mult_div_mod_eq [of p y] pos_mod_sign [OF assms(1), of y] by linarith
    finally show ?thesis by (simp add: k)
  qed
  moreover have "k \<le> y div p" if "n \<le> y" using zdiv_mono1 [OF that assms(1)] assms(1) by (simp add: k)
  ultimately show ?thesis by linarith
qed

lemma new_day_iff:
  assumes "sane tz h now" "sane tz h later" "now \<le> later" "h * 3600000 \<le> now + tz"
  shows "IsNewDayReset tz now later h \<longleftrightarrow> GetNextDayResetTime tz now h \<le> later"
proof -
  let ?x = "now + tz - h * 3600000" and ?y = "later + tz - h * 3600000" and ?n = "GetNextDayResetTime tz now h + tz - h * 3600000"
  have "i64 ?x = ?x" by (rule i64_mid) (use saneD [OF assms(1)] in linarith)+
  moreover have "i64 ?y = ?y" by (rule i64_mid) (use saneD [OF assms(2)] in linarith)+
  ultimately have "IsNewDayReset tz now later h \<longleftrightarrow> ?x div 86400000 \<noteq> ?y div 86400000"
    using assms(3,4) by (simp add: IsNewDayReset_def sdiv_pos)
  also have "\<dots> \<longleftrightarrow> ?n \<le> ?y"
    by (rule crossed_iff) (use day_reset_next [OF assms(1)] assms(3) in \<open>simp_all add: day_reset_def\<close>)
  finally show ?thesis by simp
qed

lemma last_day_eq: "sane tz h now \<Longrightarrow> GetLastResetTime tz now h = GetNextDayResetTime tz now h - 86400000"
proof -
  assume "sane tz h now"
  then have "i64 (GetNextDayResetTime tz now h - 86400000) = GetNextDayResetTime tz now h - 86400000"
    by (intro i64_mid) (use day_reset_next [of tz h now] saneD [of tz h now] in linarith)+
  then show ?thesis by (simp add: GetLastResetTime_def)
qed




section \<open>Weekly resets\<close>

lemma weekday_eq:
  assumes "sane tz h now"
  shows "GetWeekday tz now = ((now + tz) div 86400000 + 4) mod 7"
proof -
  define D where "D = (now + tz) div 86400000"
  have "(now + tz) mod 604800000 = (now + tz) mod (86400000 * 7)" by simp
  also have "\<dots> = 86400000 * (D mod 7) + (now + tz) mod 86400000" unfolding D_def by (rule zmod_zmult2_eq) simp
  finally have "(now + tz) mod 604800000 div 86400000 = D mod 7" by simp
  moreover have "i64 (D mod 7 + 4) = D mod 7 + 4" by (rule i64_mid) (use pos_mod_bound [of 7 D] pos_mod_sign [of 7 D] in linarith)+
  moreover have "i64 (now + tz) smod 604800000 = (now + tz) mod 604800000" using saneD(1) [OF assms] by (simp add: local_day(1) [OF assms] smod_pos)
  ultimately show ?thesis by (simp add: GetWeekday_def Let_def sdiv_pos smod_pos D_def mod_add_left_eq)
qed

definition this_week :: "int \<Rightarrow> int \<Rightarrow> int \<Rightarrow> int \<Rightarrow> int" where
  "this_week tz now h w = now - (now + tz) mod 86400000 + (w - GetWeekday tz now) * 86400000 + h * 3600000"

lemma this_week_bounds:
  assumes "sane tz h now" "0 \<le> w" "0 \<le> GetWeekday tz now" "GetWeekday tz now \<le> 6"
  shows "now - 604800000 < this_week tz now h w" "w \<le> 7 \<Longrightarrow> this_week tz now h w < now + 691200000" "w \<le> 6 \<Longrightarrow> this_week tz now h w \<le> now + 604800000"
proof -
  define m where "m = (now + tz) mod 86400000"
  define e where "e = GetWeekday tz now"
  have m: "0 \<le> m" "m < 86400000" and e: "0 \<le> e" "e \<le> 6" and t: "this_week tz now h w = now - m + (w * 86400000 - e * 86400000) + h * 3600000"
    using assms(3,4) by (simp_all add: m_def e_def this_week_def algebra_simps)
  show "now - 604800000 < this_week tz now h w" unfolding t using m e assms(2) saneD(6) [OF assms(1)] by linarith
  show "this_week tz now h w < now + 691200000" if "w \<le> 7" unfolding t using m e that saneD(7) [OF assms(1)] by linarith
  show "this_week tz now h w \<le> now + 604800000" if "w \<le> 6" unfolding t using m e that saneD(7) [OF assms(1)] by linarith
qed

lemma next_week_eq:
  assumes "sane tz h now" "0 \<le> w" "w \<le> 7"
  shows "GetNextWeekResetTime tz now h w = (if this_week tz now h w > now then this_week tz now h w else this_week tz now h w + 604800000)"
    and "0 \<le> GetWeekday tz now" "GetWeekday tz now \<le> 6"
proof -
  show e: "0 \<le> GetWeekday tz now" "GetWeekday tz now \<le> 6" by (simp_all add: weekday_eq [OF assms(1)])
  note b = this_week_bounds(1,2) [OF assms(1,2) e]
  have "i64 (this_week tz now h w) = this_week tz now h w" "i64 (this_week tz now h w + 604800000) = this_week tz now h w + 604800000"
    by (rule i64_mid; use saneD(2,3) [OF assms(1)] b(1) b(2) [OF assms(3)] in linarith)+
  then show "GetNextWeekResetTime tz now h w = (if this_week tz now h w > now then this_week tz now h w else this_week tz now h w + 604800000)"
    by (simp add: GetNextWeekResetTime_def this_week_def Let_def local_day(2) [OF assms(1)])
qed

lemma this_week_reset:
  assumes "sane tz h now"
  shows "week_reset tz h w (this_week tz now h w)" "week_reset tz h w (this_week tz now h w + 604800000)"
proof -
  define D where "D = (now + tz) div 86400000"
  obtain j where j: "D + 4 - GetWeekday tz now = 7 * j"
    by (metis D_def weekday_eq [OF assms] dvd_minus_mod dvdE)
  have r: "now + tz - (now + tz) mod 86400000 = 86400000 * D" unfolding D_def by (simp add: minus_mod_eq_mult_div)
  have "this_week tz now h w + tz - h * 3600000 - (w - 4) * 86400000 = 86400000 * (D + 4 - GetWeekday tz now)"
    using r by (simp add: this_week_def algebra_simps)
  also have "\<dots> = 604800000 * j" unfolding j by simp
  finally have t: "this_week tz now h w + tz - h * 3600000 - (w - 4) * 86400000 = 604800000 * j" .
  then show "week_reset tz h w (this_week tz now h w)" unfolding week_reset_def ms_simps by (metis dvd_triv_left)
  have "this_week tz now h w + 604800000 + tz - h * 3600000 - (w - 4) * 86400000 = 604800000 * (j + 1)" using t by simp
  then show "week_reset tz h w (this_week tz now h w + 604800000)" unfolding week_reset_def ms_simps by (metis dvd_triv_left)
qed

lemma week_reset_next:
  assumes "sane tz h now" "0 \<le> w" "w \<le> 6"
  shows "now < GetNextWeekResetTime tz now h w" "GetNextWeekResetTime tz now h w \<le> now + 604800000"
    "week_reset tz h w (GetNextWeekResetTime tz now h w)"
proof -
  have w: "w \<le> 7" using assms(3) by simp
  note e = next_week_eq [OF assms(1,2) w]
  have b: "now - 604800000 < this_week tz now h w" "this_week tz now h w \<le> now + 604800000"
    using this_week_bounds [OF assms(1,2) e(2,3)] assms(3) by blast+
  then show "now < GetNextWeekResetTime tz now h w" "GetNextWeekResetTime tz now h w \<le> now + 604800000" unfolding e(1) by auto
  show "week_reset tz h w (GetNextWeekResetTime tz now h w)" unfolding e(1) using this_week_reset [OF assms(1), of w] by simp
qed

text \<open>C39: weekly resets. For a weekday from 0 (Sunday) to 6, \<open>GetNextWeekResetTime\<close> is the first instant after now at which
  that weekday's reset hour strikes in the local zone, and \<open>IsWeekReset\<close> says exactly whether such an instant lies between
  two times.\<close>

theorem week_resets_correct:
  assumes "sane tz h now" "0 \<le> w" "w \<le> 6"
  shows "now < GetNextWeekResetTime tz now h w \<and> week_reset tz h w (GetNextWeekResetTime tz now h w)
    \<and> (\<forall>t. week_reset tz h w t \<longrightarrow> now < t \<longrightarrow> GetNextWeekResetTime tz now h w \<le> t)
    \<and> (\<forall>later. IsWeekReset tz now later h w \<longleftrightarrow> (\<exists>t. week_reset tz h w t \<and> now < t \<and> t \<le> later))"
proof -
  note nx = week_reset_next [OF assms]
  have least: "GetNextWeekResetTime tz now h w \<le> t" if "week_reset tz h w t" "now < t" for t
    by (rule least_in_period [of 604800000 _ "tz - h * 3600000 - (w - 4) * 86400000" now])
      (use nx that in \<open>simp_all add: week_reset_def algebra_simps\<close>)
  then show ?thesis using nx by (auto simp: IsWeekReset_def intro: order_trans)
qed

theorem week_resets_correct_witness:
  "week_reset 0 5 1 (GetNextWeekResetTime 0 3600000 5 1)"
proof -
  have "sane 0 5 3600000" by (simp add: sane_def)
  from week_resets_correct [OF this, of 1] show ?thesis by simp
qed

text \<open>C40: Sunday written as 7 skips a week. The comment on \<open>GetNextWeekResetTime\<close> allows 0 and 7 for Sunday, but on a Sunday
  before the reset hour the two differ: with 0 the reset of the same day is returned, with 7 the one a week later.\<close>

theorem sunday_seven_skips_week:
  assumes "sane tz h now" "GetWeekday tz now = 0" "(now + tz) mod DayMs < h * HourMs"
  shows "GetNextWeekResetTime tz now h 7 = GetNextWeekResetTime tz now h 0 + WeekMs"
proof -
  have "this_week tz now h 7 = this_week tz now h 0 + 604800000" by (simp add: this_week_def)
  moreover have "now < this_week tz now h 0" using assms(2,3) by (simp add: this_week_def)
  ultimately show ?thesis using next_week_eq(1) [OF assms(1), of 7] next_week_eq(1) [OF assms(1), of 0] by simp
qed

theorem sunday_seven_skips_week_witness:
  "GetNextWeekResetTime 0 259200000 5 7 = GetNextWeekResetTime 0 259200000 5 0 + WeekMs"
proof -
  have s: "sane 0 5 259200000" by (simp add: sane_def)
  have "GetWeekday 0 259200000 = 0" by (simp add: weekday_eq [OF s])
  from sunday_seven_skips_week [OF s this] show ?thesis by simp
qed

text \<open>\<open>AddInt64\<close> saturates: the sum when it fits into 64 bits, and otherwise the nearest bound with the flag false.\<close>

theorem add_int64_saturates:
  assumes "MinInt64 \<le> a" "a \<le> MaxInt64" "MinInt64 \<le> b" "b \<le> MaxInt64"
  shows "AddInt64 a b = (max MinInt64 (min MaxInt64 (a + b)), MinInt64 \<le> a + b \<and> a + b \<le> MaxInt64)"
proof -
  have "i64 (MaxInt64 - b) = MaxInt64 - b" if "b > 0" using assms that by (intro i64_small) (simp_all add: MaxInt64_def MinInt64_def)
  moreover have "i64 (MinInt64 - b) = MinInt64 - b" if "b < 0" using assms that by (intro i64_small) (simp_all add: MaxInt64_def MinInt64_def)
  moreover have "i64 (a + b) = a + b" if "MinInt64 \<le> a + b" "a + b \<le> MaxInt64" using that by (intro i64_small) (simp_all add: MaxInt64_def MinInt64_def)
  ultimately show ?thesis using assms by (auto simp: AddInt64_def MaxInt64_def MinInt64_def min_def max_def)
qed

theorem add_int64_saturates_witness:
  "AddInt64 MaxInt64 1 = (MaxInt64, False)"
  using add_int64_saturates [of MaxInt64 1] by (simp add: MaxInt64_def MinInt64_def)

end
