(* ===== verification/Spec2Isabelle.thy ===== *)
theory Spec2Isabelle
  imports Kcp_Net Rank_Tree Clock_Push Ws_Upgrade Ws_Timeout Ws_Compress Registry Calendar
begin

text \<open>
  A verification development for gokit, a Go toolkit for game servers.

  \<^bold>\<open>The program.\<close> gokit is a set of packages that a server combines: a reliable datagram protocol (\<open>src/kcp\<close>), a
  WebSocket server (\<open>src/wsg\<close>), a timer service (\<open>src/clock\<close>), data structures (\<open>src/ds\<close>), service discovery
  (\<open>src/servicediscovery\<close>), and layers over third-party drivers (RPC, MongoDB, Redis, HTTP, logging). The WebSocket server keeps the
  connections that are still shaking hands in the bounded queue of \<open>src/ds/staticlist\<close>; the leaderboard of
  \<open>src/ds/skiplist/rank.go\<close> is a map and a skip list; the KCP control block keeps its segments in ring buffers and in a
  heap. The development models these parts and the ways in which they rely on each other.

  \<^bold>\<open>Conventions.\<close> A Go method \<open>(t *T) M\<close> is a definition \<open>T_M\<close>, or \<open>M\<close> where no other type has it; a struct is a record whose
  fields carry a short prefix. State is passed explicitly. Unsigned integers are words and wrap; the signed 64-bit
  integers whose overflow matters are integers under \<open>i64\<close>. A computation that may panic has the type \<open>'a go\<close>, with the panic on
  the left (\<open>Prelude\<close>). Pointers are indices into an explicit store where the code links nodes: \<open>Skip_List\<close>, \<open>Queue\<close>, \<open>Timer_List\<close>.

  \<^bold>\<open>KCP\<close> (\<open>src/kcp/ikcp.go\<close>, \<open>ringbuffer.go\<close>, \<open>snmp.go\<close>).
  \<^item> \<open>Ring_Buffer\<close>: the growing ring buffer; every operation implements a list used as a queue (locale \<open>fifo_queue\<close>).
  \<^item> \<open>Go_Heap\<close>, \<open>Seg_Heap\<close>: \<open>container/heap\<close> and the receive heap, whose order is by wrapping sequence numbers inside a window
    (locale \<open>reorder_buffer\<close>).
  \<^item> \<open>Kcp_Codec\<close>, \<open>Kcp_Core\<close>, \<open>Kcp_Send\<close>, \<open>Kcp_Recv\<close>, \<open>Kcp_Ack\<close>, \<open>Kcp_Flush\<close>, \<open>Kcp_Wire\<close>, \<open>Kcp_Input\<close>, \<open>Kcp_Update\<close>: the
    wire format and the operations \<open>Send\<close>, \<open>Recv\<close>, \<open>Input\<close>, \<open>flush\<close>, \<open>Update\<close>, \<open>Check\<close> and the configuration calls on the record \<open>KCP\<close>.
    Shown: the header round trip; fragmentation; in-order delivery to the receive queue; which
    segments an acknowledgement releases; the RTT estimator; that packets are whole segments within the mtu; and that \<open>Input\<close>
    is safe on any packet of at most 1524 bytes, with the panic above that size as a theorem of its own.
  \<^item> \<open>Kcp_Net\<close>: two endpoints over a network that loses, repeats, delays and reorders packets, as a step relation; each has received a
    prefix of what the other sent, and nothing panics.
  \<^item> \<open>Snmp\<close>: the statistics counters.

  \<^bold>\<open>Data structures\<close> (\<open>src/ds\<close>).
  \<^item> \<open>Skip_List\<close>, \<open>Skip_List_Spec\<close>: insertion, removal, ranks, update and traversal on linked nodes with spans implement a strictly
    sorted list (locale \<open>ranked_index\<close>); the random levels are an arbitrary stream.
  \<^item> \<open>Rank_Tree\<close>: the leaderboard; the map and the skip list stay in step under additions and removals, and do not under updates.
  \<^item> \<open>Dll\<close>: circular linked lists with a sentinel (locale \<open>dll_heap\<close>, interpreted for the queue and the timer lists).
  \<^item> \<open>Static_List\<close>, \<open>Queue\<close>: the slot pool and the bounded queue; the queue implements a list, and clients that keep
    handles to its nodes rest on the locale \<open>handle_queue\<close>.

  \<^bold>\<open>Clock\<close> (\<open>src/clock\<close>).
  \<^item> \<open>Timer_List\<close>: the intrusive timer lists at the level of pointers.
  \<^item> \<open>Clock\<close>, \<open>Clock_Sched\<close>: the timing wheel on lists of timers; a deliverable timer fires at the latest 40 ms after its time and never
    early, tasks keep the wheel in order, and a timer beyond the reach of the wheels makes a tick loop for ever.
  \<^item> \<open>Clock_Push\<close>: callers, the task channel and the goroutine as a step relation over all interleavings.

  \<^bold>\<open>WebSocket\<close> (\<open>src/wsg\<close>). The gnet connection is a record of operations with its documented behaviour as a hypothesis.
  \<^item> \<open>Ws_Frame\<close>: frame headers, masking and close payloads. \<open>Ws_Conn\<close>: the frame loop; however the stream is cut, the messages
    are pushed whole and in order.
  \<^item> \<open>Ws_Token\<close>, \<open>Ws_Upgrade\<close>: the header tokenizers, Base64, SHA-1, \<open>Upgrade\<close> and \<open>handshake\<close>; a request that follows the protocol is
    accepted, and no other upgrades a connection.
  \<^item> \<open>Ws_Timeout\<close>: the handshake queue as a client of \<open>handle_queue\<close>. \<open>Ws_Compress\<close>: the writer that holds back four bytes.

  \<^bold>\<open>Service discovery and utilities.\<close> \<open>Registry\<close>: the table of services follows the store of etcd, and lookups return
  live instances. \<open>Calendar\<close>: daily and weekly reset times (\<open>src/util/time.go\<close>) and the saturating addition of \<open>src/util/math.go\<close>.

  \<^bold>\<open>Bounds and fuel.\<close> Loops over linked nodes take fuel: the number of nodes in the store, and the refinement lemmas show that this
  is enough to return. The loops that may not end (\<open>popRange\<close>, \<open>List_PopRange\<close>, \<open>frame_loop\<close>) are partial functions into
  \<open>option\<close>, and the theorems about them state that they return, or that they do not. The theorems on \<open>Kcp_Net\<close> bound the fragments
  sent by each side so that sequence numbers do not wrap around; \<open>Calendar\<close> takes times below \<open>2 ^ 60\<close> ms.

  \<^bold>\<open>Arguments that stand for other code.\<close> gnet; the etcd client; random levels, random choices and fresh identifiers; of the standard
  library only \<open>http.ReadRequest\<close>, \<open>url.Parse\<close> and the Unicode table of \<open>strings.ToLower\<close>, whose size exceeds what the code relies on.

  \<^bold>\<open>Not modelled.\<close> The sessions and sockets of \<open>src/kcp\<close>; the RPC client and server, HTTP handlers, database clients, logging and
  application framework, which drive third-party packages, goroutines and files; generated protobuf code; the pools of \<open>compress/flate\<close>
  objects; the subprotocol selection of the upgrader, which nothing calls; the bounded channels that carry the events of the
  handshake ticker; the goroutine and the keep-alive channels of the etcd client.
\<close>

end
